(* ===== verification/Vent_Prelude.thy ===== *)
theory Vent_Prelude
  imports Complex_Main "HOL-Library.Word" "HOL-Library.Monad_Syntax"
begin

text \<open>
  Shared vocabulary of the development: the error values of the modelled Python code, the
  bit-level facts on unbounded integers that the arithmetic components use, and the
  collections their proofs draw on.
\<close>

unbundle bit_operations_syntax

subsection \<open>Masks and shifts as arithmetic\<close>

lemma and_mask_mod: "(x::int) AND (2 ^ n - 1) = x mod 2 ^ n"
  by (simp flip: mask_eq_exp_minus_1 take_bit_eq_mask take_bit_eq_mod)

lemma not_and_mask:
  assumes "0 \<le> x" "x < 2 ^ n"
  shows "NOT (x::int) AND (2 ^ n - 1) = 2 ^ n - 1 - x"
proof -
  have "NOT x AND (2 ^ n - 1) = (- x - 1) mod 2 ^ n"
    by (simp add: and_mask_mod not_int_def)
  also have "\<dots> = (2 ^ n - 1 - x) mod 2 ^ n"
  proof -
    have "(- x - 1 + 2 ^ n) mod 2 ^ n = (- x - 1) mod 2 ^ n" by (rule mod_add_self2)
    then show ?thesis by (simp add: algebra_simps)
  qed
  also have "\<dots> = 2 ^ n - 1 - x" using assms by (simp add: mod_pos_pos_trivial)
  finally show ?thesis .
qed

subsection \<open>The full adder\<close>

lemma add_xor_and: "(x::int) + y = (x XOR y) + 2 * (x AND y)"
proof (induction x arbitrary: y rule: int_bit_induct)
  case zero
  show ?case by simp
next
  case minus
  show ?case by (simp add: not_int_def)
next
  case (even k)
  have "k + y div 2 = (k XOR y div 2) + 2 * (k AND y div 2)" by (rule even.IH)
  then show ?case
    by (subst xor_int_rec, subst and_int_rec) (simp add: algebra_simps, presburger)
next
  case (odd k)
  have "k + y div 2 = (k XOR y div 2) + 2 * (k AND y div 2)" by (rule odd.IH)
  then show ?case
    by (subst xor_int_rec, subst and_int_rec) (simp add: algebra_simps, presburger)
qed

lemma majority_xor:
  "((x::int) AND y) OR (x AND z) OR (y AND z) = (x AND y) + ((x XOR y) AND z)"
proof -
  have "(x AND y) OR (x AND z) OR (y AND z) = (x AND y) OR ((x XOR y) AND z)"
    by (rule bit_eqI) (auto simp: bit_simps)
  also have "\<dots> = (x AND y) + ((x XOR y) AND z)"
    by (rule disjunctive_add_eq_or [symmetric], rule bit_eqI) (auto simp: bit_simps)
  finally show ?thesis .
qed

lemma full_adder:
  "(x::int) + y + z = (x XOR y XOR z) + 2 * ((x AND y) OR (x AND z) OR (y AND z))"
  by (simp add: majority_xor xor.assoc add_xor_and [of "x XOR y" z] add_xor_and [of x y])

lemma or_one_even: "even (x::int) \<Longrightarrow> x OR 1 = x + 1"
  by (simp add: or_one_eq)

subsection \<open>Lists\<close>

lemma find_first: "\<forall>x \<in> set xs. \<not> Q x \<Longrightarrow> Q y \<Longrightarrow> find Q (xs @ y # ys) = Some y"
  by (induction xs) auto

subsection \<open>Bit length\<close>

fun bit_len :: "int \<Rightarrow> nat" where
  "bit_len n = (if n \<le> 0 then 0 else Suc (bit_len (n div 2)))"

declare bit_len.simps [simp del]

text \<open>Python's \<open>int.bit_length\<close>: the bits of the magnitude, 0 for 0.\<close>

definition bit_length :: "int \<Rightarrow> nat" where
  "bit_length n = bit_len \<bar>n\<bar>"

lemma bit_len_upper: "n < 2 ^ bit_len n"
proof (induction n rule: bit_len.induct)
  case (1 n)
  show ?case
  proof (cases "n \<le> 0")
    case False
    then have "n div 2 < 2 ^ bit_len (n div 2)" by (rule 1)
    then show ?thesis using False by (simp add: bit_len.simps [of n])
  qed (simp add: bit_len.simps [of n])
qed

lemma bit_len_lower: "n > 0 \<Longrightarrow> 2 ^ (bit_len n - 1) \<le> n"
proof (induction n rule: bit_len.induct)
  case (1 n)
  then have n: "n > 0" by simp
  show ?case
  proof (cases "n div 2 \<le> 0")
    case True
    then show ?thesis using n by (simp add: bit_len.simps [of n] bit_len.simps [of "n div 2"] bit_len.simps [of 0])
  next
    case False
    then have le: "2 ^ (bit_len (n div 2) - 1) \<le> n div 2" using 1 n by simp
    from False have "bit_len (n div 2) > 0" by (simp add: bit_len.simps [of "n div 2"])
    then obtain k where k: "bit_len (n div 2) = Suc k" by (cases "bit_len (n div 2)") auto
    with le n show ?thesis by (simp add: bit_len.simps [of n])
  qed
qed

lemma bit_length_upper: "n \<ge> 0 \<Longrightarrow> n < 2 ^ bit_length n"
  using bit_len_upper [of n] by (simp add: bit_length_def)

lemma bit_length_lower: "n > 0 \<Longrightarrow> 2 ^ (bit_length n - 1) \<le> n"
  using bit_len_lower [of n] by (simp add: bit_length_def)

lemma bit_length_unique:
  assumes "2 ^ k \<le> n" "n < 2 ^ Suc k"
  shows "bit_length n = Suc k"
proof -
  have n: "n > 0" using assms(1) by (smt (verit) zero_less_power)
  have "(2 :: int) ^ (bit_length n - 1) < 2 ^ Suc k"
    using bit_length_lower [OF n] assms(2) by (rule le_less_trans)
  then have "bit_length n - 1 < Suc k" by (rule power_less_imp_less_exp [rotated]) simp
  moreover have "(2 :: int) ^ k < 2 ^ bit_length n"
    using assms(1) bit_length_upper [of n] n by linarith
  then have "k < bit_length n" by (rule power_less_imp_less_exp [rotated]) simp
  ultimately show ?thesis by simp
qed

end
