(* ===== verification/Srt_Pla.thy ===== *)
theory Srt_Pla
  imports Vent_Prelude
begin

text \<open>
  The quotient-digit selection table of the radix-4 SRT divider (tools/srt/srt_model.py):
  Edelman's generator \<open>_lookup_raw\<close>, its resolution of the overlap regions, the ladder
  thresholds derived from it and the ladder \<open>pla\<close>, with the five cells that the flawed
  table lacks. The locale \<open>digit_select\<close> states what the recurrences rely on, and the
  correct table is shown to provide it.

  The Python computes the ten breakpoints as floats \<open>k * Dp / 6\<close> with small integers \<open>k\<close> and
  \<open>Dp\<close>. Where the quotient is an integer the float division is exact, and elsewhere it is at
  least a sixth away from one, so \<open>floor\<close> and \<open>ceil\<close> of the float are the integer floor and
  ceiling below.
\<close>

definition BAD_DP :: "int list" where
  "BAD_DP = [18, 21, 24, 27, 30]"

definition ceil_div :: "int \<Rightarrow> int \<Rightarrow> int" where
  "ceil_div a b = - ((- a) div b)"

definition lookup_raw :: "int \<Rightarrow> int \<Rightarrow> rat" where
  "lookup_raw P Dp =
    (let qq = (\<Sum>t \<leftarrow> [(-8 * Dp) div 6 - 1, ceil_div (-5 * Dp) 6,
                        (-4 * Dp) div 6 - 1, ceil_div (-2 * Dp) 6,
                        (- Dp) div 6 - 1, ceil_div Dp 6,
                        (2 * Dp) div 6 - 1, ceil_div (4 * Dp) 6,
                        (5 * Dp) div 6 - 1, ceil_div (8 * Dp) 6]. of_bool (t \<le> P)) :: int
     in of_int (qq - 5) / 2)"

definition resolve :: "rat \<Rightarrow> int" where
  "resolve qh =
    (if qh = of_int \<lfloor>qh\<rfloor> then \<lfloor>qh\<rfloor>
     else if qh > 0 then \<lceil>qh\<rceil> else \<lfloor>qh\<rfloor>)"

definition threshold :: "int \<Rightarrow> int \<Rightarrow> int option" where
  "threshold D q =
    find (\<lambda>P. q \<le> min 2 (max (-2) (resolve (lookup_raw P (D + 1))))) [-64..63]"

text \<open>
  \<open>_THR\<close> has a row for D = 16..31 only (a KeyError elsewhere), and its construction needs each
  threshold to exist.
\<close>

definition THR :: "int \<Rightarrow> int \<Rightarrow> int option" where
  "THR D q = (if D \<in> set [16..31] \<and> q \<in> set [2, 1, 0, -1] then threshold D q else None)"

definition pla :: "int \<Rightarrow> int \<Rightarrow> bool \<Rightarrow> int option" where
  "pla P D buggy =
    (let Dp = D + 1 in
     if buggy \<and> Dp \<in> set BAD_DP \<and> P = 4 * Dp div 3 - 1 then Some 0
     else do {
       t2 \<leftarrow> THR D 2; t1 \<leftarrow> THR D 1; t0 \<leftarrow> THR D 0; tm1 \<leftarrow> THR D (-1);
       Some (if P \<ge> t2 then 2 else if P \<ge> t1 then 1 else if P \<ge> t0 then 0
             else if P \<ge> tm1 then -1 else -2) })"

subsection \<open>The thresholds in closed form\<close>

lemma resolve_half:
  "resolve (of_int n / 2) = (if even n then n div 2 else if n > 0 then n div 2 + 1 else n div 2)"
proof (cases "even n")
  case True
  then obtain k where "n = 2 * k" by (elim evenE)
  then show ?thesis by (simp add: resolve_def)
next
  case False
  then obtain k where k: "n = 2 * k + 1" by (elim oddE)
  have fl: "\<lfloor>of_int n / 2 :: rat\<rfloor> = k" by (rule floor_unique) (simp_all add: k)
  have ce: "\<lceil>of_int n / 2 :: rat\<rceil> = k + 1" by (rule ceiling_unique) (simp_all add: k)
  have ne: "(of_int n / 2 :: rat) \<noteq> of_int k" by (simp add: k)
  have pos: "(of_int n / 2 :: rat) > 0 \<longleftrightarrow> n > 0" by simp
  have "resolve (of_int n / 2) = (if n > 0 then k + 1 else k)"
    by (simp only: resolve_def fl ce ne pos if_False)
  then show ?thesis using k by simp
qed

lemma find_upto_ge:
  assumes "lo \<le> t" "t \<le> hi"
  shows "find (\<lambda>P. t \<le> P) [lo..hi] = Some t"
proof -
  have "find (\<lambda>P. t \<le> P) ([lo..t - 1] @ t # [t + 1..hi]) = Some t"
    by (rule find_first) auto
  then show ?thesis using upto_split3 [OF assms] by simp
qed

definition level :: "int \<Rightarrow> int \<Rightarrow> int" where
  "level Dp P = (\<Sum>t \<leftarrow> [(-8 * Dp) div 6 - 1, ceil_div (-5 * Dp) 6,
                        (-4 * Dp) div 6 - 1, ceil_div (-2 * Dp) 6,
                        (- Dp) div 6 - 1, ceil_div Dp 6,
                        (2 * Dp) div 6 - 1, ceil_div (4 * Dp) 6,
                        (5 * Dp) div 6 - 1, ceil_div (8 * Dp) 6]. of_bool (t \<le> P))"

lemma lookup_raw_level: "lookup_raw P Dp = of_int (level Dp P - 5) / 2"
  by (simp add: lookup_raw_def level_def Let_def)

lemma clamped_digit:
  "2 \<le> min 2 (max (-2) (resolve (of_int (n - 5) / 2))) \<longleftrightarrow> 8 \<le> n"
  "1 \<le> min 2 (max (-2) (resolve (of_int (n - 5) / 2))) \<longleftrightarrow> 6 \<le> n"
  "0 \<le> min 2 (max (-2) (resolve (of_int (n - 5) / 2))) \<longleftrightarrow> 5 \<le> n"
  "-1 \<le> min 2 (max (-2) (resolve (of_int (n - 5) / 2))) \<longleftrightarrow> 3 \<le> n"
  by (simp_all only: resolve_half, auto, presburger+)

definition breakpoint :: "int \<Rightarrow> int \<Rightarrow> int" where
  "breakpoint D q =
    (if q = 2 then ceil_div (4 * (D + 1)) 6 else if q = 1 then ceil_div (D + 1) 6
     else if q = 0 then (- (D + 1)) div 6 - 1 else (-4 * (D + 1)) div 6 - 1)"

lemma column_cases:
  assumes "16 \<le> D" "D \<le> (31 :: int)"
  shows "D = 16 \<or> D = 17 \<or> D = 18 \<or> D = 19 \<or> D = 20 \<or> D = 21 \<or> D = 22 \<or> D = 23 \<or>
    D = 24 \<or> D = 25 \<or> D = 26 \<or> D = 27 \<or> D = 28 \<or> D = 29 \<or> D = 30 \<or> D = 31"
  using assms by presburger

lemma level_ladder:
  assumes "16 \<le> D" "D \<le> 31"
  shows "8 \<le> level (D + 1) P \<longleftrightarrow> breakpoint D 2 \<le> P"
    "6 \<le> level (D + 1) P \<longleftrightarrow> breakpoint D 1 \<le> P"
    "5 \<le> level (D + 1) P \<longleftrightarrow> breakpoint D 0 \<le> P"
    "3 \<le> level (D + 1) P \<longleftrightarrow> breakpoint D (-1) \<le> P"
proof -
  define Dp where "Dp = D + 1"
  have D: "17 \<le> Dp" "Dp \<le> 32" using assms by (simp_all add: Dp_def)
  define t1 t2 t3 t4 t5 t6 t7 t8 t9 t10 where
    t: "t1 = (-8 * Dp) div 6 - 1" "t2 = ceil_div (-5 * Dp) 6" "t3 = (-4 * Dp) div 6 - 1"
       "t4 = ceil_div (-2 * Dp) 6" "t5 = (- Dp) div 6 - 1" "t6 = ceil_div Dp 6"
       "t7 = (2 * Dp) div 6 - 1" "t8 = ceil_div (4 * Dp) 6" "t9 = (5 * Dp) div 6 - 1"
       "t10 = ceil_div (8 * Dp) 6"
  have lev: "level Dp P = of_bool (t1 \<le> P) + of_bool (t2 \<le> P) + of_bool (t3 \<le> P)
      + of_bool (t4 \<le> P) + of_bool (t5 \<le> P) + of_bool (t6 \<le> P) + of_bool (t7 \<le> P)
      + of_bool (t8 \<le> P) + of_bool (t9 \<le> P) + of_bool (t10 \<le> P)"
    by (simp add: level_def t)
  have ord: "t1 \<le> t2" "t2 \<le> t3" "t3 \<le> t4" "t4 \<le> t5" "t5 \<le> t6" "t6 \<le> t7" "t7 \<le> t8"
    "t8 \<le> t9" "t9 \<le> t10"
    using column_cases [OF assms] unfolding t ceil_div_def Dp_def by (elim disjE; simp)+
  have b: "breakpoint D 2 = t8" "breakpoint D 1 = t6" "breakpoint D 0 = t5" "breakpoint D (-1) = t3"
    by (simp_all add: breakpoint_def t Dp_def)
  have bnd: "0 \<le> (of_bool c :: int)" "of_bool c \<le> (1 :: int)" for c by simp_all
  note bnds = bnd [of "t1 \<le> P"] bnd [of "t2 \<le> P"] bnd [of "t3 \<le> P"] bnd [of "t4 \<le> P"]
    bnd [of "t5 \<le> P"] bnd [of "t6 \<le> P"] bnd [of "t7 \<le> P"] bnd [of "t8 \<le> P"]
    bnd [of "t9 \<le> P"] bnd [of "t10 \<le> P"]
  note lev' = lev [unfolded Dp_def]
  show "8 \<le> level (D + 1) P \<longleftrightarrow> breakpoint D 2 \<le> P"
    unfolding b lev' using ord bnds by (cases "t8 \<le> P") simp_all
  show "6 \<le> level (D + 1) P \<longleftrightarrow> breakpoint D 1 \<le> P"
    unfolding b lev' using ord bnds by (cases "t6 \<le> P") simp_all
  show "5 \<le> level (D + 1) P \<longleftrightarrow> breakpoint D 0 \<le> P"
    unfolding b lev' using ord bnds by (cases "t5 \<le> P") simp_all
  show "3 \<le> level (D + 1) P \<longleftrightarrow> breakpoint D (-1) \<le> P"
    unfolding b lev' using ord bnds by (cases "t3 \<le> P") simp_all
qed

lemma THR_breakpoint:
  assumes "16 \<le> D" "D \<le> 31" "q \<in> {2, 1, 0, -1}"
  shows "THR D q = Some (breakpoint D q)"
proof -
  have digit: "q \<le> min 2 (max (-2) (resolve (lookup_raw P (D + 1)))) \<longleftrightarrow> breakpoint D q \<le> P" for P
    using assms(3) level_ladder [OF assms(1,2), of P]
    by (auto simp only: lookup_raw_level clamped_digit)
  have "-64 \<le> breakpoint D q" "breakpoint D q \<le> 63"
    using column_cases [OF assms(1,2)] assms(3) unfolding breakpoint_def ceil_div_def
    by (elim disjE; auto)+
  then have "threshold D q = Some (breakpoint D q)"
    by (simp only: threshold_def digit find_upto_ge)
  moreover have "D \<in> set [16..31]" using assms(1,2) by (simp only: set_upto) simp
  moreover have "q \<in> set [2, 1, 0, -1]" using assms(3) by simp
  ultimately show ?thesis by (simp only: THR_def if_True simp_thms)
qed


text \<open>The ladder of a column, read off the closed form.\<close>

lemma pla_ladder:
  assumes "16 \<le> D" "D \<le> 31" and "\<not> (buggy \<and> D + 1 \<in> set BAD_DP \<and> P = 4 * (D + 1) div 3 - 1)"
  shows "pla P D buggy =
    Some (if P \<ge> breakpoint D 2 then 2 else if P \<ge> breakpoint D 1 then 1
          else if P \<ge> breakpoint D 0 then 0 else if P \<ge> breakpoint D (-1) then -1 else -2)"
proof -
  have "THR D 2 = Some (breakpoint D 2)" "THR D 1 = Some (breakpoint D 1)"
    "THR D 0 = Some (breakpoint D 0)" "THR D (-1) = Some (breakpoint D (-1))"
    using assms by (simp_all add: THR_breakpoint)
  then show ?thesis using assms(3) by (simp only: pla_def Let_def if_False Option.bind.simps)
qed

text \<open>The same as an unconditional equation, which evaluation uses in place of the table search.\<close>

lemma pla_eval [code]:
  "pla P D buggy =
    (if D < 16 \<or> D > 31 then None
     else if buggy \<and> D + 1 \<in> set BAD_DP \<and> P = 4 * (D + 1) div 3 - 1 then Some 0
     else Some (if P \<ge> breakpoint D 2 then 2 else if P \<ge> breakpoint D 1 then 1
          else if P \<ge> breakpoint D 0 then 0 else if P \<ge> breakpoint D (-1) then -1 else -2))"
proof (cases "D < 16 \<or> D > 31")
  case True
  then have "D \<notin> set [16..31]" by (simp only: set_upto) auto
  then have "THR D 2 = None" by (simp only: THR_def if_False simp_thms)
  moreover have "D + 1 \<notin> set BAD_DP" using True by (auto simp: BAD_DP_def)
  ultimately show ?thesis using True by (simp add: pla_def Let_def)
next
  case False
  then show ?thesis
    using pla_ladder [of D buggy P] by (auto simp: pla_def Let_def)
qed

subsection \<open>What the recurrences rely on\<close>

text \<open>
  A digit selection for a divisor \<open>m\<close> reads the partial remainder \<open>v\<close> through a truncated index
  \<open>P\<close> in units of \<open>2 * h\<close>: carry-save truncation leaves \<open>v\<close> up to two units above \<open>P\<close>. The
  contract: as long as \<open>v\<close> lies within 8/3 of the divisor, the digit exists, is one of -2..2, and
  leaves a remainder within 2/3 of the divisor (with a margin of one at the top, which absorbs
  the dividend bits that the integer divider injects).
\<close>

locale digit_select =
  fixes sel :: "int \<Rightarrow> int \<Rightarrow> int option" \<comment> \<open>index and column to digit\<close>
  assumes contained:
    "h > 0 \<Longrightarrow> 16 * h \<le> m \<Longrightarrow> m < 32 * h \<Longrightarrow>
     2 * h * P \<le> v \<Longrightarrow> v \<le> 2 * h * P + 4 * h - 2 \<Longrightarrow> - 8 * m \<le> 3 * v \<Longrightarrow> 3 * v \<le> 8 * m - 3 \<Longrightarrow>
     \<exists>q. sel P (m div h) = Some q \<and> -2 \<le> q \<and> q \<le> 2 \<and>
         - 2 * m \<le> 3 * (v - q * m) \<and> 3 * (v - q * m) \<le> 2 * m - 3"

lemma index_scaled:
  assumes "(h::int) > 0" "2 * h * P \<le> v" "v \<le> 2 * h * P + 4 * h - 2"
  shows "t \<le> P \<Longrightarrow> 2 * (h * t) \<le> v" "\<not> t \<le> P \<Longrightarrow> v \<le> 2 * (h * t) + 2 * h - 2"
proof -
  assume "t \<le> P"
  then have "h * t \<le> h * P" using assms(1) by simp
  then show "2 * (h * t) \<le> v" using assms(2) by linarith
next
  assume "\<not> t \<le> P"
  then have "P \<le> t - 1" by linarith
  then have "h * P \<le> h * (t - 1)" using assms(1) by simp
  then show "v \<le> 2 * (h * t) + 2 * h - 2" using assms(3) by (simp add: algebra_simps)
qed

lemma breakpoint_bounds:
  assumes "16 \<le> D" "D \<le> 31"
  shows "4 * (D + 1) \<le> 6 * breakpoint D 2" "6 * breakpoint D 2 + 6 \<le> 5 * D"
    "D + 1 \<le> 6 * breakpoint D 1" "6 * breakpoint D 1 + 6 \<le> 2 * D"
    "- 2 * D \<le> 6 * breakpoint D 0" "6 * breakpoint D 0 + 6 \<le> - (D + 1)"
    "- 5 * D \<le> 6 * breakpoint D (-1)" "6 * breakpoint D (-1) + 6 \<le> - 4 * (D + 1)"
  using column_cases [OF assms] unfolding breakpoint_def ceil_div_def by (elim disjE; simp)+

lemma pla_contained:
  assumes h: "h > 0" and m: "16 * h \<le> m" "m < 32 * h"
    and P: "2 * h * P \<le> v" "v \<le> 2 * h * P + 4 * h - 2"
    and v: "- 8 * m \<le> 3 * v" "3 * v \<le> 8 * m - 3"
  shows "\<exists>q. pla P (m div h) False = Some q \<and> -2 \<le> q \<and> q \<le> 2 \<and>
         - 2 * m \<le> 3 * (v - q * m) \<and> 3 * (v - q * m) \<le> 2 * m - 3"
proof -
  define D where "D = m div h"
  have mD: "h * D \<le> m" "m \<le> h * D + h - 1"
    using pos_mod_bound [OF h, of m] pos_mod_sign [OF h, of m] mult_div_mod_eq [of h m]
    unfolding D_def by linarith+
  have "h * D < h * 32" using mD m by linarith
  moreover have "h * 16 < h * (D + 1)" using mD m unfolding distrib_left by linarith
  ultimately have D: "16 \<le> D" "D \<le> 31" using h by (simp_all only: mult_less_cancel_left_pos)
  define t2 t1 t0 tm where t: "t2 = breakpoint D 2" "t1 = breakpoint D 1" "t0 = breakpoint D 0"
    "tm = breakpoint D (-1)"
  note bp = breakpoint_bounds [OF D, folded t]
  have scale: "h * a \<le> h * b" if "a \<le> b" for a b using that h by simp
  have scaled: "4 * (h * D) + 4 * h \<le> 6 * (h * t2)" "6 * (h * t2) + 6 * h \<le> 5 * (h * D)"
    "h * D + h \<le> 6 * (h * t1)" "6 * (h * t1) + 6 * h \<le> 2 * (h * D)"
    "0 \<le> 6 * (h * t0) + 2 * (h * D)" "6 * (h * t0) + h * D + 7 * h \<le> 0"
    "0 \<le> 6 * (h * tm) + 5 * (h * D)" "6 * (h * tm) + 4 * (h * D) + 10 * h \<le> 0"
    using bp [THEN scale] by (simp_all add: algebra_simps)
  have "6 * tm \<le> 6 * t0" using bp(5,8) D(1) by simp
  moreover have "6 * t0 \<le> 6 * t1" using bp(3,6) D(1) by simp
  moreover have "6 * t1 \<le> 6 * t2" using bp(1,4) D(1) by simp
  ultimately have order: "tm \<le> t0" "t0 \<le> t1" "t1 \<le> t2" by simp_all
  have lad: "pla P D False = Some (if t2 \<le> P then 2 else if t1 \<le> P then 1
      else if t0 \<le> P then 0 else if tm \<le> P then -1 else -2)"
    using pla_ladder [OF D, of False P] by (simp add: t)
  note idx = index_scaled [OF h P]
  have up: "v \<le> 2 * (h * t) + 2 * h - 2" if "\<not> t \<le> P" for t using idx(2) that by blast
  consider "t2 \<le> P" | "t1 \<le> P" "\<not> t2 \<le> P" | "t0 \<le> P" "\<not> t1 \<le> P" | "tm \<le> P" "\<not> t0 \<le> P"
    | "\<not> tm \<le> P" by blast
  then show ?thesis
  proof cases
    case 1
    then show ?thesis using idx(1) [of t2] scaled(1) mD v lad by (simp add: D_def [symmetric])
  next
    case 2
    then show ?thesis using idx(1) [of t1] up [of t2] scaled(2,3) mD lad by (simp add: D_def [symmetric])
  next
    case 3
    then show ?thesis using idx(1) [of t0] up [of t1] scaled(4,5) mD lad order
      by (simp add: D_def [symmetric])
  next
    case 4
    then show ?thesis using idx(1) [of tm] up [of t0] scaled(6,7) mD lad order
      by (simp add: D_def [symmetric])
  next
    case 5
    then show ?thesis using up [of tm] scaled(8) mD v lad order by (simp add: D_def [symmetric])
  qed
qed

interpretation correct_pla: digit_select "\<lambda>P D. pla P D False"
  by unfold_locales (rule pla_contained)

end
