(* ===== verification/Srt_Datapath.thy ===== *)
theory Srt_Datapath
  imports Srt_Pla
begin

text \<open>
  The 80-bit ones-complement carry-save datapath that the divider, the square root and the
  integer remainder of tools/srt share: the truncated index field, the S^C^T + majority adder
  and the addend selection. \<open>cs_rep v S C\<close> says that the register pair holds the partial
  remainder \<open>v\<close>; the lemmas follow \<open>v\<close> through one adder pass, one radix-4 shift and the
  truncated read of the index.
\<close>

definition IDX_IW :: nat where "IDX_IW = 4"
definition REG_IW :: nat where "REG_IW = 8"
definition FRACW :: nat where "FRACW = 72"
definition NSTEP :: nat where "NSTEP = 36"
definition W :: nat where "W = REG_IW + FRACW"
definition M :: int where "M = push_bit (REG_IW + FRACW) 1 - 1"

lemma W_eq: "W = 80" by (simp add: W_def REG_IW_def FRACW_def)
lemma M_eq: "M = 2 ^ 80 - 1" by (simp add: M_def REG_IW_def FRACW_def push_bit_eq_mult)

lemma and_M: "x AND M = x mod 2 ^ 80"
  unfolding M_eq by (rule and_mask_mod)

lemma shift_mask: "push_bit 1 x AND M = (2 * x) mod 2 ^ 80" "push_bit 2 x AND M = (4 * x) mod 2 ^ 80"
  by (simp_all only: and_M push_bit_eq_mult mult.commute) simp_all

definition fld_at :: "nat \<Rightarrow> int \<Rightarrow> int" where
  "fld_at t u = (let f = drop_bit t u AND 0x7F in if drop_bit 6 f \<noteq> 0 then f - 128 else f)"

definition cs_index :: "nat \<Rightarrow> int \<Rightarrow> int \<Rightarrow> int" where
  "cs_index t S C = (fld_at t C + fld_at t S + 64) mod 128 - 64"

definition csa_add :: "int \<Rightarrow> int \<Rightarrow> int \<Rightarrow> bool \<Rightarrow> int \<times> int" where
  "csa_add S C T cf =
    (let s = S XOR C XOR T;
         carry = push_bit 1 ((S AND C) OR (S AND T) OR (C AND T)) AND M
     in (s, if cf then carry OR 1 else carry))"

definition cs_rep :: "int \<Rightarrow> int \<Rightarrow> int \<Rightarrow> bool" where
  "cs_rep v S C \<longleftrightarrow> 0 \<le> S \<and> S < 2 ^ 80 \<and> 0 \<le> C \<and> C < 2 ^ 80 \<and> (S + C) mod 2 ^ 80 = v mod 2 ^ 80"

subsection \<open>One pass of the adder\<close>

lemma xor_bounded:
  assumes "0 \<le> x" "x < 2 ^ n" "0 \<le> y" "y < (2 :: int) ^ n"
  shows "0 \<le> x XOR y" "x XOR y < 2 ^ n"
proof -
  have "take_bit n (x XOR y) = x XOR y"
    using assms by (simp add: take_bit_xor take_bit_int_eq_self)
  then show "x XOR y < 2 ^ n" by (metis take_bit_int_less_exp)
  show "0 \<le> x XOR y" using assms by simp
qed

lemma csa_add_sum:
  assumes "0 \<le> S" "S < 2 ^ 80" "0 \<le> C" "C < 2 ^ 80" "0 \<le> T" "T < 2 ^ 80"
  shows "cs_rep (S + C + T + of_bool cf) (fst (csa_add S C T cf)) (snd (csa_add S C T cf))"
proof -
  let ?s = "S XOR C XOR T" and ?maj = "(S AND C) OR (S AND T) OR (C AND T)"
  let ?c = "(2 * ?maj) mod 2 ^ 80"
  have CT: "0 \<le> C XOR T" "C XOR T < 2 ^ 80" by (rule xor_bounded [OF assms(3-6)])+
  have s: "0 \<le> ?s" "?s < 2 ^ 80" by (rule xor_bounded [OF assms(1,2) CT])+
  have carry: "push_bit 1 ?maj AND M = ?c" by (rule shift_mask)
  have even: "even ?c" by (simp add: dvd_mod_iff)
  have c: "0 \<le> ?c" "?c < 2 ^ 80" by simp_all
  have c1: "?c + 1 < 2 ^ 80" 
  proof -
    obtain k where k: "?c = 2 * k" using even by (rule evenE)
    then show ?thesis using c(2) unfolding k by simp
  qed
  have "(?s + ?c) mod 2 ^ 80 = (?s + 2 * ?maj) mod 2 ^ 80" by (rule mod_add_right_eq)
  then have sum: "(?s + ?c) mod 2 ^ 80 = (S + C + T) mod 2 ^ 80"
    by (simp only: full_adder [of S C T])
  have sum1: "(?s + (?c + 1)) mod 2 ^ 80 = (S + C + T + 1) mod 2 ^ 80"
    using mod_add_cong [OF sum refl, of 1] by (simp only: ac_simps)
  have csa: "csa_add S C T cf = (?s, if cf then ?c + 1 else ?c)"
    by (simp only: csa_add_def Let_def carry or_one_even [OF even])
  define s c where sc: "s = ?s" "c = ?c"
  show ?thesis
    using s c c1 sum sum1 unfolding csa cs_rep_def sc [symmetric] by (cases cf) simp_all
qed

lemma cs_rep_cong: "cs_rep v S C \<Longrightarrow> v mod 2 ^ 80 = w mod 2 ^ 80 \<Longrightarrow> cs_rep w S C"
  by (simp add: cs_rep_def)

lemma csa_add_addend:
  assumes "cs_rep v S C" "0 \<le> T" "T < 2 ^ 80" "(T + of_bool cf) mod 2 ^ 80 = w mod 2 ^ 80"
  shows "cs_rep (v + w) (fst (csa_add S C T cf)) (snd (csa_add S C T cf))"
proof -
  have "(S + C + (T + of_bool cf)) mod 2 ^ 80 = (v + w) mod 2 ^ 80"
    using assms(1,4) by (intro mod_add_cong) (simp_all add: cs_rep_def)
  then show ?thesis
    using csa_add_sum [of S C T cf] assms(1-3) by (auto simp: cs_rep_def add.assoc)
qed

text \<open>Subtracting \<open>x\<close>: the ones complement of \<open>x\<close> and a carry in.\<close>

lemma csa_add_sub:
  assumes "cs_rep v S C" "0 \<le> x" "x < 2 ^ 80"
  shows "cs_rep (v - x) (fst (csa_add S C (NOT x AND M) True)) (snd (csa_add S C (NOT x AND M) True))"
proof -
  have T: "NOT x AND M = 2 ^ 80 - 1 - x" using assms by (simp only: M_eq not_and_mask)
  have "((NOT x AND M) + 1) mod 2 ^ 80 = (- x) mod 2 ^ 80"
    unfolding T using mod_add_self2 [of "- x" "2 ^ 80 :: int"] by (simp add: algebra_simps)
  then show ?thesis
    using csa_add_addend [OF assms(1), of "NOT x AND M" True "- x"] assms T by simp
qed

lemma cs_rep_shift:
  assumes "cs_rep v S C"
  shows "cs_rep (4 * v) (push_bit 2 S AND M) (push_bit 2 C AND M)"
proof -
  have "(4 * S mod 2 ^ 80 + 4 * C mod 2 ^ 80) mod 2 ^ 80 = (4 * (S + C)) mod 2 ^ 80"
    by (simp add: mod_add_eq distrib_left)
  also have "\<dots> = (4 * ((S + C) mod 2 ^ 80)) mod 2 ^ 80" by (rule mod_mult_right_eq [symmetric])
  also have "\<dots> = (4 * (v mod 2 ^ 80)) mod 2 ^ 80" using assms by (simp only: cs_rep_def)
  also have "\<dots> = (4 * v) mod 2 ^ 80" by (rule mod_mult_right_eq)
  finally show ?thesis by (simp add: cs_rep_def shift_mask)
qed

subsection \<open>The truncated index\<close>

lemma fld_at_mod: "fld_at t u mod 128 = (u div 2 ^ t) mod 128"
proof -
  have "drop_bit t u AND 0x7F = (u div 2 ^ t) mod 2 ^ 7"
    using and_mask_mod [of "drop_bit t u" 7] by (simp add: drop_bit_eq_div)
  then show ?thesis by (simp add: fld_at_def Let_def)
qed

lemma cs_index_bounds:
  assumes rep: "cs_rep v S C" and t: "t + 7 \<le> 80"
    and v: "- 62 * 2 ^ t \<le> v" "v < 64 * 2 ^ t"
  shows "2 ^ t * cs_index t S C \<le> v" "v \<le> 2 ^ t * cs_index t S C + 2 * 2 ^ t - 2"
proof -
  let ?u = "2 ^ t :: int"
  define A where "A = S div ?u + C div ?u"
  define r where "r = S mod ?u + C mod ?u"
  have u: "?u > 0" by simp
  have r: "0 \<le> r" "r \<le> 2 * ?u - 2"
    using pos_mod_bound [OF u, of S] pos_mod_bound [OF u, of C]
      pos_mod_sign [OF u, of S] pos_mod_sign [OF u, of C] unfolding r_def by linarith+
  have sum: "S + C = ?u * A + r"
    by (simp add: A_def r_def algebra_simps)
  obtain j where j: "v = S + C + 2 ^ 80 * j"
    using rep by (metis cs_rep_def mod_eqE)
  have pw: "(2 :: int) ^ 80 = ?u * (128 * 2 ^ (73 - t))"
    using t by (simp flip: power_add)
  define A' where "A' = A + 128 * (2 ^ (73 - t) * j)"
  have v': "v = ?u * A' + r"
    unfolding j sum pw A'_def by (simp add: algebra_simps)
  have "?u * (-64) \<le> ?u * A'" "?u * A' < ?u * 64"
    using v r v' by linarith+
  then have A': "-64 \<le> A'" "A' < 64"
    by (simp_all only: mult_le_cancel_left_pos [OF u] mult_less_cancel_left_pos [OF u])
  have "(fld_at t C + fld_at t S) mod 128 = (C div ?u + S div ?u) mod 128"
    by (intro mod_add_cong fld_at_mod)
  also have "\<dots> = A' mod 128" by (simp add: A'_def A_def add.commute)
  finally have "(fld_at t C + fld_at t S + 64) mod 128 = (A' + 64) mod 128"
    by (rule mod_add_cong) simp
  also have "\<dots> = A' + 64" using A' by (intro mod_pos_pos_trivial) simp_all
  finally have "cs_index t S C = A'" by (simp add: cs_index_def)
  then show "?u * cs_index t S C \<le> v" "v \<le> ?u * cs_index t S C + 2 * ?u - 2"
    using v' r by simp_all
qed

text \<open>The two registers added up: the remainder modulo the register width, and its sign.\<close>

lemma cs_rep_value:
  assumes "cs_rep v S C" "- (2 ^ 79) \<le> v" "v < 2 ^ 79"
  shows "(C + S) AND M = (if v < 0 then v + 2 ^ 80 else v)"
proof -
  have "(C + S) AND M = v mod 2 ^ 80"
    using assms(1) by (simp only: cs_rep_def and_M add.commute [of C S])
  also have "\<dots> = (if v < 0 then v + 2 ^ 80 else v)"
  proof (cases "v < 0")
    case True
    have "v mod 2 ^ 80 = (v + 2 ^ 80) mod 2 ^ 80" by simp
    also have "\<dots> = v + 2 ^ 80" using True assms(2) by (intro mod_pos_pos_trivial) simp_all
    finally show ?thesis using True by simp
  next
    case False
    then show ?thesis using assms(3) by (simp add: mod_pos_pos_trivial)
  qed
  finally show ?thesis .
qed

lemma cs_rep_sign:
  assumes "cs_rep v S C" "- (2 ^ 79) \<le> v" "v < 2 ^ 79"
  shows "drop_bit (W - 1) ((C + S) AND M) \<noteq> 0 \<longleftrightarrow> v < 0"
proof (cases "v < 0")
  case True
  have "0 < (v + 2 ^ 80) div 2 ^ 79"
    using assms(2) by (subst pos_imp_zdiv_pos_iff) simp_all
  then show ?thesis using True unfolding cs_rep_value [OF assms] W_eq by (simp add: drop_bit_eq_div)
next
  case False
  then show ?thesis
    using assms(3) unfolding cs_rep_value [OF assms] W_eq by (simp add: drop_bit_eq_div)
qed

text \<open>The addend of a digit \<open>q\<close> for a divisor \<open>m\<close>: what one step does to the remainder.\<close>

lemma csa_digit:
  assumes "cs_rep v S C" "-2 \<le> q" "q \<le> 2" "0 \<le> m" "2 * m < 2 ^ 80"
    and TC: "(T, cf) = (if q > 0 then (NOT (q * m) AND M, True)
                        else if q < 0 then ((- q) * m, False) else (0, False))"
  shows "cs_rep (v - q * m) (fst (csa_add S C T cf)) (snd (csa_add S C T cf))"
proof -
  consider "q > 0" | "q < 0" | "q = 0" by linarith
  then show ?thesis
  proof cases
    case 1
    then have "q = 1 \<or> q = 2" using assms(3) by linarith
    then have "0 \<le> q * m" "q * m < 2 ^ 80" using assms(4,5) by auto
    then show ?thesis using csa_add_sub [OF assms(1)] TC 1 by simp
  next
    case 2
    then have "q = -1 \<or> q = -2" using assms(2) by linarith
    then have b: "0 \<le> - q * m" "- q * m < 2 ^ 80" using assms(4,5) by auto
    have T: "T = - q * m" "cf = False" using TC 2 by simp_all
    show ?thesis
      using csa_add_addend [OF assms(1), of "- q * m" False "- q * m"] b unfolding T by simp
  next
    case 3
    then show ?thesis using csa_add_addend [OF assms(1), of 0 False 0] TC by simp
  qed
qed

subsection \<open>Selecting a digit from the registers\<close>

context digit_select begin

text \<open>The digit read through the truncated index of the registers keeps the remainder in range.\<close>

lemma select_digit:
  assumes rep: "cs_rep v S C" and t: "Suc t + 7 \<le> 80"
    and m: "16 * 2 ^ t \<le> m" "m < 32 * 2 ^ t"
    and v: "- 8 * m \<le> 3 * v" "3 * v \<le> 8 * m - 3"
  shows "\<exists>q. sel (cs_index (Suc t) S C) (m div 2 ^ t) = Some q \<and> -2 \<le> q \<and> q \<le> 2 \<and>
      - 2 * m \<le> 3 * (v - q * m) \<and> 3 * (v - q * m) \<le> 2 * m - 3"
proof -
  have b: "- 62 * 2 ^ Suc t \<le> v" "v < 64 * 2 ^ Suc t" using m v by simp_all
  show ?thesis
    using cs_index_bounds [OF rep t b] m v by (intro contained) simp_all
qed

end

end
