(* ===== verification/Srt_Remainder.thy ===== *)
theory Srt_Remainder
  imports Srt_Datapath
begin

text \<open>
  The radix-4 SRT integer division of tools/srt/rem_model.py, which FPREM and FPREM1 use: the
  carry-save recurrence of the divider with two dividend bits injected per step, and a final
  correction of the sign of the remainder. \<open>None\<close> stands for a run without a result: a column
  the digit table lacks, or a correction loop that does not end (a divisor that is not positive).
  The module repeats the word width of srt_model (80 bits), so \<open>W\<close> and \<open>M\<close> are shared.
\<close>

definition rem_fld :: "int \<Rightarrow> int" where
  "rem_fld u = fld_at 60 u"

fun intdiv_loop ::
  "nat \<Rightarrow> int \<Rightarrow> int \<Rightarrow> int \<Rightarrow> int \<Rightarrow> int \<Rightarrow> int \<Rightarrow> (int \<times> int \<times> int) option" where
  "intdiv_loop 0 D mb Dcol S C Q = Some (S, C, Q)"
| "intdiv_loop (Suc n) D mb Dcol S C Q =
    (let S = push_bit 2 S AND M;
         C = push_bit 2 C AND M;
         S = (S OR (drop_bit (2 * n) D AND 3)) AND M;
         P = (rem_fld C + rem_fld S + 64) mod 128 - 64
     in do {
       q \<leftarrow> pla P Dcol False;
       let (T, cf) = (if q > 0 then (NOT (q * mb) AND M, True)
                      else if q < 0 then ((- q) * mb AND M, False) else (0, False));
       let (s, carry) = csa_add S C T cf;
       intdiv_loop n D mb Dcol (s AND M) (carry AND M) (4 * Q + q) })"

partial_function (option) correct_up :: "int \<Rightarrow> int \<Rightarrow> int \<Rightarrow> (int \<times> int) option" where
  "correct_up mb Q P = (if P < 0 then correct_up mb (Q - 1) (P + mb) else Some (Q, P))"

partial_function (option) correct_down :: "int \<Rightarrow> int \<Rightarrow> int \<Rightarrow> (int \<times> int) option" where
  "correct_down mb Q P = (if P \<ge> mb then correct_down mb (Q + 1) (P - mb) else Some (Q, P))"

definition srt_intdiv_cs :: "int \<Rightarrow> int \<Rightarrow> (int \<times> int) option" where
  "srt_intdiv_cs D mb =
    (if D = 0 then Some (0, 0)
     else let nsteps = (bit_length D + 1) div 2;
              Dcol = 16 + (drop_bit 59 mb AND 0xF)
          in do {
            (S, C, Q) \<leftarrow> intdiv_loop nsteps D mb Dcol 0 0 0;
            let P = (C + S) AND M;
            let P = (if drop_bit (W - 1) P \<noteq> 0 then P - (M + 1) else P);
            (Q, P) \<leftarrow> correct_up mb Q P;
            correct_down mb Q P })"

subsection \<open>The recurrence\<close>

text \<open>
  With \<open>n\<close> steps to go the dividend digits read so far are \<open>D div 4 ^ n\<close>; the registers hold
  that prefix minus \<open>Q\<close> times the divisor, within two thirds of the divisor.
\<close>

definition rem_inv :: "int \<Rightarrow> int \<Rightarrow> nat \<Rightarrow> int \<Rightarrow> int \<Rightarrow> int \<Rightarrow> bool" where
  "rem_inv D mb n S C Q \<longleftrightarrow>
    (let v = D div 4 ^ n - Q * mb
     in cs_rep v S C \<and> - 2 * mb \<le> 3 * v \<and> 3 * v \<le> 2 * mb - 3)"

lemma inject_digit:
  "((push_bit 2 S AND M) OR (x AND 3)) AND M = (push_bit 2 S AND M) + x mod 4"
proof -
  let ?a = "push_bit 2 S AND M"
  have x3: "x AND 3 = x mod 4" using and_mask_mod [of x 2] by simp
  have a4: "?a = 4 * (S mod 2 ^ 78)"
    unfolding shift_mask using mult_mod_right [of 4 S "2 ^ 78"] by simp
  have "?a AND 3 = 0" using and_mask_mod [of ?a 2] by (simp add: a4)
  then have "?a AND (x AND 3) = 0" by (metis and.left_commute and_zero_eq)
  then have or_add: "?a OR (x AND 3) = ?a + x mod 4"
    by (metis disjunctive_add_eq_or x3)
  have "0 \<le> S mod 2 ^ 78" "S mod 2 ^ 78 < 2 ^ 78" by simp_all
  then have "?a + x mod 4 < 2 ^ 80" "0 \<le> ?a + x mod 4"
    unfolding a4 using pos_mod_bound [of 4 x] pos_mod_sign [of 4 x] by simp_all
  then show ?thesis unfolding or_add and_M [of "?a + x mod 4"] by (intro mod_pos_pos_trivial)
qed

lemma cs_rep_inject:
  assumes "cs_rep v S C"
  shows "cs_rep (4 * v + x mod 4) (((push_bit 2 S AND M) OR (x AND 3)) AND M) (push_bit 2 C AND M)"
proof -
  let ?S = "push_bit 2 S AND M" and ?C = "push_bit 2 C AND M"
  have rep: "cs_rep (4 * v) ?S ?C" by (rule cs_rep_shift [OF assms])
  have "(?S + x mod 4 + ?C) mod 2 ^ 80 = (?S + ?C + x mod 4) mod 2 ^ 80" by (simp only: ac_simps)
  also have "\<dots> = (4 * v + x mod 4) mod 2 ^ 80"
    using rep by (intro mod_add_cong refl) (simp add: cs_rep_def)
  finally have "(?S + x mod 4 + ?C) mod 2 ^ 80 = (4 * v + x mod 4) mod 2 ^ 80" .
  moreover have "0 \<le> ?S + x mod 4" "?S + x mod 4 < 2 ^ 80"
    using and_M [of "(?S OR (x AND 3))"] unfolding inject_digit by simp_all
  ultimately show ?thesis using rep unfolding inject_digit cs_rep_def by blast
qed

lemma rem_step:
  assumes inv: "rem_inv D mb (Suc n) S C Q" and mb: "2 ^ 63 \<le> mb" "mb < 2 ^ 64"
  obtains S' C' Q' where "rem_inv D mb n S' C' Q'"
    "intdiv_loop (Suc n) D mb (mb div 2 ^ 59) S C Q = intdiv_loop n D mb (mb div 2 ^ 59) S' C' Q'"
proof -
  define v where "v = D div 4 ^ Suc n - Q * mb"
  define x where "x = drop_bit (2 * n) D"
  define Si Ci where "Si = ((push_bit 2 S AND M) OR (x AND 3)) AND M" and "Ci = push_bit 2 C AND M"
  have v: "cs_rep v S C" "- 2 * mb \<le> 3 * v" "3 * v \<le> 2 * mb - 3"
    using inv by (simp_all add: rem_inv_def v_def Let_def)
  have x: "x = D div 4 ^ n" by (simp add: x_def drop_bit_eq_div power_mult)
  have rep: "cs_rep (4 * v + x mod 4) Si Ci" unfolding Si_def Ci_def by (rule cs_rep_inject [OF v(1)])
  have x4: "0 \<le> x mod 4" "x mod 4 \<le> 3" using pos_mod_bound [of 4 x] by simp_all
  have val: "4 * v + x mod 4 = D div 4 ^ n - 4 * Q * mb"
  proof -
    have "D div 4 ^ Suc n = x div 4"
      by (simp add: x zdiv_zmult2_eq [symmetric] mult.commute)
    then show ?thesis by (simp add: v_def x [symmetric] algebra_simps)
  qed
  have lo: "- 8 * mb \<le> 3 * (4 * v + x mod 4)" and hi: "3 * (4 * v + x mod 4) \<le> 8 * mb - 3"
    using v x4 by simp_all
  obtain q where q: "pla (cs_index (Suc 59) Si Ci) (mb div 2 ^ 59) False = Some q" "-2 \<le> q" "q \<le> 2"
    "- 2 * mb \<le> 3 * (4 * v + x mod 4 - q * mb)" "3 * (4 * v + x mod 4 - q * mb) \<le> 2 * mb - 3"
    using correct_pla.select_digit [OF rep _ _ _ lo hi, of 59] mb by auto
  obtain T cf where T: "(T, cf) = (if q > 0 then (NOT (q * mb) AND M, True)
                        else if q < 0 then ((- q) * mb AND M, False) else (0, False))" by metis
  obtain s c where sc: "csa_add Si Ci T cf = (s, c)" by fastforce
  have "- q * mb AND M = - q * mb" if "q < 0"
  proof -
    have "q = -1 \<or> q = -2" using q(2) that by linarith
    then have "0 \<le> - q * mb" "- q * mb < 2 ^ 80" using mb by auto
    then show ?thesis by (simp only: and_M mod_pos_pos_trivial)
  qed
  then have T': "(T, cf) = (if q > 0 then (NOT (q * mb) AND M, True)
                        else if q < 0 then ((- q) * mb, False) else (0, False))"
    using T by simp
  have rep': "cs_rep (4 * v + x mod 4 - q * mb) s c"
    using csa_digit [OF rep q(2,3) _ _ T'] mb sc by simp
  then have masked: "s AND M = s" "c AND M = c"
    by (simp_all add: cs_rep_def and_M mod_pos_pos_trivial)
  have "4 * v + x mod 4 - q * mb = D div 4 ^ n - (4 * Q + q) * mb" using val by (simp add: algebra_simps)
  then have "rem_inv D mb n s c (4 * Q + q)"
    unfolding rem_inv_def Let_def using rep' q(4,5) by simp
  moreover have "intdiv_loop (Suc n) D mb (mb div 2 ^ 59) S C Q =
      intdiv_loop n D mb (mb div 2 ^ 59) s c (4 * Q + q)"
  proof -
    have idx: "(rem_fld Ci + rem_fld Si + 64) mod 128 - 64 = cs_index (Suc 59) Si Ci"
      by (simp add: cs_index_def rem_fld_def)
    show ?thesis
      by (simp only: intdiv_loop.simps Let_def Si_def [unfolded x_def, symmetric] Ci_def [symmetric]
        idx q(1) Option.bind.simps T [symmetric] prod.case sc masked)
  qed
  ultimately show thesis by (rule that)
qed

lemma rem_loop:
  assumes "rem_inv D mb n S C Q" and mb: "2 ^ 63 \<le> mb" "mb < 2 ^ 64"
  shows "\<exists>S' C' Q'. intdiv_loop n D mb (mb div 2 ^ 59) S C Q = Some (S', C', Q') \<and> rem_inv D mb 0 S' C' Q'"
  using assms(1)
proof (induction n arbitrary: S C Q)
  case 0
  then show ?case by simp
next
  case (Suc n)
  then show ?case using rem_step [OF Suc.prems mb] by metis
qed

subsection \<open>The result\<close>

lemma correct_up_once: "0 \<le> P + mb \<Longrightarrow> correct_up mb Q P = Some (if P < 0 then (Q - 1, P + mb) else (Q, P))"
  by (simp add: correct_up.simps [of mb Q P] correct_up.simps [of mb "Q - 1"])

lemma correct_down_none: "P < mb \<Longrightarrow> correct_down mb Q P = Some (Q, P)"
  by (simp add: correct_down.simps)

lemma rem_column:
  assumes "2 ^ 63 \<le> mb" "mb < (2 :: int) ^ 64"
  shows "16 + (drop_bit 59 mb AND 0xF) = mb div 2 ^ 59"
proof -
  have "16 \<le> mb div 2 ^ 59" "mb div 2 ^ 59 < 32"
    using assms zdiv_mono1 [OF assms(1), of "2 ^ 59"] by (simp_all add: int_div_less_self)
  then have "(mb div 2 ^ 59) mod 16 = mb div 2 ^ 59 - 16"
    using mod_pos_pos_trivial [of "mb div 2 ^ 59 - 16" 16] minus_mod_self2 [of "mb div 2 ^ 59" 16] by simp
  then show ?thesis using and_mask_mod [of "mb div 2 ^ 59" 4] by (simp add: drop_bit_eq_div)
qed



end
