(* ===== verification/Srt_Divide.thy ===== *)
theory Srt_Divide
  imports Srt_Datapath
begin

text \<open>
  The radix-4 SRT divider of tools/srt/srt_model.py: \<open>srt_core\<close> on Fraction significands, the
  double and floatx80 helpers on bit patterns, \<open>fdiv_fx80\<close>, the reference rounding that the
  module's own self-check computes, and the table emitter. Doubles are their 64-bit patterns, as
  \<open>decompose\<close> reads them; floatx80 values are 80-bit patterns. \<open>None\<close> stands for an exception: a
  column the digit table lacks (KeyError) or a negative shift count (ValueError).

  The column is computed from \<open>float(d_sig)\<close>; every significand that \<open>decompose\<close> returns has 53
  bits, so that conversion and the product by 16 are exact.
\<close>

definition enc :: "rat \<Rightarrow> int" where
  "enc fr = (let iv = \<lfloor>\<bar>fr\<bar> * of_int (push_bit FRACW 1)\<rfloor>; u = iv AND M
             in if fr < 0 then NOT u AND M else u)"

definition fld :: "int \<Rightarrow> int" where
  "fld u = fld_at (FRACW - 3) u"

fun srt_loop ::
  "nat \<Rightarrow> rat \<Rightarrow> int \<Rightarrow> bool \<Rightarrow> int \<Rightarrow> int \<Rightarrow> int list \<Rightarrow> (int \<times> int \<times> int list) option" where
  "srt_loop 0 d_sig D buggy S C digits = Some (S, C, digits)"
| "srt_loop (Suc n) d_sig D buggy S C digits =
    (let P = (fld C + fld S + 64) mod 128 - 64
     in do {
       q \<leftarrow> pla P D buggy;
       let (T, cf) = (if q > 0 then (NOT (enc (of_int q * d_sig)) AND M, True)
                      else if q < 0 then (enc (of_int (- q) * d_sig), False) else (0, False));
       let (s, carry) = csa_add S C T cf;
       srt_loop n d_sig D buggy (push_bit 2 s AND M) (push_bit 2 carry AND M) (digits @ [q]) })"

definition srt_core :: "rat \<Rightarrow> rat \<Rightarrow> bool \<Rightarrow> (int \<times> nat \<times> int) option" where
  "srt_core p_sig d_sig buggy = do {
     (S, C, digits) \<leftarrow> srt_loop NSTEP d_sig \<lfloor>16 * d_sig\<rfloor> buggy (enc p_sig) 0 [];
     let v = (C + S) AND M;
     let rem_sign = (if drop_bit (W - 1) v \<noteq> 0 then -1 else if v \<noteq> 0 then 1 else 0);
     let SH = 2 * (NSTEP - 1);
     let qacc = (\<Sum>(k, q) \<leftarrow> enumerate 0 digits. push_bit (SH - 2 * k) q);
     Some (qacc, SH, rem_sign) }"

definition decompose :: "int \<Rightarrow> int \<times> rat \<times> int" where
  "decompose b =
    (let f = b AND (push_bit 52 1 - 1); e = drop_bit 52 b AND 0x7ff; s = drop_bit 63 b
     in (s, of_int (push_bit 52 1 OR f) / of_int (push_bit 52 1), e - 1023))"

definition double_to_fx80 :: "int \<Rightarrow> int" where
  "double_to_fx80 x =
    (let (s, sig, e) = decompose x; fl = \<lfloor>sig * of_int (push_bit 63 1)\<rfloor>
     in push_bit 79 s OR push_bit 64 ((e + 16383) AND 0x7fff) OR (fl AND (push_bit 64 1 - 1)))"

definition round_fx80 :: "int \<Rightarrow> int \<Rightarrow> nat \<Rightarrow> int \<Rightarrow> int \<Rightarrow> int option" where
  "round_fx80 sign qacc SH rem_sign e_adj =
    (if qacc = 0 then Some (push_bit 79 sign)
     else let msb = int (bit_length qacc) - 1; extra = msb - 63
          in if extra < 1 then None
             else let keep = drop_bit (nat extra) qacc;
                      remv = qacc AND (push_bit (nat extra) 1 - 1);
                      half = push_bit (nat (extra - 1)) 1;
                      up = (if remv > half then True
                            else if remv < half then False
                            else rem_sign > 0 \<or> (rem_sign = 0 \<and> keep AND 1 \<noteq> 0));
                      keep = (if up then keep + 1 else keep);
                      e = (msb - int SH) + e_adj;
                      (keep, e) = (if drop_bit 64 keep \<noteq> 0 then (drop_bit 1 keep, e + 1) else (keep, e))
                  in Some (push_bit 79 sign OR push_bit 64 ((e + 16383) AND 0x7fff)
                           OR (keep AND (push_bit 64 1 - 1))))"

text \<open>A double compares equal to 0.0 when every bit but the sign is clear.\<close>

definition is_zero :: "int \<Rightarrow> bool" where
  "is_zero b \<longleftrightarrow> b AND (push_bit 63 1 - 1) = 0"

definition fdiv_fx80 :: "int \<Rightarrow> int \<Rightarrow> bool \<Rightarrow> int option" where
  "fdiv_fx80 num den buggy =
    (let (sa, ps, pe) = decompose num; (sb, ds, de) = decompose den
     in if is_zero den then Some (push_bit 79 (sa XOR sb) OR push_bit 64 0x7fff OR push_bit 63 1)
        else if is_zero num then Some (push_bit 79 (sa XOR sb))
        else do {
          (qacc, SH, rs) \<leftarrow> srt_core ps ds buggy;
          round_fx80 (sa XOR sb) qacc SH rs (pe - de) })"

subsection \<open>The reference of the self-check\<close>

partial_function (option) halve_loop :: "rat \<Rightarrow> int \<Rightarrow> (rat \<times> int) option" where
  "halve_loop v e = (if v \<ge> 2 then halve_loop (v / 2) (e + 1) else Some (v, e))"

partial_function (option) double_loop :: "rat \<Rightarrow> int \<Rightarrow> (rat \<times> int) option" where
  "double_loop v e = (if v < 1 then double_loop (v * 2) (e - 1) else Some (v, e))"

definition round_half_even :: "rat \<Rightarrow> int" where
  "round_half_even sc =
    (let fl = \<lfloor>sc\<rfloor>; r = sc - of_int fl
     in if r > 1 / 2 \<or> (r = 1 / 2 \<and> fl AND 1 \<noteq> 0) then fl + 1 else fl)"

definition reference_fx80 :: "rat \<Rightarrow> int option" where
  "reference_fx80 v = do {
     (v, e) \<leftarrow> halve_loop v 0;
     (v, e) \<leftarrow> double_loop v e;
     let fl = round_half_even (v * of_int (push_bit 63 1));
     let (fl, e) = (if fl \<ge> push_bit 64 1 then (drop_bit 1 fl, e + 1) else (fl, e));
     Some (push_bit 64 ((e + 16383) AND 0x7fff) OR (fl AND (push_bit 64 1 - 1))) }"

subsection \<open>Conversion back to a double\<close>

definition pow2 :: "int \<Rightarrow> rat" where
  "pow2 k = (if k \<ge> 0 then of_int (push_bit (nat k) 1) else 1 / of_int (push_bit (nat (- k)) 1))"

definition ilog2 :: "rat \<Rightarrow> int" where
  "ilog2 v = (let (n, d) = quotient_of v; k = int (bit_length n) - int (bit_length d)
              in if v < pow2 k then k - 1 else k)"

text \<open>Python's \<open>float(Fraction)\<close> as a bit pattern: correct rounding, None for OverflowError.\<close>

definition float_of_rat :: "rat \<Rightarrow> int option" where
  "float_of_rat v =
    (if v = 0 then Some 0
     else let e = max (ilog2 \<bar>v\<bar>) (-1022);
              bits = push_bit 52 (e + 1022) + round_half_even (\<bar>v\<bar> * pow2 (52 - e))
          in if bits \<ge> push_bit 52 0x7ff then None
             else Some (if v < 0 then push_bit 63 1 + bits else bits))"

definition fx80_to_double :: "int \<Rightarrow> int option" where
  "fx80_to_double fx =
    (let sign = drop_bit 79 fx; exp = drop_bit 64 fx AND 0x7fff; man = fx AND (push_bit 64 1 - 1);
         v = (of_int man / of_int (push_bit 63 1)) * pow2 (exp - 16383)
     in float_of_rat ((if sign \<noteq> 0 then -1 else 1) * v))"

subsection \<open>The recurrence\<close>

lemma enc_scaled:
  assumes "x * 2 ^ 72 = of_int m" "0 \<le> m" "m < 2 ^ 80"
  shows "enc x = m"
proof -
  have x: "0 \<le> x"
  proof (rule ccontr)
    assume "\<not> 0 \<le> x"
    then have "x * 2 ^ 72 < 0" by (simp add: mult_less_0_iff)
    then show False using assms(1,2) by simp
  qed
  have "push_bit FRACW (1 :: int) = 2 ^ 72" by (simp add: FRACW_def push_bit_eq_mult)
  then have "\<lfloor>\<bar>x\<bar> * of_int (push_bit FRACW 1)\<rfloor> = m"
    using x assms(1) by simp
  then show ?thesis using x assms(2,3) by (simp add: enc_def Let_def and_M)
qed

text \<open>
  After \<open>k\<close> steps the registers hold \<open>v\<close> with \<open>4 ^ k\<close> times the dividend equal to \<open>v\<close> plus
  four times the divisor times the number \<open>Q\<close> that the digits write in radix 4.
\<close>

definition digits_value :: "int list \<Rightarrow> int" where
  "digits_value ds = foldl (\<lambda>Q q. 4 * Q + q) 0 ds"

lemma digits_value_append [simp]: "digits_value [] = 0" "digits_value (ds @ [q]) = 4 * digits_value ds + q"
  by (simp_all add: digits_value_def)

lemma digits_sum:
  "length ds \<le> Suc n \<Longrightarrow>
    (\<Sum>(k, q) \<leftarrow> enumerate 0 ds. push_bit (2 * n - 2 * k) q) = 4 ^ (Suc n - length ds) * digits_value ds"
proof (induction ds rule: rev_induct)
  case Nil
  then show ?case by simp
next
  case (snoc q ds)
  then have len: "length ds \<le> n" by simp
  have "(4 :: int) ^ (Suc n - length ds) = 4 * 4 ^ (n - length ds)"
    using len by (simp add: Suc_diff_le)
  moreover have "push_bit (2 * n - 2 * length ds) q = q * 4 ^ (n - length ds)"
    by (simp add: push_bit_eq_mult power_mult flip: right_diff_distrib')
  ultimately show ?case
    using snoc by (simp add: enumerate_append_eq algebra_simps)
qed

definition div_inv :: "int \<Rightarrow> int \<Rightarrow> int \<Rightarrow> int \<Rightarrow> int list \<Rightarrow> bool" where
  "div_inv n m S C ds \<longleftrightarrow>
    (let v = 4 ^ length ds * n - 4 * m * digits_value ds
     in cs_rep v S C \<and> - 8 * m \<le> 3 * v \<and> 3 * v \<le> 8 * m - 3)"

lemma addend_scaled:
  assumes d: "d * 2 ^ 72 = of_int m" "0 \<le> m" "2 * m < 2 ^ 80" and q: "-2 \<le> q" "q \<le> 2"
  shows "(if q > 0 then (NOT (enc (of_int q * d)) AND M, True)
          else if q < 0 then (enc (of_int (- q) * d), False) else (0, False)) =
         (if q > 0 then (NOT (q * m) AND M, True) else if q < 0 then ((- q) * m, False) else (0, False))"
proof -
  have e: "enc (of_int k * d) = k * m" if "0 \<le> k" "k \<le> 2" for k
  proof (rule enc_scaled)
    show "of_int k * d * 2 ^ 72 = of_int (k * m)" using d(1) by (simp only: mult.assoc of_int_mult)
    have "k = 0 \<or> k = 1 \<or> k = 2" using that by linarith
    then show "0 \<le> k * m" "k * m < 2 ^ 80" using d by auto
  qed
  show ?thesis using e [of q] e [of "- q"] q by (auto simp del: of_int_minus)
qed

lemma div_step:
  assumes inv: "div_inv n m S C ds" and d: "d * 2 ^ 72 = of_int m" "2 ^ 72 \<le> m" "m < 2 ^ 73"
  shows "\<exists>q S' C'. div_inv n m S' C' (ds @ [q]) \<and>
    srt_loop (Suc k) d (m div 2 ^ 68) False S C ds = srt_loop k d (m div 2 ^ 68) False S' C' (ds @ [q])"
proof -
  define v where "v = 4 ^ length ds * n - 4 * m * digits_value ds"
  have v: "cs_rep v S C" "- 8 * m \<le> 3 * v" "3 * v \<le> 8 * m - 3"
    using inv by (simp_all add: div_inv_def v_def Let_def)
  obtain q where q: "pla (cs_index (Suc 68) S C) (m div 2 ^ 68) False = Some q" "-2 \<le> q" "q \<le> 2"
    "- 2 * m \<le> 3 * (v - q * m)" "3 * (v - q * m) \<le> 2 * m - 3"
    using correct_pla.select_digit [OF v(1) _ _ _ v(2,3), of 68] d by auto
  obtain T cf where T: "(T, cf) = (if q > 0 then (NOT (q * m) AND M, True)
      else if q < 0 then ((- q) * m, False) else (0, False))" by metis
  obtain s c where sc: "csa_add S C T cf = (s, c)" by fastforce
  have rep: "cs_rep (v - q * m) s c" using csa_digit [OF v(1) q(2,3) _ _ T] d sc by simp
  let ?S = "push_bit 2 s AND M" and ?C = "push_bit 2 c AND M"
  have "cs_rep (4 * (v - q * m)) ?S ?C" by (rule cs_rep_shift [OF rep])
  moreover have "4 * (v - q * m) = 4 ^ length (ds @ [q]) * n - 4 * m * digits_value (ds @ [q])"
    by (simp add: v_def algebra_simps)
  ultimately have "div_inv n m ?S ?C (ds @ [q])"
    unfolding div_inv_def Let_def using q(4,5) by simp
  moreover have "srt_loop (Suc k) d (m div 2 ^ 68) False S C ds =
      srt_loop k d (m div 2 ^ 68) False ?S ?C (ds @ [q])"
  proof -
    have idx: "(fld C + fld S + 64) mod 128 - 64 = cs_index (Suc 68) S C"
      by (simp add: cs_index_def fld_def FRACW_def)
    have m: "0 \<le> m" "2 * m < 2 ^ 80" using d by simp_all
    show ?thesis
      by (simp only: srt_loop.simps Let_def idx q(1) Option.bind.simps addend_scaled [OF d(1) m q(2,3)]
        T [symmetric] prod.case sc)
  qed
  ultimately show ?thesis by blast
qed

lemma div_loop:
  assumes "div_inv n m S C ds" and d: "d * 2 ^ 72 = of_int m" "2 ^ 72 \<le> m" "m < 2 ^ 73"
  shows "\<exists>S' C' ds'. srt_loop k d (m div 2 ^ 68) False S C ds = Some (S', C', ds') \<and>
    div_inv n m S' C' ds' \<and> length ds' = length ds + k"
  using assms(1)
proof (induction k arbitrary: S C ds)
  case 0
  then show ?case by simp
next
  case (Suc k)
  obtain q S' C' where "div_inv n m S' C' (ds @ [q])"
    "srt_loop (Suc k) d (m div 2 ^ 68) False S C ds = srt_loop k d (m div 2 ^ 68) False S' C' (ds @ [q])"
    using div_step [OF Suc.prems d] by blast
  then show ?case using Suc.IH [of S' C' "ds @ [q]"] by auto
qed

text \<open>The division identity: quotient accumulator, final remainder, and its sign.\<close>

lemma srt_core_identity:
  assumes n: "p * 2 ^ 72 = of_int n" "2 ^ 72 \<le> n" "n < 2 ^ 73"
    and d: "d * 2 ^ 72 = of_int m" "2 ^ 72 \<le> m" "m < 2 ^ 73"
  shows "\<exists>Q v. srt_core p d False = Some (Q, 70, sgn v) \<and> 4 ^ 36 * n = v + 4 * m * Q \<and>
    - 8 * m \<le> 3 * v \<and> 3 * v \<le> 8 * m - 3"
proof -
  have col: "\<lfloor>16 * d\<rfloor> = m div 2 ^ 68"
  proof -
    have "16 * d = of_int m / of_int (2 ^ 68)" using d(1) by simp
    then show ?thesis by (simp only: floor_divide_of_int_eq)
  qed
  have p: "enc p = n" using enc_scaled [OF n(1)] n by simp
  have "div_inv n m n 0 []" using n d by (simp add: div_inv_def cs_rep_def)
  then obtain S C ds where loop: "srt_loop 36 d (m div 2 ^ 68) False n 0 [] = Some (S, C, ds)"
    and inv: "div_inv n m S C ds" and len: "length ds = 36"
    using div_loop [OF _ d, of n n 0 "[]" 36] by auto
  define v where "v = 4 ^ 36 * n - 4 * m * digits_value ds"
  have v: "cs_rep v S C" "- 8 * m \<le> 3 * v" "3 * v \<le> 8 * m - 3"
    using inv by (simp_all add: div_inv_def v_def Let_def len)
  have b: "- (2 ^ 79) \<le> v" "v < 2 ^ 79" using v(2,3) d by simp_all
  have sign: "(if drop_bit (W - 1) ((C + S) AND M) \<noteq> 0 then -1
      else if (C + S) AND M \<noteq> 0 then 1 else 0) = sgn v"
    unfolding cs_rep_sign [OF v(1) b] using cs_rep_value [OF v(1) b] by (simp add: sgn_if)
  have Q: "(\<Sum>(k, q) \<leftarrow> enumerate 0 ds. push_bit (2 * 35 - 2 * k) q) = digits_value ds"
    using digits_sum [of ds 35] by (simp add: len)
  have N: "NSTEP = 36" "2 * (36 - 1) = (2 * 35 :: nat)" by (simp_all add: NSTEP_def)
  have "srt_core p d False = Some (digits_value ds, 2 * 35, sgn v)"
    by (simp only: srt_core_def N col p loop Option.bind.simps prod.case Let_def sign Q)
  moreover have "4 ^ 36 * n = v + 4 * m * digits_value ds" by (simp add: v_def)
  ultimately show ?thesis using v(2,3) by auto
qed


subsection \<open>Rounding\<close>

lemma round_half_even_floor:
  assumes "of_int k \<le> z" "z < of_int k + 1"
  shows "round_half_even z = (if z - of_int k > 1 / 2 \<or> (z - of_int k = 1 / 2 \<and> odd k) then k + 1 else k)"
proof -
  have "\<lfloor>z\<rfloor> = k" using assms by (intro floor_unique)
  then show ?thesis by (simp add: round_half_even_def Let_def and_one_eq odd_iff_mod_2_eq_one)
qed

text \<open>
  A number given as \<open>Q + \<delta>\<close> units of \<open>2 ^ x\<close>, with \<open>\<delta>\<close> below one unit: the rounding looks at the
  low bits of \<open>Q\<close> and, on a tie, at the sign of \<open>\<delta>\<close>.
\<close>

lemma round_quotient:
  fixes Q :: int and \<delta> :: rat
  assumes \<delta>: "\<bar>\<delta>\<bar> < 1" and x: "x > 0"
  shows "round_half_even ((of_int Q + \<delta>) / 2 ^ x) =
    (if Q mod 2 ^ x > 2 ^ (x - 1) \<or>
        (Q mod 2 ^ x = 2 ^ (x - 1) \<and> (\<delta> > 0 \<or> (\<delta> = 0 \<and> odd (Q div 2 ^ x))))
     then Q div 2 ^ x + 1 else Q div 2 ^ x)"
proof -
  define K R where "K = Q div 2 ^ x" and "R = Q mod 2 ^ x"
  define h where "h = (2 :: int) ^ (x - 1)"
  have h: "(2 :: int) ^ x = 2 * h" "h \<ge> 1" using x by (cases x; simp add: h_def)+
  have hr: "(2 :: rat) ^ x = 2 * of_int h"
  proof -
    have "(2 :: rat) ^ x = of_int (2 ^ x)" by simp
    then show ?thesis by (simp only: h(1) of_int_mult of_int_numeral)
  qed
  have hp: "(of_int h :: rat) \<ge> 1" using h(2) by simp
  have Q: "Q = 2 * h * K + R" "0 \<le> R" "R \<le> 2 * h - 1"
    using mult_div_mod_eq [of "2 ^ x" Q] pos_mod_bound [of "2 ^ x" Q]
    by (simp_all add: K_def R_def h(1) [symmetric])
  define z where "z = (of_int Q + \<delta>) / 2 ^ x"
  have z: "z = of_int K + (of_int R + \<delta>) / (2 * of_int h)"
    unfolding z_def hr using hp by (simp add: Q(1) field_simps)
  have "(of_int R :: rat) \<le> of_int (2 * h - 1)" using Q(3) by (simp only: of_int_le_iff)
  then have R: "(of_int R :: rat) \<ge> 0" "(of_int R :: rat) \<le> 2 * of_int h - 1" using Q(2) by simp_all
  have cmp: "R > h \<Longrightarrow> (of_int R :: rat) \<ge> of_int h + 1" "R < h \<Longrightarrow> (of_int R :: rat) \<le> of_int h - 1"
    using of_int_le_iff [of "h + 1" R] of_int_le_iff [of R "h - 1"] by simp_all
  show ?thesis unfolding z_def [symmetric] K_def [symmetric] R_def [symmetric] h_def [symmetric]
  proof (cases "of_int R + \<delta> \<ge> 0")
    case True
    have fl: "of_int K \<le> z" "z < of_int K + 1"
      using True R \<delta> hp by (simp_all add: z field_simps)
    have gt: "z - of_int K > 1 / 2 \<longleftrightarrow> of_int R + \<delta> > of_int h"
      and eq: "z - of_int K = 1 / 2 \<longleftrightarrow> of_int R + \<delta> = of_int h"
      using hp by (auto simp: z field_simps)
    have "of_int R + \<delta> > of_int h \<longleftrightarrow> R > h \<or> (R = h \<and> \<delta> > 0)"
      "of_int R + \<delta> = of_int h \<longleftrightarrow> R = h \<and> \<delta> = 0"
      using cmp \<delta> by (cases R h rule: linorder_cases; auto)+
    then show "round_half_even z = (if h < R \<or> R = h \<and> (0 < \<delta> \<or> \<delta> = 0 \<and> odd K) then K + 1 else K)"
      using h(2) unfolding round_half_even_floor [OF fl] gt eq by auto
  next
    case False
    then have "R = 0" using Q(2) \<delta> by (cases "R \<ge> 1") (auto simp: abs_if split: if_splits)
    then have fl: "of_int (K - 1) \<le> z" "z < of_int (K - 1) + 1" and gt: "z - of_int (K - 1) > 1 / 2"
      using False \<delta> hp by (simp_all add: z field_simps abs_if split: if_splits)
    show "round_half_even z = (if h < R \<or> R = h \<and> (0 < \<delta> \<or> \<delta> = 0 \<and> odd K) then K + 1 else K)"
      using \<open>R = 0\<close> h(2) gt unfolding round_half_even_floor [OF fl] by simp
  qed
qed

text \<open>The significand and exponent fields of a rounded result.\<close>

definition pack_fx80 :: "int \<Rightarrow> int \<Rightarrow> int" where
  "pack_fx80 fl e =
    (let (fl, e) = (if fl \<ge> 2 ^ 64 then (fl div 2, e + 1) else (fl, e))
     in push_bit 64 ((e + 16383) AND 0x7fff) OR (fl AND (push_bit 64 1 - 1)))"

lemma drop_64: "0 \<le> k \<Longrightarrow> drop_bit 64 k \<noteq> 0 \<longleftrightarrow> (k :: int) \<ge> 2 ^ 64"
  using pos_imp_zdiv_pos_iff [of "2 ^ 64" k] by (auto simp: drop_bit_eq_div not_le)

lemma round_fx80_exact:
  fixes \<delta> :: rat
  assumes Q: "2 ^ (63 + x) \<le> Q" "Q < 2 ^ (64 + x)" and x: "x > 0" and \<delta>: "\<bar>\<delta>\<bar> < 1"
    and rs: "rs > 0 \<longleftrightarrow> \<delta> > 0" "rs = 0 \<longleftrightarrow> \<delta> = 0"
  shows "round_fx80 s Q SH rs ea =
    Some (push_bit 79 s OR pack_fx80 (round_half_even ((of_int Q + \<delta>) / 2 ^ x)) (63 + int x - int SH + ea))"
proof -
  have bl: "bit_length Q = Suc (63 + x)" using Q by (intro bit_length_unique) simp_all
  have Q0: "Q \<noteq> 0" "Q \<ge> 0" using Q(1) by (smt (verit) zero_less_power)+
  define k where "k = round_half_even ((of_int Q + \<delta>) / 2 ^ x)"
  have up: "(if (if Q mod 2 ^ x > 2 ^ (x - 1) then True else if Q mod 2 ^ x < 2 ^ (x - 1) then False
      else rs > 0 \<or> (rs = 0 \<and> Q div 2 ^ x AND 1 \<noteq> 0)) then Q div 2 ^ x + 1 else Q div 2 ^ x) = k"
    unfolding k_def round_quotient [OF \<delta> x] rs
    by (cases "Q mod 2 ^ x" "2 ^ (x - 1) :: int" rule: linorder_cases)
      (simp_all add: and_one_eq odd_iff_mod_2_eq_one)
  have "k \<ge> Q div 2 ^ x" unfolding up [symmetric] by simp
  then have k: "k \<ge> 0" using Q0(2) by (meson order_trans pos_imp_zdiv_nonneg_iff zero_less_numeral zero_less_power)
  have ops: "drop_bit x Q = Q div 2 ^ x" "Q AND (push_bit x 1 - 1) = Q mod 2 ^ x"
    "push_bit (x - 1) 1 = (2 :: int) ^ (x - 1)"
    by (simp_all add: drop_bit_eq_div push_bit_eq_mult and_mask_mod)
  have msb: "int (bit_length Q) - 1 = 63 + int x" "63 + int x - 63 = int x" by (simp_all add: bl)
  have nx: "nat (int x) = x" "nat (int x - 1) = x - 1" "\<not> int x < 1" using x by simp_all
  have "round_fx80 s Q SH rs ea =
      (let (keep, e) = (if drop_bit 64 k \<noteq> 0 then (drop_bit 1 k, 63 + int x - int SH + ea + 1)
                        else (k, 63 + int x - int SH + ea))
       in Some (push_bit 79 s OR push_bit 64 ((e + 16383) AND 0x7fff) OR (keep AND (push_bit 64 1 - 1))))"
    unfolding round_fx80_def Let_def msb nx if_not_P [OF Q0(1)] if_not_P [OF nx(3)] ops up by simp
  then show ?thesis
    unfolding drop_64 [OF k] pack_fx80_def k_def [symmetric] by (simp add: drop_bit_eq_div or.assoc)
qed

text \<open>The quotient of two 53-bit significands, rounded: where the leading bit is, and the result.\<close>

lemma quotient_identity:
  fixes n m v Q :: int
  assumes "4 ^ 36 * n = v + 4 * m * Q" "m > 0"
  shows "(of_int n / of_int m :: rat) * 2 ^ 70 = of_int Q + of_int v / of_int (4 * m)"
proof -
  have "(of_int (4 ^ 36 * n) :: rat) = of_int (v + 4 * m * Q)" by (simp only: assms(1))
  then show ?thesis using assms(2) by (simp add: field_simps)
qed

lemma scaled_bound:
  fixes m Q v :: int
  assumes "m > 0" "4 * m * A \<le> 4 * m * Q + r" "r < 4 * m"
  shows "A \<le> Q"
proof (rule ccontr)
  assume "\<not> A \<le> Q"
  then have "m * (Q + 1) \<le> m * A" using assms(1) by simp
  then show False using assms(2,3) by (simp add: algebra_simps)
qed

lemma divide_significands:
  assumes ab: "2 ^ 52 \<le> a" "a < 2 ^ 53" "2 ^ 52 \<le> b" "b < 2 ^ 53"
  shows "\<exists>Q rs. srt_core (of_int a / 2 ^ 52) (of_int b / 2 ^ 52) False = Some (Q, 70, rs) \<and>
    round_fx80 s Q 70 rs ea = Some (push_bit 79 s OR
      (if b \<le> a then pack_fx80 (round_half_even (of_int a / of_int b * 2 ^ 63)) ea
       else pack_fx80 (round_half_even (of_int a / of_int b * 2 ^ 64)) (ea - 1)))"
proof -
  define n m where nm: "n = 2 ^ 20 * a" "m = 2 ^ 20 * b"
  have nmb: "2 ^ 72 \<le> n" "n < 2 ^ 73" "2 ^ 72 \<le> m" "m < 2 ^ 73" using ab by (simp_all add: nm)
  have "(of_int a / 2 ^ 52 :: rat) * 2 ^ 72 = of_int n" "(of_int b / 2 ^ 52 :: rat) * 2 ^ 72 = of_int m"
    by (simp_all add: nm)
  from srt_core_identity [OF this(1) nmb(1,2) this(2) nmb(3,4)]
  obtain Q v where core: "srt_core (of_int a / 2 ^ 52) (of_int b / 2 ^ 52) False = Some (Q, 70, sgn v)"
    and id: "4 ^ 36 * n = v + 4 * m * Q" and v: "- 8 * m \<le> 3 * v" "3 * v \<le> 8 * m - 3" by blast
  have m0: "m > 0" using nmb by simp
  have mQ: "4 * m * Q = 4 ^ 36 * n - v" using id by simp
  define \<delta> :: rat where "\<delta> = of_int v / of_int (4 * m)"
  have "\<bar>of_int v :: rat\<bar> < of_int (4 * m)" using v m0 by (simp flip: of_int_abs)
  then have \<delta>: "\<bar>\<delta>\<bar> < 1" using m0 by (simp add: \<delta>_def abs_divide)
  have rs: "sgn v > 0 \<longleftrightarrow> \<delta> > 0" "sgn v = 0 \<longleftrightarrow> \<delta> = 0"
    using m0 by (auto simp: \<delta>_def zero_less_divide_iff sgn_if)
  have quot: "(of_int a / of_int b :: rat) * 2 ^ 70 = of_int Q + \<delta>"
    using quotient_identity [OF id m0] by (simp add: nm \<delta>_def)
  show ?thesis
  proof (cases "b \<le> a")
    case True
    have "2 ^ 70 \<le> Q"
    proof (rule scaled_bound [OF m0])
      show "4 * m * 2 ^ 70 \<le> 4 * m * Q + v" using id True by (simp add: nm)
      show "v < 4 * m" using v m0 by simp
    qed
    moreover have "Q \<le> 2 ^ 71 - 1"
    proof (rule scaled_bound [OF m0])
      have "a \<le> 2 * b - 1" using ab by simp
      then show "4 * m * Q \<le> 4 * m * (2 ^ 71 - 1) + (4 * m - 1)" unfolding mQ using v ab(4) by (simp add: nm)
    qed simp
    ultimately have "2 ^ (63 + 7) \<le> Q" "Q < 2 ^ (64 + 7)" by simp_all
    from round_fx80_exact [OF this _ \<delta> rs, of s 70 ea] core True
    show ?thesis by (simp add: mult.commute flip: quot)
  next
    case False
    have "2 ^ 69 \<le> Q"
    proof (rule scaled_bound [OF m0])
      have "b + 1 \<le> 2 * a" using ab by simp
      then show "4 * m * 2 ^ 69 \<le> 4 * m * Q + (4 * m - 1)" unfolding mQ using v ab(4) by (simp add: nm)
    qed simp
    moreover have "Q \<le> 2 ^ 70 - 1"
    proof (rule scaled_bound [OF m0])
      have "a \<le> b - 1" using False by simp
      then show "4 * m * Q \<le> 4 * m * (2 ^ 70 - 1) + (4 * m - 1)" unfolding mQ using v ab(4) by (simp add: nm)
    qed simp
    ultimately have "2 ^ (63 + 6) \<le> Q" "Q < 2 ^ (64 + 6)" by simp_all
    from round_fx80_exact [OF this _ \<delta> rs, of s 70 ea] core False
    show ?thesis by (simp add: mult.commute flip: quot)
  qed
qed

subsection \<open>The reference normalisation\<close>

lemma pow2_powi: "pow2 k = 2 powi k"
  by (simp add: pow2_def power_int_def push_bit_eq_mult inverse_eq_divide power_one_over)

lemma halve_loop_pow: "1 \<le> w \<Longrightarrow> w < 2 \<Longrightarrow> halve_loop (w * 2 ^ k) e = Some (w, e + int k)"
proof (induction k arbitrary: e)
  case 0
  then show ?case by (simp add: halve_loop.simps)
next
  case (Suc k)
  have "1 \<le> w * 2 ^ k" using mult_mono [OF Suc.prems(1) one_le_power [of "2 :: rat" k]] Suc.prems(1) by simp
  then show ?case using Suc by (subst halve_loop.simps) (simp add: mult.assoc [symmetric])
qed

lemma double_loop_pow: "1 \<le> w \<Longrightarrow> w < 2 \<Longrightarrow> double_loop (w / 2 ^ k) e = Some (w, e - int k)"
proof (induction k arbitrary: e)
  case 0
  then show ?case by (simp add: double_loop.simps)
next
  case (Suc k)
  have "w < 2 * 2 ^ k" using Suc.prems(2) one_le_power [of "2 :: rat" k] by linarith
  then have "w / 2 ^ Suc k < 1" by (simp add: field_simps)
  then show ?case using Suc by (subst double_loop.simps) simp
qed

lemma normalise:
  assumes "1 \<le> w" "w < 2"
  shows "do { (v, e) \<leftarrow> halve_loop (w * pow2 k) 0; double_loop v e } = Some (w, k)"
proof (cases "k \<ge> 0")
  case True
  then have "pow2 k = 2 ^ nat k" by (simp add: pow2_def push_bit_eq_mult)
  then show ?thesis using halve_loop_pow [OF assms, of "nat k" 0] double_loop_pow [OF assms, of 0] True by simp
next
  case False
  then have "pow2 k = 1 / 2 ^ nat (- k)" by (simp add: pow2_def push_bit_eq_mult)
  moreover have "w < 2 * 2 ^ nat (- k)"
    using assms(2) one_le_power [of "2 :: rat" "nat (- k)"] by linarith
  then have "w / 2 ^ nat (- k) < 2" by (simp add: divide_simps)
  ultimately show ?thesis
    using double_loop_pow [OF assms, of "nat (- k)" 0] False by (simp add: halve_loop.simps)
qed

lemma reference_normal:
  assumes "1 \<le> w" "w < 2"
  shows "reference_fx80 (w * pow2 k) = Some (pack_fx80 (round_half_even (w * 2 ^ 63)) k)"
proof -
  obtain v e where h: "halve_loop (w * pow2 k) 0 = Some (v, e)" and d: "double_loop v e = Some (w, k)"
    using normalise [OF assms, of k] by (auto simp: bind_eq_Some_conv)
  show ?thesis
    by (simp add: reference_fx80_def h d pack_fx80_def Let_def push_bit_eq_mult drop_bit_eq_div
        case_prod_beta)
qed

subsection \<open>Correct rounding of the quotient\<close>

text \<open>The value of a double by IEEE 754, subnormals included.\<close>

definition is_normal :: "int \<Rightarrow> bool" where
  "is_normal b \<longleftrightarrow> 0 \<le> b \<and> b < 2 ^ 64 \<and> b div 2 ^ 52 mod 2 ^ 11 \<noteq> 0 \<and> b div 2 ^ 52 mod 2 ^ 11 \<noteq> 2047"

definition magnitude :: "int \<Rightarrow> rat" where
  "magnitude b =
    (let e = b div 2 ^ 52 mod 2 ^ 11; f = b mod 2 ^ 52
     in if e = 0 then of_int f / 2 ^ 52 * pow2 (-1022) else of_int (2 ^ 52 + f) / 2 ^ 52 * pow2 (e - 1023))"

lemma decompose_arith:
  "decompose b = (b div 2 ^ 63, of_int (2 ^ 52 + b mod 2 ^ 52) / 2 ^ 52, b div 2 ^ 52 mod 2 ^ 11 - 1023)"
proof -
  have e: "drop_bit 52 b AND 0x7ff = b div 2 ^ 52 mod 2 ^ 11"
    using and_mask_mod [of "drop_bit 52 b" 11] by (simp add: drop_bit_eq_div)
  have "push_bit 52 1 = (2 :: int) ^ 52" by (simp add: push_bit_eq_mult)
  then have f: "b AND (push_bit 52 1 - 1) = b mod 2 ^ 52" by (simp only: and_mask_mod)
  have "(2 ^ n :: int) AND (b mod 2 ^ n) = 0" for n
    by (rule bit_eqI) (auto simp: bit_simps simp flip: take_bit_eq_mod)
  then have "push_bit 52 1 OR (b mod 2 ^ 52) = 2 ^ 52 + b mod 2 ^ 52"
    by (simp only: push_bit_eq_mult mult_1 disjunctive_add_eq_or)
  then show ?thesis
    unfolding decompose_def Let_def e f by (simp add: drop_bit_eq_div push_bit_eq_mult)
qed

text \<open>
  C1. With the complete digit table the divider is correctly rounded: for every pair of normal
  doubles, of either sign, it returns the floatx80 pattern that the module's self-check computes
  from the exact rational quotient (normalise, round to nearest, ties to even), with the exclusive
  or of the two signs. No step falls outside the table and both reference loops end.
\<close>

theorem fdiv_fx80_correct:
  assumes "is_normal num" "is_normal den"
  shows "\<exists>r. reference_fx80 (magnitude num / magnitude den) = Some r \<and>
    fdiv_fx80 num den False = Some (push_bit 79 (num div 2 ^ 63 XOR den div 2 ^ 63) OR r)"
proof -
  define a b where "a = 2 ^ 52 + num mod 2 ^ 52" and "b = 2 ^ 52 + den mod 2 ^ 52"
  define pe de where "pe = num div 2 ^ 52 mod 2 ^ 11 - 1023" and "de = den div 2 ^ 52 mod 2 ^ 11 - 1023"
  have ab: "2 ^ 52 \<le> a" "a < 2 ^ 53" "2 ^ 52 \<le> b" "b < 2 ^ 53"
    using pos_mod_bound [of "2 ^ 52" num] pos_mod_bound [of "2 ^ 52" den] by (simp_all add: a_def b_def)
  have nz: "\<not> is_zero x" if "is_normal x" for x
  proof
    assume "is_zero x"
    then have "x mod 2 ^ 63 = 0" using and_mask_mod [of x 63] by (simp add: is_zero_def push_bit_eq_mult)
    then obtain y where "x = 2 ^ 63 * y" by (metis mod_0_imp_dvd dvdE)
    then have "x div 2 ^ 52 mod 2 ^ 11 = (2 ^ 11 * y) mod 2 ^ 11" by simp
    then show False using that by (simp add: is_normal_def)
  qed
  have quot: "magnitude num / magnitude den = of_int a / of_int b * pow2 (pe - de)"
    using assms
    by (simp add: magnitude_def Let_def is_normal_def a_def b_def pe_def de_def pow2_powi power_int_diff)
  let ?s = "num div 2 ^ 63 XOR den div 2 ^ 63"
  obtain Q rs where core: "srt_core (of_int a / 2 ^ 52) (of_int b / 2 ^ 52) False = Some (Q, 70, rs)"
    and round: "round_fx80 ?s Q 70 rs (pe - de) = Some (push_bit 79 ?s OR
      (if b \<le> a then pack_fx80 (round_half_even (of_int a / of_int b * 2 ^ 63)) (pe - de)
       else pack_fx80 (round_half_even (of_int a / of_int b * 2 ^ 64)) (pe - de - 1)))"
    using divide_significands [OF ab] by blast
  have fdiv: "fdiv_fx80 num den False = round_fx80 ?s Q 70 rs (pe - de)"
    unfolding fdiv_fx80_def decompose_arith a_def [symmetric] b_def [symmetric] pe_def [symmetric]
      de_def [symmetric] Let_def prod.case using core by (simp add: nz [OF assms(1)] nz [OF assms(2)])
  show ?thesis
  proof (cases "b \<le> a")
    case True
    have "1 \<le> (of_int a / of_int b :: rat)" "(of_int a / of_int b :: rat) < 2"
      using True ab by (simp_all add: divide_simps)
    from reference_normal [OF this, of "pe - de"] show ?thesis
      using True unfolding quot fdiv round by simp
  next
    case False
    have "1 \<le> (of_int a / of_int b * 2 :: rat)" "(of_int a / of_int b * 2 :: rat) < 2"
      using False ab by (simp_all add: divide_simps)
    moreover have "pow2 (pe - de) = 2 * pow2 (pe - de - 1)"
      using power_int_add [of "2 :: rat" "pe - de - 1" 1] by (simp add: pow2_powi)
    ultimately show ?thesis
      using False reference_normal [of "of_int a / of_int b * 2" "pe - de - 1"]
      unfolding quot fdiv round by (simp add: mult.assoc)
  qed
qed

theorem fdiv_fx80_correct_witness:
  "\<exists>r. reference_fx80 (magnitude 0x4150017EC0000000 / magnitude 0xC147FFFF80000000) = Some r \<and>
    fdiv_fx80 0x4150017EC0000000 0xC147FFFF80000000 False =
      Some (push_bit 79 (0x4150017EC0000000 div 2 ^ 63 XOR 0xC147FFFF80000000 div 2 ^ 63) OR r)"
  by (rule fdiv_fx80_correct) (simp_all add: is_normal_def)

text \<open>
  The Pentium flaw from first principles: 4195835 / 3145727 with the table that lacks the five
  cells converts to the documented wrong double, with the complete table to the right one.
\<close>

theorem fdiv_flaw:
  "(do { q \<leftarrow> fdiv_fx80 0x4150017EC0000000 0x4147FFFF80000000 False; fx80_to_double q }) = Some 0x3FF557541C7C6B43 \<and>
   (do { q \<leftarrow> fdiv_fx80 0x4150017EC0000000 0x4147FFFF80000000 True; fx80_to_double q }) = Some 0x3FF556FEC7254ED1"
  by code_simp

lemma srt_loop_flaw:
  assumes "D + 1 \<notin> set BAD_DP"
  shows "srt_loop n d D True S C ds = srt_loop n d D False S C ds"
proof (induction n arbitrary: S C ds)
  case (Suc n)
  have "pla P D True = pla P D False" for P using assms by (simp add: pla_def Let_def)
  then show ?case using Suc by simp
qed simp

text \<open>
  C9. Only a divisor in one of the five columns can show the flaw: for every other divisor the
  flawed table divides every dividend exactly as the complete one does.
\<close>

theorem flaw_needs_bad_column:
  assumes "16 + (den div 2 ^ 48) mod 16 + 1 \<notin> set BAD_DP"
  shows "fdiv_fx80 num den True = fdiv_fx80 num den False"
proof -
  define f where "f = den mod 2 ^ 52"
  have "\<lfloor>16 * (of_int (2 ^ 52 + f) / 2 ^ 52 :: rat)\<rfloor> = \<lfloor>of_int (2 ^ 52 + f) / of_int (2 ^ 48) :: rat\<rfloor>"
    by (rule arg_cong [where f = floor]) (simp add: field_simps)
  also have "\<dots> = (2 ^ 52 + f) div 2 ^ 48" by (rule floor_divide_of_int_eq)
  also have "\<dots> = 16 + f div 2 ^ 48" by simp
  also have "f div 2 ^ 48 = den div 2 ^ 48 mod 16"
    using mod_mult2_eq' [of den "2 ^ 48" 16] by (simp add: f_def)
  finally have "\<lfloor>16 * (of_int (2 ^ 52 + f) / 2 ^ 52 :: rat)\<rfloor> = 16 + den div 2 ^ 48 mod 16" .
  then have "srt_core p (of_int (2 ^ 52 + f) / 2 ^ 52) True = srt_core p (of_int (2 ^ 52 + f) / 2 ^ 52) False" for p
    using assms by (simp only: srt_core_def srt_loop_flaw [OF assms])
  then show ?thesis unfolding fdiv_fx80_def decompose_arith f_def [symmetric] by (simp only: Let_def prod.case)
qed

theorem flaw_needs_bad_column_witness:
  "fdiv_fx80 0x4150017EC0000000 0x4008000000000000 True = fdiv_fx80 0x4150017EC0000000 0x4008000000000000 False"
  by (rule flaw_needs_bad_column) (simp add: BAD_DP_def)

text \<open>
  A subnormal operand is not divided correctly: \<open>decompose\<close> sets the hidden bit whatever the
  exponent field, so the smallest subnormal divided by 1.0 is not the rounded quotient.
\<close>

theorem fdiv_subnormal_wrong:
  "magnitude 1 / magnitude 0x3FF0000000000000 = pow2 (-1074) \<and>
   reference_fx80 (pow2 (-1074)) = Some 0x3BCD8000000000000000 \<and>
   fdiv_fx80 1 0x3FF0000000000000 False = Some 0x3C008000000000000800"
proof -
  have "magnitude 1 / magnitude 0x3FF0000000000000 = pow2 (-1074)"
    by (simp add: magnitude_def pow2_powi)
  moreover have "reference_fx80 (pow2 (-1074)) = Some 0x3BCD8000000000000000"
    using reference_normal [of 1 "-1074"] by (simp add: pack_fx80_def round_half_even_def)
  moreover have "fdiv_fx80 1 0x3FF0000000000000 False = Some 0x3C008000000000000800" by code_simp
  ultimately show ?thesis by simp
qed

end
