(* ===== verification/Srt_Root.thy ===== *)
theory Srt_Root
  imports Srt_Divide
begin

text \<open>
  The radix-4 SRT square root of tools/srt/sqrt_model.py, which shares the digit table and the
  carry-save registers with the divider: the recurrence for \<open>4 ^ j * (X - R ^ 2)\<close> with the divisor
  \<open>2 * R + r / 4 ^ j\<close>, its rounding to floatx80, and the reference that the module computes with an
  integer square root. Fractions are exact; the column is read from \<open>float(twoR)\<close>, which rounds.
\<close>

subsection \<open>The model\<close>

definition ROOT_NSTEP :: nat where "ROOT_NSTEP = 36"

definition first_digit :: "int \<Rightarrow> int" where
  "first_digit P = (if P \<ge> -7 then 0 else if P \<ge> -19 then -1 else -2)"

text \<open>A Fraction converted to a float and read back.\<close>

definition float_value :: "rat \<Rightarrow> rat option" where
  "float_value v = do { b \<leftarrow> float_of_rat v; Some ((if drop_bit 63 b \<noteq> 0 then -1 else 1) * magnitude b) }"

definition root_column :: "rat \<Rightarrow> int option" where
  "root_column twoR = do { f \<leftarrow> float_value twoR; Some (min 31 (max 16 \<lfloor>16 * f\<rfloor>)) }"

definition root_digit :: "nat \<Rightarrow> int \<Rightarrow> rat \<Rightarrow> int option" where
  "root_digit j P twoR = (if j = 1 then Some (first_digit P) else do { D \<leftarrow> root_column twoR; pla P D False })"

fun sqrt_loop :: "nat \<Rightarrow> nat \<Rightarrow> int \<Rightarrow> int \<Rightarrow> rat \<Rightarrow> (int \<times> int \<times> rat) option" where
  "sqrt_loop 0 j S C twoR = Some (S, C, twoR)"
| "sqrt_loop (Suc n) j S C twoR =
    (let P = (fld C + fld S + 64) mod 128 - 64
     in do {
       r \<leftarrow> root_digit j P twoR;
       let F = twoR + of_int r * (1 / 4 ^ j);
       let (T, cf) = (if r > 0 then (NOT (enc (of_int r * F)) AND M, True)
                      else if r < 0 then (enc (of_int (- r) * F), False) else (0, False));
       let (s, carry) = csa_add S C T cf;
       sqrt_loop n (j + 1) (push_bit 2 s AND M) (push_bit 2 carry AND M) (twoR + 2 * of_int r * (1 / 4 ^ j)) })"

text \<open>Python's \<open>int\<close> of a Fraction drops the fractional part.\<close>

definition int_of_fraction :: "rat \<Rightarrow> int" where
  "int_of_fraction v = (if v < 0 then - \<lfloor>- v\<rfloor> else \<lfloor>v\<rfloor>)"

definition srt_sqrt_core :: "rat \<Rightarrow> (int \<times> nat \<times> int) option" where
  "srt_sqrt_core X = do {
     let u = int_of_fraction (\<bar>4 * (X - 1)\<bar> * of_int (push_bit FRACW 1));
     (S, C, twoR) \<leftarrow> sqrt_loop ROOT_NSTEP 1 ((NOT u + 1) AND M) 0 2;
     let v = (C + S) AND M;
     let rem_sign = (if drop_bit (W - 1) v \<noteq> 0 then -1 else if v \<noteq> 0 then 1 else 0);
     let SH = 2 * ROOT_NSTEP;
     Some (int_of_fraction (twoR / 2 * of_int (push_bit SH 1)), SH, rem_sign) }"

text \<open>The module's copies of the rounding and of the decomposition, without a sign.\<close>

definition root_round_fx80 :: "int \<Rightarrow> nat \<Rightarrow> int \<Rightarrow> int \<Rightarrow> int option" where
  "root_round_fx80 root_int SH rem_sign e_half = round_fx80 0 root_int SH rem_sign e_half"

definition root_decompose :: "int \<Rightarrow> rat \<times> int" where
  "root_decompose x = snd (decompose x)"

definition fsqrt_fx80 :: "int \<Rightarrow> int option" where
  "fsqrt_fx80 x =
    (let (sig, e) = root_decompose x;
         (X, k) = (if e AND 1 \<noteq> 0 then (sig / 2, (e + 1) div 2) else (sig / 4, e div 2 + 1))
     in do { (root_int, SH, rs) \<leftarrow> srt_sqrt_core X; root_round_fx80 root_int SH rs k })"


subsection \<open>Selecting a digit\<close>

text \<open>
  Before digit \<open>r\<close> of weight \<open>g\<close> the partial remainder \<open>v\<close> has to stay within 2/3 of a unit of the root,
  which widens the interval of a digit by the squares below. A ladder of thresholds selects a good
  digit if its thresholds lie in the overlaps; the sign of \<open>v\<close> excuses the thresholds of the other sign.
\<close>

definition ladder :: "int \<Rightarrow> int \<Rightarrow> int \<Rightarrow> int \<Rightarrow> int \<Rightarrow> int" where
  "ladder t2 t1 t0 tm P = (if t2 \<le> P then 2 else if t1 \<le> P then 1 else if t0 \<le> P then 0 else if tm \<le> P then -1 else -2)"

definition good_digit :: "int \<Rightarrow> int \<Rightarrow> int \<Rightarrow> int \<Rightarrow> bool" where
  "good_digit m g v q \<longleftrightarrow> -2 \<le> q \<and> q \<le> 2 \<and> (9 * q - 6) * m + (3 * q - 2) * (3 * q - 2) * g \<le> 9 * v \<and>
     9 * v \<le> (9 * q + 6) * m + (3 * q + 2) * (3 * q + 2) * g \<and> (v < 0 \<longrightarrow> q \<le> 0) \<and> (0 \<le> v \<longrightarrow> 0 \<le> q)"

lemma ladder_good:
  assumes h: "h > 0" and P: "2 * h * P \<le> v" "v \<le> 2 * h * P + 4 * h - 2"
    and order: "tm \<le> t0" "t0 \<le> -1" "0 < t1" "t1 \<le> t2"
    and v: "64 * g - 24 * m \<le> 9 * v" "9 * v \<le> 24 * m + 64 * g"
    and low: "v < 0 \<or> 12 * m + 16 * g \<le> 18 * (h * t2)" "v < 0 \<or> 3 * m + g \<le> 18 * (h * t1)"
      "0 \<le> v \<or> 4 * g - 6 * m \<le> 18 * (h * t0)" "0 \<le> v \<or> 25 * g - 15 * m \<le> 18 * (h * tm)"
    and up: "v < 0 \<or> 18 * (h * t2) + 18 * h \<le> 15 * m" "v < 0 \<or> 18 * (h * t1) + 18 * h \<le> 6 * m"
      "0 \<le> v \<or> 18 * (h * t0) + 18 * h \<le> g - 3 * m" "0 \<le> v \<or> 18 * (h * tm) + 18 * h \<le> 16 * g - 12 * m"
    and m: "4 * g \<le> 6 * m" "0 \<le> g"
  shows "good_digit m g v (ladder t2 t1 t0 tm P)"
proof -
  note idx = index_scaled [OF h P]
  have ht: "0 < h * t1" "h * t0 \<le> - h" using h order mult_left_mono [of t0 "-1" h] by simp_all
  have neg: "\<not> t1 \<le> P" if "v < 0" using idx(1) [of t1] ht that by auto
  have pos: "t0 \<le> P" if "0 \<le> v" using idx(2) [of t0] ht that h by fastforce
  show ?thesis
  proof (cases "0 \<le> v")
    case True
    then have t: "t0 \<le> P" by (rule pos)
    then show ?thesis using idx(1) [of t2] idx(1) [of t1] idx(2) [of t2] idx(2) [of t1] True v low(1,2) up(1,2) m order
      unfolding good_digit_def ladder_def by (auto split: if_split)
  next
    case False
    then have t: "\<not> t1 \<le> P" "\<not> t2 \<le> P" using neg order by linarith+
    then show ?thesis using idx(1) [of t0] idx(1) [of tm] idx(2) [of t0] idx(2) [of tm] False v low(3,4) up(3,4) m order
      unfolding good_digit_def ladder_def by (auto split: if_split)
  qed
qed

lemma pla_is_ladder:
  "16 \<le> D \<Longrightarrow> D \<le> 31 \<Longrightarrow> pla P D False = Some (ladder (breakpoint D 2) (breakpoint D 1) (breakpoint D 0) (breakpoint D (-1)) P)"
  by (simp add: pla_ladder ladder_def)

lemma breakpoint_root:
  assumes "16 \<le> D" "D \<le> 31"
  shows "4 * (D + 1) \<le> 6 * breakpoint D 2" "6 * breakpoint D 2 \<le> 4 * D + 8"
    "D + 1 \<le> 6 * breakpoint D 1" "6 * breakpoint D 1 \<le> D + 6"
    "- D - 12 \<le> 6 * breakpoint D 0" "6 * breakpoint D 0 + 6 \<le> - (D + 1)"
    "- 4 * D - 14 \<le> 6 * breakpoint D (-1)" "6 * breakpoint D (-1) + 6 \<le> - 4 * (D + 1)"
  using column_cases [OF assms] unfolding breakpoint_def ceil_div_def by (elim disjE; simp)+

text \<open>
  From the third digit on the general bounds of the thresholds suffice. The column may be read one too
  high when the divisor is within \<open>\<epsilon>\<close> of the next one, and the last column includes its upper end.
\<close>

lemma pla_good:
  assumes h: "h > 0" and P: "2 * h * P \<le> v" "v \<le> 2 * h * P + 4 * h - 2" and D: "16 \<le> D" "D \<le> 31"
    and col: "15 * (h * D) \<le> 15 * m + h" "v < 0 \<and> m \<le> 32 * h \<and> D = 31 \<or> 3 * m + 4 * g \<le> 3 * (h * D) + 3 * h"
    and v: "64 * g - 24 * m \<le> 9 * v" "9 * v \<le> 24 * m + 64 * g"
    and g: "0 \<le> v \<or> 25 * g + h \<le> 3 * (h * D) - 42 * h" "0 \<le> g" "4 * g \<le> h"
  shows "\<exists>q. pla P D False = Some q \<and> good_digit m g v q"
proof -
  define t2 t1 t0 tm where t: "t2 = breakpoint D 2" "t1 = breakpoint D 1" "t0 = breakpoint D 0" "tm = breakpoint D (-1)"
  note bp = breakpoint_root [OF D, folded t]
  have scale: "h * a \<le> h * b" if "a \<le> b" for a b using that h by simp
  have s: "4 * (h * D) + 4 * h \<le> 6 * (h * t2)" "6 * (h * t2) \<le> 4 * (h * D) + 8 * h" "h * D + h \<le> 6 * (h * t1)"
    "6 * (h * t1) \<le> h * D + 6 * h" "- (h * D) - 12 * h \<le> 6 * (h * t0)" "6 * (h * t0) + 6 * h \<le> - (h * D) - h"
    "- 4 * (h * D) - 14 * h \<le> 6 * (h * tm)" "6 * (h * tm) + 6 * h \<le> - 4 * (h * D) - 4 * h"
    using bp [THEN scale] by (simp_all add: algebra_simps)
  have hD: "16 * h \<le> h * D" "h * D \<le> 31 * h" using scale [OF D(1)] scale [OF D(2)] by (simp_all add: mult.commute)
  have "6 * tm \<le> 6 * t0" "6 * t0 \<le> 6 * (-1)" "0 < 6 * t1" "6 * t1 \<le> 6 * t2" using bp D(1) by simp_all
  then have order: "tm \<le> t0" "t0 \<le> -1" "0 < t1" "t1 \<le> t2" by simp_all
  have "good_digit m g v (ladder t2 t1 t0 tm P)"
  proof (rule ladder_good [OF h P order v])
    show "v < 0 \<or> 12 * m + 16 * g \<le> 18 * (h * t2)" "v < 0 \<or> 3 * m + g \<le> 18 * (h * t1)" using s(1,3) col(2) g(2) by - (linarith+)
    have margin: "4 * g - 6 * m \<le> 18 * (h * t0)" "25 * g - 15 * m \<le> 18 * (h * tm)" if "25 * g + h \<le> 3 * (h * D) - 42 * h"
      using that s(5,7) col(1) g(2) hD h by - (linarith+)
    show "0 \<le> v \<or> 4 * g - 6 * m \<le> 18 * (h * t0)" "0 \<le> v \<or> 25 * g - 15 * m \<le> 18 * (h * tm)" using g(1) margin by blast+
    show "v < 0 \<or> 18 * (h * t2) + 18 * h \<le> 15 * m" "v < 0 \<or> 18 * (h * t1) + 18 * h \<le> 6 * m" using s(2,4) col(1) hD h by - (linarith+)
    have mD: "m \<le> h * D + h" using col(2) g(2) by auto
    show "0 \<le> v \<or> 18 * (h * t0) + 18 * h \<le> g - 3 * m" "0 \<le> v \<or> 18 * (h * tm) + 18 * h \<le> 16 * g - 12 * m"
      using s(6,8) mD g(2) h by - (linarith+)
    show "4 * g \<le> 6 * m" "0 \<le> g" using g col(1) hD h by - (linarith+)
  qed
  then show ?thesis using pla_is_ladder [OF D, of P] by (auto simp: t)
qed

text \<open>The first digit, and the second one with the three divisors that are then possible.\<close>

lemma first_good:
  assumes h: "h > 0" and P: "2 * h * P \<le> v" "v \<le> 2 * h * P + 4 * h - 2" and v: "- 27 * h * 16 \<le> 9 * v" "v < 0"
  shows "good_digit (32 * h) (4 * h) v (first_digit P)"
proof -
  have "good_digit (32 * h) (4 * h) v (ladder 1 1 (-7) (-19) P)"
    by (rule ladder_good [OF h P]) (use h v in simp_all)
  moreover have "\<not> 1 \<le> P" using index_scaled(1) [OF h P, of 1] h v(2) by linarith
  ultimately show ?thesis by (simp add: ladder_def first_digit_def)
qed

lemma second_good:
  assumes h: "h > 0" and P: "2 * h * P \<le> v" "v \<le> 2 * h * P + 4 * h - 2"
    and m: "m = 16 * h \<and> D = 16 \<and> 0 \<le> v \<or> m = 24 * h \<and> D = 24 \<or> m = 32 * h \<and> D = 31 \<and> v < 0"
    and v: "64 * h - 24 * m \<le> 9 * v" "9 * v \<le> 24 * m + 64 * h"
  shows "\<exists>q. pla P D False = Some q \<and> good_digit m h v q"
proof -
  have D: "16 \<le> D" "D \<le> 31" using m by auto
  have "good_digit m h v (ladder (breakpoint D 2) (breakpoint D 1) (breakpoint D 0) (breakpoint D (-1)) P)"
    using m
  proof (elim disjE conjE)
    assume m: "m = 16 * h" "D = 16" "0 \<le> v"
    show ?thesis by (rule ladder_good [OF h P]) (use h m v in \<open>simp_all add: breakpoint_def ceil_div_def\<close>)
  next
    assume m: "m = 24 * h" "D = 24"
    show ?thesis by (rule ladder_good [OF h P]) (use h m v in \<open>simp_all add: breakpoint_def ceil_div_def\<close>)
  next
    assume m: "m = 32 * h" "D = 31" "v < 0"
    show ?thesis by (rule ladder_good [OF h P]) (use h m v in \<open>simp_all add: breakpoint_def ceil_div_def\<close>)
  qed
  then show ?thesis using pla_is_ladder [OF D] by blast
qed

subsection \<open>The column of a divisor\<close>

lemma round_half_even_near: "of_int (round_half_even x) \<le> x + 1 / 2" "x - 1 / 2 \<le> of_int (round_half_even x)"
proof -
  define f where "f = \<lfloor>x\<rfloor>"
  have f: "of_int f \<le> x" "x < of_int f + 1" unfolding f_def by linarith+
  show "of_int (round_half_even x) \<le> x + 1 / 2" "x - 1 / 2 \<le> of_int (round_half_even x)"
    using f unfolding round_half_even_def Let_def f_def [symmetric] by auto
qed

lemma round_half_even_int [simp]: "round_half_even (of_int n) = n"
  by (simp add: round_half_even_def)

lemma ilog2_unit:
  assumes "1 \<le> v" "v < 2"
  shows "ilog2 v = 0"
proof -
  obtain n d where q: "quotient_of v = (n, d)" by fastforce
  have d: "0 < d" and v: "v = of_int n / of_int d" using quotient_of_denom_pos [OF q] quotient_of_div [OF q] by simp_all
  have "(of_int d :: rat) \<le> of_int n" "(of_int n :: rat) < of_int (2 * d)" using assms d by (simp_all add: v field_simps)
  then have nd: "d \<le> n" "n < 2 * d" by (simp_all only: of_int_le_iff of_int_less_iff)
  obtain k where k: "bit_length d = Suc k" "2 ^ k \<le> d" "d < 2 ^ Suc k"
    using bit_length_lower [OF d] bit_length_upper [of d] d by (cases "bit_length d") auto
  show ?thesis
  proof (cases "n < 2 ^ Suc k")
    case True
    then have "bit_length n = Suc k" using k nd by (intro bit_length_unique) simp_all
    then show ?thesis using assms by (simp add: ilog2_def q k(1) pow2_def)
  next
    case False
    then have "bit_length n = Suc (Suc k)" using k nd by (intro bit_length_unique) simp_all
    then show ?thesis using assms by (simp add: ilog2_def q k(1) pow2_def push_bit_eq_mult)
  qed
qed

lemma float_value_unit:
  assumes "1 \<le> v" "v \<le> 2"
  shows "float_value v = Some (of_int (round_half_even (v * 2 ^ 52)) / 2 ^ 52)"
proof (cases "v = 2")
  case True
  have "ilog2 2 = 1" by code_simp
  then have "float_of_rat 2 = Some (2 ^ 62)" by (simp add: float_of_rat_def pow2_def push_bit_eq_mult round_half_even_def)
  then show ?thesis by (simp add: True float_value_def magnitude_def pow2_def push_bit_eq_mult drop_bit_eq_div round_half_even_def)
next
  case False
  define K where "K = round_half_even (v * 2 ^ 52)"
  have "(of_int K :: rat) > of_int (2 ^ 52 - 1)" "(of_int K :: rat) < of_int (2 ^ 53 + 1)"
    using round_half_even_near [of "v * 2 ^ 52", folded K_def] assms by simp_all
  then have K: "2 ^ 52 \<le> K" "K \<le> 2 ^ 53" unfolding of_int_less_iff by simp_all
  have v: "v \<noteq> 0" "\<bar>v\<bar> = v" "\<not> v < 0" "ilog2 v = 0" using assms False ilog2_unit by simp_all
  have "float_of_rat v = Some (2 ^ 52 * 1022 + K)"
    using K unfolding float_of_rat_def Let_def v by (simp add: v pow2_def push_bit_eq_mult K_def)
  moreover have "drop_bit 63 (2 ^ 52 * 1022 + K) = 0" using K by (simp add: drop_bit_eq_div)
  moreover have "magnitude (2 ^ 52 * 1022 + K) = of_int K / 2 ^ 52"
  proof (cases "K = 2 ^ 53")
    case True
    then show ?thesis by (simp add: magnitude_def pow2_def push_bit_eq_mult)
  next
    case False
    define f where "f = K - 2 ^ 52"
    have f: "0 \<le> f" "f < 2 ^ 52" "2 ^ 52 * 1022 + K = 2 ^ 52 * 1023 + f" using K False by (simp_all add: f_def)
    have "(b * 1023 + f) div b = 1023 \<and> (b * 1023 + f) mod b = f" if "f < b" for b using that f(1) by simp
    then have "(2 ^ 52 * 1023 + f) div 2 ^ 52 = 1023" "(2 ^ 52 * 1023 + f) mod 2 ^ 52 = f" using f(2) by blast+
    then show ?thesis unfolding f(3) magnitude_def Let_def by (simp add: f_def pow2_def)
  qed
  ultimately show ?thesis by (simp add: float_value_def K_def)
qed

lemma root_column_near:
  assumes "t * 2 ^ 72 = of_int m" "2 ^ 72 \<le> m" "m \<le> 2 ^ 73"
  shows "\<exists>D. root_column t = Some D \<and> 16 \<le> D \<and> D \<le> 31 \<and> 2 ^ 68 * D \<le> m + 2 ^ 19 \<and> (m < 2 ^ 68 * D + 2 ^ 68 \<or> D = 31 \<and> m = 2 ^ 73)"
proof -
  define K where "K = round_half_even (t * 2 ^ 52)"
  have tm: "t = of_int m / 2 ^ 72" using assms(1) by simp
  have "(of_int (2 ^ 72) :: rat) \<le> of_int m" "(of_int m :: rat) \<le> of_int (2 ^ 73)" using assms(2,3) by (simp_all only: of_int_le_iff)
  then have t: "1 \<le> t" "t \<le> 2" by (simp_all add: tm)
  have "(of_int (2 ^ 20 * K) :: rat) \<le> of_int (m + 2 ^ 19)" "(of_int (m - 2 ^ 19) :: rat) \<le> of_int (2 ^ 20 * K)"
    using round_half_even_near [of "t * 2 ^ 52", folded K_def] by (simp_all add: tm)
  then have near: "2 ^ 20 * K \<le> m + 2 ^ 19" "m - 2 ^ 19 \<le> 2 ^ 20 * K" by (simp_all only: of_int_le_iff)
  have K: "2 ^ 52 \<le> K" "K \<le> 2 ^ 53" using near assms(2,3) by simp_all
  have "\<lfloor>16 * (of_int K / 2 ^ 52 :: rat)\<rfloor> = \<lfloor>of_int K / of_int (2 ^ 48) :: rat\<rfloor>" by (rule arg_cong [where f = floor]) simp
  then have fl: "\<lfloor>16 * (of_int K / 2 ^ 52 :: rat)\<rfloor> = K div 2 ^ 48" by (simp only: floor_divide_of_int_eq)
  define d where "d = K div 2 ^ 48"
  have d: "2 ^ 48 * d \<le> K" "K < 2 ^ 48 * d + 2 ^ 48"
    using mult_div_mod_eq [of "2 ^ 48" K] pos_mod_bound [of "2 ^ 48" K] pos_mod_sign [of "2 ^ 48" K] unfolding d_def by simp_all
  have "16 \<le> d" "d \<le> 32" using K d by simp_all
  moreover have "root_column t = Some (min 31 (max 16 d))"
    unfolding root_column_def float_value_unit [OF t] K_def [symmetric] by (simp only: Option.bind.simps fl d_def)
  moreover have "2 ^ 68 * d \<le> m + 2 ^ 19" "m < 2 ^ 68 * d + 2 ^ 68" using d near by simp_all
  ultimately show ?thesis using K d assms(3) near by (cases "d = 32") auto
qed


subsection \<open>The recurrence\<close>

text \<open>
  \<open>N\<close> is the radicand and \<open>m\<close> twice the partial root, in units of the 72 fractional bits; \<open>G\<close> is the weight
  of the last digit. The registers hold the scaled difference of the radicand and the square of the root.
\<close>

definition root_inv :: "int \<Rightarrow> int \<Rightarrow> int \<Rightarrow> int \<Rightarrow> int \<Rightarrow> int \<Rightarrow> bool" where
  "root_inv N G m v S C \<longleftrightarrow> cs_rep v S C \<and> G * v + m * m = 2 ^ 74 * N \<and> 16 * G - 24 * m \<le> 9 * v \<and> 9 * v \<le> 24 * m + 16 * G \<and>
     2 ^ 72 \<le> m \<and> m \<le> 2 ^ 73 \<and> 2 * G dvd m"

lemma root_inv_signs:
  assumes "root_inv N G m v S C" "0 < G" "2 ^ 70 \<le> N" "N < 2 ^ 72"
  shows "m = 2 ^ 72 \<Longrightarrow> 0 \<le> v" "m = 2 ^ 73 \<Longrightarrow> v < 0"
proof -
  have id: "G * v = 2 ^ 74 * N - m * m" using assms(1) by (simp add: root_inv_def)
  show "0 \<le> v" if "m = 2 ^ 72"
  proof -
    have "0 \<le> G * v" using assms(3) unfolding id that by simp
    then show ?thesis using assms(2) by (simp add: zero_le_mult_iff)
  qed
  show "v < 0" if "m = 2 ^ 73"
  proof -
    have "G * v < 0" using assms(4) unfolding id that by simp
    then show ?thesis using assms(2) by (simp add: mult_less_0_iff)
  qed
qed

lemma root_step:
  assumes inv: "root_inv N (4 * g) m v S C" and q: "good_digit m g v q" and g: "0 < g" "2 ^ 72 = 4 * g * a"
    and N: "2 ^ 70 \<le> N" "N < 2 ^ 72"
    and T: "(T, cf) = (if q > 0 then (NOT (q * (m + q * g)) AND M, True)
      else if q < 0 then ((- q) * (m + q * g), False) else (0, False))" and sc: "csa_add S C T cf = (s, c)"
  shows "root_inv N g (m + 2 * q * g) (4 * (v - q * (m + q * g))) (push_bit 2 s AND M) (push_bit 2 c AND M)"
proof -
  have i: "cs_rep v S C" "4 * g * v + m * m = 2 ^ 74 * N" "2 ^ 72 \<le> m" "m \<le> 2 ^ 73" "8 * g dvd m"
    using inv by (simp_all add: root_inv_def)
  have qb: "-2 \<le> q" "q \<le> 2" using q by (simp_all add: good_digit_def)
  have a: "0 < a" using g by (smt (verit) mult_nonneg_nonpos zero_less_power)
  have gb: "4 * g \<le> 2 ^ 72" using g(1,2) a by (metis mult_le_cancel_left1 zless_imp_add1_zle add_0 mult.right_neutral mult_le_cancel_left_pos zero_less_mult_iff zero_less_numeral)
  have qg: "- 2 * g \<le> q * g" "q * g \<le> 2 * g" using qb g(1) mult_right_mono [of "-2" q g] mult_right_mono [of q 2 g] by simp_all
  have "cs_rep (v - q * (m + q * g)) s c"
    using csa_digit [OF i(1) qb _ _ T] sc i(3,4) qg gb by simp
  then have "cs_rep (4 * (v - q * (m + q * g))) (push_bit 2 s AND M) (push_bit 2 c AND M)" by (rule cs_rep_shift)
  moreover have "g * (4 * (v - q * (m + q * g))) + (m + 2 * q * g) * (m + 2 * q * g) = 2 ^ 74 * N"
    using i(2) by (simp add: algebra_simps)
  moreover have "16 * g - 24 * (m + 2 * q * g) \<le> 9 * (4 * (v - q * (m + q * g)))"
    "9 * (4 * (v - q * (m + q * g))) \<le> 24 * (m + 2 * q * g) + 16 * g" using q by (simp_all add: good_digit_def algebra_simps)
  moreover have "2 * g dvd m + 2 * q * g" using i(5) by (intro dvd_add) (auto intro: dvd_trans)
  moreover have "2 ^ 72 \<le> m + 2 * q * g \<and> m + 2 * q * g \<le> 2 ^ 73"
  proof -
    obtain k where k: "m = 8 * g * k" using i(5) by (auto simp: dvd_def)
    have g73: "2 ^ 73 = 8 * g * a" using g(2) by simp
    note sign = root_inv_signs [OF inv _ N]
    have "m + 2 * q * g \<le> 2 ^ 73"
    proof (cases "m = 2 ^ 73")
      case True
      then have "q \<le> 0" using sign(2) g(1) q by (simp add: good_digit_def)
      then have "q * g \<le> 0" using g(1) by (simp add: mult_nonpos_nonneg)
      then show ?thesis using True by (simp add: mult.commute [of q])
    next
      case False
      then have "8 * g * k < 8 * g * a" using i(4) unfolding k g73 by linarith
      then have "g * (k + 1) \<le> g * a" using g(1) by simp
      then show ?thesis unfolding k g73 using qg by (simp add: distrib_left)
    qed
    moreover have "2 ^ 72 \<le> m + 2 * q * g"
    proof (cases "m = 2 ^ 72")
      case True
      then have "0 \<le> q * g" using sign(1) g(1) q by (simp add: good_digit_def)
      then show ?thesis using True by (simp add: mult.commute [of q])
    next
      case False
      then have "4 * g * a < 4 * g * (2 * k)" using i(3) unfolding k g(2) by linarith
      then have "g * (a + 1) \<le> g * (2 * k)" using g(1) by simp
      then show ?thesis unfolding k g(2) using qg by (simp add: distrib_left)
    qed
    ultimately show ?thesis by blast
  qed
  ultimately show ?thesis unfolding root_inv_def by blast
qed

text \<open>The digit of every step is a good one.\<close>

lemma column_of:
  assumes "t * 2 ^ 72 = of_int (2 ^ 68 * c)" "2 ^ 72 \<le> 2 ^ 68 * c" "2 ^ 68 * c \<le> 2 ^ 73"
  shows "root_column t = Some (min 31 c)"
proof -
  obtain D where "root_column t = Some D" "D \<le> 31" "2 ^ 68 * D \<le> 2 ^ 68 * c + 2 ^ 19" "2 ^ 68 * c < 2 ^ 68 * D + 2 ^ 68 \<or> D = 31 \<and> 2 ^ 68 * c = 2 ^ 73"
    using root_column_near [OF assms] by blast
  moreover have "D = min 31 c" using calculation(2-4) assms(3) by auto
  ultimately show ?thesis by simp
qed

lemma select_root_digit:
  assumes inv: "root_inv N (4 * 4 ^ (36 - j)) m v S C" and j: "1 \<le> j" "j \<le> 36" and N: "2 ^ 70 \<le> N" "N < 2 ^ 72"
    and t: "t * 2 ^ 72 = of_int m" and first: "j = 1 \<longrightarrow> m = 2 ^ 73"
  shows "\<exists>q. root_digit j (cs_index 69 S C) t = Some q \<and> good_digit m (4 ^ (36 - j)) v q"
proof -
  define g :: int where "g = 4 ^ (36 - j)"
  define h :: int where "h = 2 ^ 68"
  define P where "P = cs_index 69 S C"
  have inv: "root_inv N (4 * g) m v S C" using inv by (simp add: g_def)
  have i: "cs_rep v S C" "4 * g * v + m * m = 2 ^ 74 * N" "64 * g - 24 * m \<le> 9 * v" "9 * v \<le> 24 * m + 64 * g" "2 ^ 72 \<le> m" "m \<le> 2 ^ 73" "8 * g dvd m"
    using inv by (simp_all add: root_inv_def)
  have g: "0 < g" "g \<le> 2 ^ 70" using power_increasing [of "36 - j" 35 "4 :: int"] j by (simp_all add: g_def)
  have "- 62 * 2 ^ 69 \<le> v" "v < 64 * 2 ^ 69" using i(3-6) g by simp_all
  from cs_index_bounds [OF i(1) _ this]
  have P: "2 * h * P \<le> v" "v \<le> 2 * h * P + 4 * h - 2" by (simp_all add: P_def h_def)
  have h: "0 < h" by (simp add: h_def)
  note sign = root_inv_signs [OF inv _ N]
  consider "j = 1" | "j = 2" | "3 \<le> j" using j by linarith
  then show ?thesis
  proof cases
    case 1
    then have m: "m = 32 * h" "g = 4 * h" using first by (simp_all add: h_def g_def)
    have "v = 4 * N - 2 ^ 74" using i(2) unfolding m by (simp add: h_def)
    then have v: "- 27 * h * 16 \<le> 9 * v" "v < 0" using N by (simp_all add: h_def)
    show ?thesis using first_good [OF h P v] 1 m unfolding root_digit_def P_def [symmetric] g_def [symmetric] by simp
  next
    case 2
    then have gh: "g = h" by (simp add: g_def h_def)
    obtain k where k: "m = 8 * h * k" using i(7) by (auto simp: dvd_def gh)
    have "2 \<le> k" "k \<le> 4" using i(5,6) unfolding k h_def by simp_all
    then have "k = 2 \<or> k = 3 \<or> k = 4" by presburger
    moreover have "root_column t = Some (min 31 (8 * k))" using column_of [of t "8 * k"] t i(5,6) by (simp add: k h_def)
    ultimately have "\<exists>D. root_column t = Some D \<and> (m = 16 * h \<and> D = 16 \<and> 0 \<le> v \<or> m = 24 * h \<and> D = 24 \<or> m = 32 * h \<and> D = 31 \<and> v < 0)"
      using sign g by (elim disjE) (simp_all add: k h_def)
    then obtain D where D: "root_column t = Some D" "m = 16 * h \<and> D = 16 \<and> 0 \<le> v \<or> m = 24 * h \<and> D = 24 \<or> m = 32 * h \<and> D = 31 \<and> v < 0" by blast
    show ?thesis using second_good [OF h P D(2)] i(3,4) 2 D(1) unfolding root_digit_def P_def [symmetric] g_def [symmetric] gh by simp
  next
    case 3
    then have hg: "h = 4 * g * 4 ^ (j - 3)" using j by (simp add: g_def h_def flip: power_Suc power_add)
    define b :: int where "b = 4 ^ (j - 3)"
    have b: "h = 4 * g * b" "1 \<le> b" using hg by (simp_all add: b_def)
    obtain k where k: "m = 8 * g * k" using i(7) by (auto simp: dvd_def)
    obtain D where D: "root_column t = Some D" "16 \<le> D" "D \<le> 31" "h * D \<le> m + 2 ^ 19" "m < h * D + h \<or> D = 31 \<and> m = 2 ^ 73"
      using root_column_near [OF t i(5,6)] by (auto simp: h_def)
    have col: "15 * (h * D) \<le> 15 * m + h" using D(4) by (simp add: h_def)
    have "m + 4 * g \<le> h * D + h" if "m < h * D + h"
    proof -
      have "4 * g * (2 * k) < 4 * g * (b * D + b)" using that unfolding k b(1) by (simp add: algebra_simps)
      then have "2 * k + 1 \<le> b * D + b" using g(1) by simp
      then have "4 * g * (2 * k + 1) \<le> 4 * g * (b * D + b)" using g(1) by simp
      then show ?thesis unfolding k b(1) by (simp add: algebra_simps)
    qed
    then have col': "v < 0 \<and> m \<le> 32 * h \<and> D = 31 \<or> 3 * m + 4 * g \<le> 3 * (h * D) + 3 * h"
      using D(5) sign(2) g(1) i(6) by (auto simp: h_def)
    have gh: "4 * g \<le> h" using b g(1) by simp
    have hD: "h * 16 \<le> h * D" "D \<noteq> 16 \<Longrightarrow> h * 17 \<le> h * D" using D(2) h by simp_all
    have "0 \<le> v \<or> 25 * g + h \<le> 3 * (h * D) - 42 * h"
    proof (cases "D = 16 \<and> j = 3")
      case True
      then have "m = 2 * h * k" using k b by (simp add: b_def)
      moreover have "8 \<le> k" "k < 9" using D(5) i(5) True h unfolding \<open>m = 2 * h * k\<close> by (simp_all add: h_def)
      ultimately have "m = 2 ^ 72" by (simp add: h_def)
      then show ?thesis using sign(1) g(1) by simp
    next
      case False
      have "16 * g \<le> h" if "j \<noteq> 3"
      proof -
        have "4 ^ 1 \<le> b" using that 3 unfolding b_def by (intro power_increasing) simp_all
        then show ?thesis using mult_left_mono [of 4 b "4 * g"] g(1) b(1) by simp
      qed
      then have "25 * g + h \<le> 3 * (h * D) - 42 * h" using False hD gh g(1) by (cases "D = 16") linarith+
      then show ?thesis by blast
    qed
    from pla_good [OF h P D(2,3) col col' _ _ this _ gh]
    show ?thesis using i(3,4) g(1) 3 D(1) unfolding root_digit_def P_def [symmetric] g_def [symmetric] by simp
  qed
qed

lemma sqrt_loop_runs:
  assumes "root_inv N (4 ^ n) m v S C" "j + n = 37" "1 \<le> j" "t * 2 ^ 72 = of_int m" "j = 1 \<longrightarrow> m = 2 ^ 73" "2 ^ 70 \<le> N" "N < 2 ^ 72"
  shows "\<exists>S' C' t' m' v'. sqrt_loop n j S C t = Some (S', C', t') \<and> root_inv N 1 m' v' S' C' \<and> t' * 2 ^ 72 = of_int m'"
  using assms(1-5)
proof (induction n arbitrary: j m v S C t)
  case 0
  then show ?case by auto
next
  case (Suc n)
  have n: "n = 36 - j" "j \<le> 36" using Suc.prems(2) by simp_all
  define g :: int where "g = 4 ^ n"
  have inv: "root_inv N (4 * g) m v S C" using Suc.prems(1) by (simp add: g_def)
  obtain q where q: "root_digit j (cs_index 69 S C) t = Some q" "good_digit m g v q"
    using select_root_digit [of N j m v S C t] inv Suc.prems(3-5) n assms(6,7) by (auto simp: g_def)
  have qb: "-2 \<le> q" "q \<le> 2" using q(2) by (simp_all add: good_digit_def)
  have g: "0 < g" "2 ^ 72 = 4 * g * 4 ^ (j - 1)"
  proof -
    have "(4 :: int) * 4 ^ n * 4 ^ (j - 1) = 4 ^ (n + j)" using Suc.prems(3) by (simp flip: power_Suc power_add)
    also have "n + j = 36" using Suc.prems(2) by simp
    finally show "2 ^ 72 = 4 * g * 4 ^ (j - 1)" by (simp add: g_def)
  qed (simp add: g_def)
  have w: "(1 / 4 ^ j) * 2 ^ 72 = (of_int g :: rat)"
  proof -
    have "j + n = 36" using Suc.prems(2) by simp
    then have "(2 :: rat) ^ 72 = 4 ^ (j + n)" by simp
    then have w: "(2 :: rat) ^ 72 = 4 ^ j * 4 ^ n" by (simp only: power_add)
    show ?thesis unfolding w by (simp add: g_def)
  qed
  have qw: "of_int q * (1 / 4 ^ j) * 2 ^ 72 = (of_int (q * g) :: rat)" by (simp only: mult.assoc w of_int_mult)
  define F where "F = t + of_int q * (1 / 4 ^ j)"
  have F: "F * 2 ^ 72 = of_int (m + q * g)"
    using Suc.prems(4) qw unfolding F_def by (simp only: distrib_right of_int_add)
  obtain a where a: "0 < a" "2 ^ 72 = 4 * g * a" using g(2) by (metis zero_less_numeral zero_less_power)
  have "g \<le> g * a" using a(1) g(1) by simp
  moreover have "2 ^ 72 = 4 * (g * a)" using a(2) by (simp only: mult.assoc)
  ultimately have gb: "4 * g \<le> 2 ^ 72" by linarith
  have "- 2 * g \<le> q * g" "q * g \<le> 2 * g" using qb g(1) mult_right_mono [of "-2" q g] mult_right_mono [of q 2 g] by simp_all
  then have Fb: "0 \<le> m + q * g" "2 * (m + q * g) < 2 ^ 80" using inv gb by (simp_all add: root_inv_def)
  obtain T cf where T: "(T, cf) = (if q > 0 then (NOT (q * (m + q * g)) AND M, True)
      else if q < 0 then ((- q) * (m + q * g), False) else (0, False))" by metis
  obtain s c where sc: "csa_add S C T cf = (s, c)" by fastforce
  note next_inv = root_step [OF inv q(2) g assms(6,7) T sc]
  have nj: "j + 1 + n = 37" "1 \<le> j + 1" "j + 1 = 1 \<longrightarrow> m + 2 * q * g = 2 ^ 73" using Suc.prems(2,3) by simp_all
  have nt: "(t + 2 * of_int q * (1 / 4 ^ j)) * 2 ^ 72 = of_int (m + 2 * q * g)"
    using Suc.prems(4) by (simp only: distrib_right of_int_add mult.assoc w of_int_mult of_int_numeral)
  from Suc.IH [folded g_def, OF next_inv nj(1,2) nt nj(3)]
  obtain S' C' t' m' v' where IH: "sqrt_loop n (j + 1) (push_bit 2 s AND M) (push_bit 2 c AND M) (t + 2 * of_int q * (1 / 4 ^ j)) = Some (S', C', t')"
    "root_inv N 1 m' v' S' C'" "t' * 2 ^ 72 = of_int m'" by blast
  have idx: "(fld C + fld S + 64) mod 128 - 64 = cs_index 69 S C" by (simp add: cs_index_def fld_def FRACW_def)
  have "sqrt_loop (Suc n) j S C t = Some (S', C', t')"
    by (simp only: sqrt_loop.simps Let_def idx q(1) Option.bind.simps F_def [symmetric] addend_scaled [OF F Fb qb] T [symmetric] prod.case sc IH(1))
  then show ?case using IH(2,3) by blast
qed

text \<open>The root with 72 fractional bits, and what its square lacks.\<close>

lemma srt_sqrt_core_identity:
  assumes "X * 2 ^ 72 = of_int N" "2 ^ 70 \<le> N" "N < 2 ^ 72"
  shows "\<exists>Q v. srt_sqrt_core X = Some (Q, 72, sgn v) \<and> 4 * (Q * Q) + v = 2 ^ 74 * N \<and> 16 - 48 * Q \<le> 9 * v \<and> 9 * v \<le> 48 * Q + 16 \<and>
    2 ^ 71 \<le> Q \<and> Q \<le> 2 ^ 72"
proof -
  define u where "u = 4 * (2 ^ 72 - N)"
  have X: "X = of_int N / 2 ^ 72" using assms(1) by simp
  have "X < 1"
  proof -
    have "(of_int N :: rat) < of_int (2 ^ 72)" using assms(3) by (simp only: of_int_less_iff)
    then show ?thesis by (simp add: X)
  qed
  then have "\<bar>4 * (X - 1)\<bar> * of_int (push_bit FRACW 1) = of_int u" by (simp add: X u_def FRACW_def push_bit_eq_mult field_simps)
  moreover have "0 \<le> u" using assms(3) by (simp add: u_def)
  ultimately have u: "int_of_fraction (\<bar>4 * (X - 1)\<bar> * of_int (push_bit FRACW 1)) = u" by (simp add: int_of_fraction_def)
  have S: "(NOT u + 1) AND M = (- u) mod 2 ^ 80" by (simp add: and_M not_int_def)
  have "root_inv N (4 ^ 36) (2 ^ 73) (- u) ((- u) mod 2 ^ 80) 0"
    using assms(2,3) by (simp add: root_inv_def cs_rep_def u_def)
  from sqrt_loop_runs [OF this, of 1 2] assms(2,3)
  obtain S C t m v where loop: "sqrt_loop 36 1 ((- u) mod 2 ^ 80) 0 2 = Some (S, C, t)" and inv: "root_inv N 1 m v S C"
    and t: "t * 2 ^ 72 = of_int m" by auto
  obtain Q where Q: "m = 2 * Q" using inv by (auto simp: root_inv_def dvd_def)
  have i: "cs_rep v S C" "v + m * m = 2 ^ 74 * N" "16 - 24 * m \<le> 9 * v" "9 * v \<le> 24 * m + 16" "2 ^ 72 \<le> m" "m \<le> 2 ^ 73"
    using inv by (simp_all add: root_inv_def)
  have b: "- (2 ^ 79) \<le> v" "v < 2 ^ 79" using i(3-6) by simp_all
  have sign: "(if drop_bit (W - 1) ((C + S) AND M) \<noteq> 0 then -1
      else if (C + S) AND M \<noteq> 0 then 1 else 0) = sgn v"
    unfolding cs_rep_sign [OF i(1) b] using cs_rep_value [OF i(1) b] by (simp add: sgn_if)
  have "t / 2 * of_int (push_bit 72 1) = of_int Q" using t by (simp add: Q push_bit_eq_mult)
  then have root: "int_of_fraction (t / 2 * of_int (push_bit 72 1)) = Q" using i(5) by (simp add: int_of_fraction_def Q)
  have SH: "ROOT_NSTEP = 36" "2 * 36 = (72 :: nat)" by (simp_all add: ROOT_NSTEP_def)
  have "srt_sqrt_core X = Some (Q, 72, sgn v)"
    by (simp only: srt_sqrt_core_def Let_def u S SH loop Option.bind.simps prod.case sign root)
  then show ?thesis using i Q by (intro exI [of _ Q] exI [of _ v]) simp
qed

subsection \<open>Correct rounding of the root\<close>

lemma root_rounds:
  assumes id: "4 * (Q * Q) + v = 2 ^ 74 * N" and v: "16 - 48 * Q \<le> 9 * v" "9 * v \<le> 48 * Q + 16"
    and Q: "2 ^ 71 \<le> Q" "Q \<le> 2 ^ 72" and N: "N = 2 ^ 18 * n" "N < 2 ^ 72"
  shows "\<exists>K. root_round_fx80 Q 72 (sgn v) k = Some (pack_fx80 K (k - 1)) \<and> 2 ^ 63 \<le> K \<and> K < 2 ^ 64 \<and>
    (256 * K - 128)\<^sup>2 < 2 ^ 72 * N \<and> 2 ^ 72 * N < (256 * K + 128)\<^sup>2"
proof -
  have n: "n \<le> 2 ^ 54 - 1" using N by simp
  have Y: "4 * (2 ^ 72 * N) = 4 * (Q * Q) + v" using id by simp
  have Q1: "Q < 2 ^ 72"
  proof (rule ccontr)
    assume "\<not> Q < 2 ^ 72"
    then have "Q = 2 ^ 72" using Q(2) by simp
    then show False using id v(1) n unfolding N(1) by simp
  qed
  define K R where "K = Q div 2 ^ 8" and "R = Q mod 2 ^ 8"
  have KR: "Q = 256 * K + R" "0 \<le> R" "R \<le> 255"
    using mult_div_mod_eq [of "2 ^ 8" Q] pos_mod_bound [of "2 ^ 8" Q] by (simp_all add: K_def R_def)
  have Kb: "2 ^ 63 \<le> K" "K \<le> 2 ^ 64 - 1" using Q(1) Q1 KR by simp_all
  have near: "(Q - 1)\<^sup>2 < 2 ^ 72 * N" "2 ^ 72 * N < (Q + 1)\<^sup>2"
    using Y v Q(1) by (simp_all add: power2_eq_square algebra_simps)
  have sq: "a\<^sup>2 \<le> b\<^sup>2" if "0 \<le> a" "a \<le> b" for a b :: int using that by (rule power_mono [rotated])
  define K' where "K' = (if R > 128 \<or> R = 128 \<and> 0 < v then K + 1 else K)"
  have tie: "v \<noteq> 0" if "R = 128"
  proof
    assume "v = 0"
    then have "(128 * (2 * K + 1)) * (128 * (2 * K + 1)) = 2 ^ 90 * n" using Y KR(1) that unfolding N(1) by (simp add: algebra_simps)
    then have "16384 * ((2 * K + 1) * (2 * K + 1)) = 16384 * (2 ^ 76 * n)" by (simp add: algebra_simps)
    then have "(2 * K + 1) * (2 * K + 1) = 2 ^ 76 * n" by (simp only: mult_cancel_left) simp
    then have "even ((2 * K + 1) * (2 * K + 1))" by simp
    then show False by simp
  qed
  have "root_round_fx80 Q 72 (sgn v) k = Some (pack_fx80 K' (k - 1))"
  proof -
    define \<delta> :: rat where "\<delta> = of_int (sgn v) / 2"
    have d: "\<bar>\<delta>\<bar> < 1" "sgn v > 0 \<longleftrightarrow> \<delta> > 0" "sgn v = 0 \<longleftrightarrow> \<delta> = 0" by (simp_all add: \<delta>_def sgn_if)
    have "round_half_even ((of_int Q + \<delta>) / 2 ^ 8) = K'"
      using tie unfolding round_quotient [OF d(1) zero_less_numeral] K_def [symmetric] R_def [symmetric] K'_def
      by (auto simp: \<delta>_def sgn_if)
    then show ?thesis
      using round_fx80_exact [of 8 Q \<delta> "sgn v" 0 72 k, OF _ _ _ d] Q(1) Q1 by (simp add: root_round_fx80_def)
  qed
  moreover have "(256 * K' - 128)\<^sup>2 < 2 ^ 72 * N \<and> 2 ^ 72 * N < (256 * K' + 128)\<^sup>2"
  proof -
    consider "R > 128" | "R < 128" | "R = 128" "0 < v" | "R = 128" "v < 0" using tie by linarith
    then show ?thesis
    proof cases
      case 1
      have "(256 * K + 128)\<^sup>2 \<le> (Q - 1)\<^sup>2" by (rule sq) (use KR Kb 1 in simp_all)
      moreover have "(Q + 1)\<^sup>2 \<le> (256 * K + 384)\<^sup>2" by (rule sq) (use KR Kb in simp_all)
      ultimately show ?thesis using near 1 by (simp add: K'_def algebra_simps)
    next
      case 2
      have "(256 * K - 128)\<^sup>2 \<le> (Q - 1)\<^sup>2" by (rule sq) (use KR Kb in simp_all)
      moreover have "(Q + 1)\<^sup>2 \<le> (256 * K + 128)\<^sup>2" by (rule sq) (use KR Kb 2 in simp_all)
      ultimately show ?thesis using near 2 by (simp add: K'_def)
    next
      case 3
      have "(256 * K + 128)\<^sup>2 < 2 ^ 72 * N" using Y KR(1) 3 by (simp add: power2_eq_square)
      moreover have "(Q + 1)\<^sup>2 \<le> (256 * K + 384)\<^sup>2" by (rule sq) (use KR Kb in simp_all)
      ultimately show ?thesis using near 3 by (simp add: K'_def algebra_simps)
    next
      case 4
      have "2 ^ 72 * N < (256 * K + 128)\<^sup>2" using Y KR(1) 4 by (simp add: power2_eq_square)
      moreover have "(256 * K - 128)\<^sup>2 \<le> (Q - 1)\<^sup>2" by (rule sq) (use KR Kb in simp_all)
      ultimately show ?thesis using near 4 by (simp add: K'_def)
    qed
  qed
  moreover have "K' < 2 ^ 64"
  proof (rule ccontr)
    assume "\<not> K' < 2 ^ 64"
    then have "(256 * 2 ^ 64 - 128)\<^sup>2 \<le> (256 * K' - 128)\<^sup>2" by (intro sq) simp_all
    then show False using calculation(2) n unfolding N(1) by (simp add: power2_eq_square)
  qed
  moreover have "2 ^ 63 \<le> K'" using Kb by (simp add: K'_def)
  ultimately show ?thesis by blast
qed


lemma pow2_add: "pow2 (a + b) = pow2 a * pow2 b"
  by (simp add: pow2_powi power_int_add)

lemma pow2_nat: "0 \<le> a \<Longrightarrow> pow2 a = 2 ^ nat a"
  by (simp add: pow2_def push_bit_eq_mult)

lemma pow2_pos [simp]: "0 < pow2 a"
  by (simp add: pow2_powi zero_less_power_int)

lemma pow2_square: "(pow2 a)\<^sup>2 = pow2 (2 * a)"
  by (simp add: power2_eq_square flip: pow2_add)

text \<open>The significand that is returned, with the radicand scaled to a quarter up to one.\<close>

lemma fsqrt_root:
  assumes x: "is_normal x"
  shows "\<exists>K k N. fsqrt_fx80 x = Some (pack_fx80 K (k - 1)) \<and> 2 ^ 63 \<le> K \<and> K < 2 ^ 64 \<and>
    (256 * K - 128)\<^sup>2 < 2 ^ 72 * N \<and> 2 ^ 72 * N < (256 * K + 128)\<^sup>2 \<and>
    magnitude x = of_int N / 2 ^ 72 * pow2 (2 * k) \<and> 2 ^ 70 \<le> N \<and> N < 2 ^ 72 \<and>
    2 * k - 2 \<le> x div 2 ^ 52 mod 2 ^ 11 - 1023 \<and> x div 2 ^ 52 mod 2 ^ 11 - 1023 \<le> 2 * k - 1"
proof -
  define a e where "a = 2 ^ 52 + x mod 2 ^ 52" and "e = x div 2 ^ 52 mod 2 ^ 11 - 1023"
  have a: "2 ^ 52 \<le> a" "a < 2 ^ 53" using pos_mod_bound [of "2 ^ 52" x] by (simp_all add: a_def)
  have mag: "magnitude x = of_int a / 2 ^ 52 * pow2 e"
    using x by (simp add: magnitude_def Let_def is_normal_def a_def e_def)
  have dec: "root_decompose x = (of_int a / 2 ^ 52, e)" by (simp add: root_decompose_def decompose_arith a_def e_def)
  define k where "k = (if odd e then (e + 1) div 2 else e div 2 + 1)"
  define n where "n = (if odd e then 2 * a else a)"
  define N where "N = 2 ^ 18 * n"
  have ek: "e = (if odd e then 2 * k - 1 else 2 * k - 2)" by (auto simp: k_def elim: oddE evenE)
  have N: "2 ^ 70 \<le> N" "N < 2 ^ 72" using a by (simp_all add: N_def n_def)
  have X: "(if e AND 1 \<noteq> 0 then (of_int a / 2 ^ 52 / 2, (e + 1) div 2) else (of_int a / 2 ^ 52 / 4, e div 2 + 1)) = (of_int N / 2 ^ 72 :: rat, k)"
    by (simp add: N_def n_def k_def and_one_eq odd_iff_mod_2_eq_one)
  obtain Q v where core: "srt_sqrt_core (of_int N / 2 ^ 72) = Some (Q, 72, sgn v)" and
    Q: "4 * (Q * Q) + v = 2 ^ 74 * N" "16 - 48 * Q \<le> 9 * v" "9 * v \<le> 48 * Q + 16" "2 ^ 71 \<le> Q" "Q \<le> 2 ^ 72"
    using srt_sqrt_core_identity [of "of_int N / 2 ^ 72" N] N by auto
  obtain K where K: "root_round_fx80 Q 72 (sgn v) k = Some (pack_fx80 K (k - 1))" "2 ^ 63 \<le> K" "K < 2 ^ 64"
    "(256 * K - 128)\<^sup>2 < 2 ^ 72 * N" "2 ^ 72 * N < (256 * K + 128)\<^sup>2"
    using root_rounds [OF Q N_def N(2)] by blast
  have "fsqrt_fx80 x = Some (pack_fx80 K (k - 1))"
    by (simp only: fsqrt_fx80_def Let_def dec prod.case X core Option.bind.simps K(1))
  moreover have "magnitude x = of_int N / 2 ^ 72 * pow2 (2 * k)"
  proof -
    have "pow2 (2 * k) = (if odd e then 2 else 4) * pow2 e"
      using ek pow2_add [of e 1] pow2_add [of e 2] by (auto simp: pow2_nat)
    then show ?thesis unfolding mag by (simp add: N_def n_def)
  qed
  ultimately show ?thesis using K(2-5) N ek unfolding e_def [symmetric] by (intro exI [of _ K] exI [of _ k] exI [of _ N]) (auto split: if_splits)
qed

text \<open>
  C2. The square root is correctly rounded: for every normal double, whose sign is ignored, no step falls outside
  the digit table, and the floatx80 number returned, with a 64-bit significand, is less than half a unit of
  its last place away from the exact root (the root of a double is never half way between two of them).
\<close>

theorem fsqrt_fx80_correct:
  assumes "is_normal x"
  shows "\<exists>K e. fsqrt_fx80 x = Some (pack_fx80 K e) \<and> 2 ^ 63 \<le> K \<and> K < 2 ^ 64 \<and>
    ((of_int K - 1 / 2) * pow2 (e - 63))\<^sup>2 < magnitude x \<and> magnitude x < ((of_int K + 1 / 2) * pow2 (e - 63))\<^sup>2"
proof -
  obtain K k N where r: "fsqrt_fx80 x = Some (pack_fx80 K (k - 1))" "2 ^ 63 \<le> K" "K < 2 ^ 64"
    "(256 * K - 128)\<^sup>2 < 2 ^ 72 * N" "2 ^ 72 * N < (256 * K + 128)\<^sup>2" "magnitude x = of_int N / 2 ^ 72 * pow2 (2 * k)"
    using fsqrt_root [OF assms] by blast
  define p where "p = pow2 (2 * k - 128)"
  have p: "0 < p" "pow2 (2 * k) = p * 2 ^ 128" using pow2_add [of "2 * k - 128" 128] by (simp_all add: p_def pow2_nat)
  have sq: "((of_int K + c) * pow2 (k - 1 - 63))\<^sup>2 = (of_int K + c)\<^sup>2 * p" for c
    using pow2_square [of "k - 64"] by (simp add: p_def power_mult_distrib)
  have "(of_int ((256 * K - 128)\<^sup>2) :: rat) < of_int (2 ^ 72 * N)" "(of_int (2 ^ 72 * N) :: rat) < of_int ((256 * K + 128)\<^sup>2)"
    using r(4,5) by (simp_all only: of_int_less_iff)
  then have "(of_int K + - 1 / 2 :: rat)\<^sup>2 < of_int N / 2 ^ 72 * 2 ^ 128" "of_int N / 2 ^ 72 * 2 ^ 128 < (of_int K + 1 / 2 :: rat)\<^sup>2"
    by (simp_all add: power2_eq_square algebra_simps)
  then have "(of_int K + - 1 / 2 :: rat)\<^sup>2 * p < of_int N / 2 ^ 72 * 2 ^ 128 * p" "of_int N / 2 ^ 72 * 2 ^ 128 * p < (of_int K + 1 / 2 :: rat)\<^sup>2 * p"
    using p(1) by (simp_all only: mult_less_cancel_right_pos)
  then show ?thesis
    using r(1-3) sq [of "- 1 / 2"] sq [of "1 / 2"] unfolding r(6) p(2)
    by (intro exI [of _ K] exI [of _ "k - 1"]) (simp add: ac_simps)
qed

theorem fsqrt_fx80_correct_witness:
  "\<exists>K e. fsqrt_fx80 0x4000000000000000 = Some (pack_fx80 K e) \<and> 2 ^ 63 \<le> K \<and> K < 2 ^ 64 \<and>
    ((of_int K - 1 / 2) * pow2 (e - 63))\<^sup>2 < magnitude 0x4000000000000000 \<and>
    magnitude 0x4000000000000000 < ((of_int K + 1 / 2) * pow2 (e - 63))\<^sup>2"
  by (rule fsqrt_fx80_correct) (simp_all add: is_normal_def)


subsection \<open>The reference with an integer square root\<close>

fun isqrt :: "nat \<Rightarrow> nat" where
  "isqrt n = (if n = 0 then 0 else let r = 2 * isqrt (n div 4) in if (r + 1) * (r + 1) \<le> n then r + 1 else r)"

declare isqrt.simps [simp del]

lemma isqrt_bounds: "isqrt n * isqrt n \<le> n \<and> n < (isqrt n + 1) * (isqrt n + 1)"
proof (induction n rule: isqrt.induct)
  case (1 n)
  show ?case
  proof (cases "n = 0")
    case False
    define r where "r = isqrt (n div 4)"
    have IH: "r * r \<le> n div 4" "n div 4 < (r + 1) * (r + 1)" using 1 [OF False] by (simp_all add: r_def)
    then have "4 * (r * r) \<le> n" "n < 4 * ((r + 1) * (r + 1))" by linarith+
    then show ?thesis unfolding isqrt.simps [of n] Let_def r_def [symmetric] using False by (simp add: algebra_simps)
  qed (simp add: isqrt.simps)
qed

text \<open>The normalisation and the rounding of the root are those of the divider's reference.\<close>

definition ieee_sqrt_fx80 :: "int \<Rightarrow> int option" where
  "ieee_sqrt_fx80 x =
    (let (sig, e) = root_decompose x; (numerator, den) = quotient_of (sig * pow2 e);
         scale = nat (2 * (if e \<ge> 0 then e else 0) + 200); num = push_bit (scale * 2) numerator;
         root = int (isqrt (nat (num div den)))
     in reference_fx80 (of_int root / of_int (push_bit scale 1)))"

lemma reference_zero: "reference_fx80 0 = None"
proof -
  have none: "v \<noteq> 0" if "double_loop v e = Some y" for v e y
  proof -
    let ?Q = "\<lambda>v (e :: int) (y :: rat \<times> int). v \<noteq> (0 :: rat)"
    show ?thesis
      by (rule double_loop.raw_induct [where P = ?Q, OF _ that], goal_cases) (fastforce split: if_splits)
  qed
  then have "double_loop 0 0 = None" by fastforce
  then show ?thesis by (simp add: reference_fx80_def halve_loop.simps)
qed

text \<open>The integer root of a scaled number, between consecutive grid points.\<close>

lemma ieee_root:
  assumes "0 < val" "quotient_of val = (n, d)"
  shows "\<exists>r. int (isqrt (nat (push_bit (scale * 2) n div d))) = r \<and> 0 \<le> r \<and>
    of_int (r * r) \<le> val * 4 ^ scale \<and> val * 4 ^ scale < of_int ((r + 1) * (r + 1))"
proof -
  have d: "0 < d" and v: "val = of_int n / of_int d" using quotient_of_denom_pos [OF assms(2)] quotient_of_div [OF assms(2)] by simp_all
  have "0 < n" using assms(1) d by (simp add: v zero_less_divide_iff)
  define y where "y = push_bit (scale * 2) n div d"
  have y0: "0 \<le> y" using d \<open>0 < n\<close> by (simp add: y_def push_bit_eq_mult pos_imp_zdiv_nonneg_iff)
  have "val * 4 ^ scale = of_int (push_bit (scale * 2) n) / of_int d" by (simp add: v push_bit_eq_mult power_mult power_mult_distrib [symmetric] mult.commute [of scale])
  then have y: "y = \<lfloor>val * 4 ^ scale\<rfloor>" by (simp only: y_def floor_divide_of_int_eq)
  define r where "r = int (isqrt (nat y))"
  have "int (isqrt (nat y) * isqrt (nat y)) \<le> int (nat y)" "int (nat y) < int ((isqrt (nat y) + 1) * (isqrt (nat y) + 1))"
    using isqrt_bounds [of "nat y"] by (simp_all only: of_nat_le_iff of_nat_less_iff)
  then have "r * r \<le> y" "y < (r + 1) * (r + 1)" using y0 by (simp_all add: r_def algebra_simps)
  then show ?thesis unfolding y le_floor_iff floor_less_iff by (intro exI [of _ r]) (simp add: r_def y_def [symmetric] y)
qed


text \<open>
  C8. The reference agrees: for every normal double of at least \<open>2 ^ -128\<close> the normalised and rounded
  integer square root is the pattern that the recurrence returns. Below \<open>2 ^ -400\<close> the integer root is 0,
  and the normalisation of the reference never ends.
\<close>

theorem ieee_sqrt_agrees:
  assumes "is_normal x" "895 \<le> x div 2 ^ 52 mod 2 ^ 11"
  shows "ieee_sqrt_fx80 x = fsqrt_fx80 x"
proof -
  obtain K k N where r: "fsqrt_fx80 x = Some (pack_fx80 K (k - 1))" "2 ^ 63 \<le> K" "K < 2 ^ 64"
    "(256 * K - 128)\<^sup>2 < 2 ^ 72 * N" "2 ^ 72 * N < (256 * K + 128)\<^sup>2" "magnitude x = of_int N / 2 ^ 72 * pow2 (2 * k)"
    "2 ^ 70 \<le> N" "N < 2 ^ 72" "2 * k - 2 \<le> x div 2 ^ 52 mod 2 ^ 11 - 1023" "x div 2 ^ 52 mod 2 ^ 11 - 1023 \<le> 2 * k - 1"
    using fsqrt_root [OF assms(1)] by blast
  define e where "e = x div 2 ^ 52 mod 2 ^ 11 - 1023"
  define scale where "scale = nat (2 * (if e \<ge> 0 then e else 0) + 200)"
  have k: "- 64 \<le> k" "136 \<le> int scale + k" using r(9,10) assms(2) by (auto simp: scale_def e_def)
  define val where "val = magnitude x"
  have val: "0 < val" using r(7) unfolding val_def r(6) by simp
  obtain n d where nd: "quotient_of val = (n, d)" by fastforce
  obtain i where i: "int (isqrt (nat (push_bit (scale * 2) n div d))) = i" "0 \<le> i"
    "of_int (i * i) \<le> val * 4 ^ scale" "val * 4 ^ scale < of_int ((i + 1) * (i + 1))" using ieee_root [OF val nd] by blast
  have dec: "root_decompose x = (of_int (2 ^ 52 + x mod 2 ^ 52) / 2 ^ 52, e)" by (simp add: root_decompose_def decompose_arith e_def)
  have sg: "of_int (2 ^ 52 + x mod 2 ^ 52) / 2 ^ 52 * pow2 e = val"
    using assms(1) by (simp add: val_def magnitude_def Let_def is_normal_def e_def)
  have one: "of_int (push_bit scale 1) = (2 :: rat) ^ scale" by (simp add: push_bit_eq_mult)
  have ref: "ieee_sqrt_fx80 x = reference_fx80 (of_int i / 2 ^ scale)"
    by (simp only: ieee_sqrt_fx80_def Let_def dec prod.case scale_def [symmetric] sg nd i(1) one)
  define p where "p = pow2 (64 - k - int scale)"
  have p: "0 < p" "p \<le> 1 / 2 ^ 72"
  proof -
    have "pow2 (64 - k - int scale) \<le> pow2 (- 72)" unfolding pow2_powi by (rule power_int_increasing) (use k in simp_all)
    then show "p \<le> 1 / 2 ^ 72" by (simp add: p_def pow2_def push_bit_eq_mult)
  qed (simp add: p_def)
  have scaled: "p * pow2 (int scale + k - 64) = 1" "pow2 (int scale) = 2 ^ scale" "pow2 1 = 2" "pow2 63 = 2 ^ 63"
    by (simp_all add: p_def pow2_nat flip: pow2_add)
  define z where "z = of_int i * p"
  have pp: "0 < p * p" using p(1) by simp
  have "val * 4 ^ scale * (p * p) = of_int N * 2 ^ 56"
  proof -
    have "(4 :: rat) ^ scale = pow2 (2 * int scale)" by (simp add: pow2_nat nat_mult_distrib power_mult)
    then have "pow2 (2 * k) * (4 ^ scale * (p * p)) = pow2 128" by (simp add: p_def flip: pow2_add)
    then show ?thesis unfolding val_def r(6) by (simp add: pow2_nat)
  qed
  then have "z * z \<le> of_int N * 2 ^ 56" "of_int N * 2 ^ 56 < (z + p) * (z + p)"
    using mult_right_mono [OF i(3), of "p * p"] mult_strict_right_mono [OF i(4) pp] p(1) by (simp_all add: z_def algebra_simps)
  note zz = this
  have z: "of_int i / 2 ^ scale = z / 2 ^ 63 * pow2 (k - 1)"
  proof -
    have "p * pow2 (k - 1) * 2 ^ scale = pow2 63" unfolding scaled(2) [symmetric] by (simp add: p_def flip: pow2_add)
    then show ?thesis unfolding z_def scaled(4) by (simp add: field_simps)
  qed
  have z0: "0 \<le> z" using i(2) p(1) by (simp add: z_def)
  have "2 ^ 63 \<le> z"
  proof -
    define i0 :: int where "i0 = 2 ^ nat (int scale + k - 1)"
    have i0: "of_int i0 * p = 2 ^ 63"
    proof -
      have "of_int i0 = pow2 (int scale + k - 1)" using k(2) by (simp add: i0_def pow2_nat)
      then have "of_int i0 * p = pow2 63" by (simp add: p_def flip: pow2_add)
      then show ?thesis by (simp add: scaled(4))
    qed
    have "(2 ^ 70 :: rat) \<le> of_int N" using r(7) by (metis of_int_le_iff of_int_numeral of_int_power)
    then have "2 ^ 63 * 2 ^ 63 < (z + p) * (z + p)" using zz(2) by simp
    moreover have "(z + p) * (z + p) \<le> 2 ^ 63 * 2 ^ 63" if "z + p \<le> 2 ^ 63" using that z0 p(1) by (intro mult_mono) simp_all
    ultimately have "2 ^ 63 < z + p" by fastforce
    then have "of_int i0 * p < of_int (i + 1) * p" unfolding i0 by (simp add: z_def algebra_simps)
    then have "of_int i0 < (of_int (i + 1) :: rat)" using p(1) by (simp only: mult_less_cancel_right_pos)
    then have "i0 \<le> i" by simp
    then have "of_int i0 * p \<le> z" unfolding z_def using p(1) by simp
    then show ?thesis by (simp add: i0)
  qed
  moreover have "z < 2 ^ 64"
  proof (rule ccontr)
    assume "\<not> z < 2 ^ 64"
    then have "2 ^ 64 * 2 ^ 64 \<le> z * z" by (intro mult_mono) simp_all
    moreover have "of_int N < (2 ^ 72 :: rat)" using r(8) by (metis of_int_less_iff of_int_numeral of_int_power)
    ultimately show False using zz(1) by simp
  qed
  ultimately have ref': "ieee_sqrt_fx80 x = Some (pack_fx80 (round_half_even z) (k - 1))"
    unfolding ref z using reference_normal [of "z / 2 ^ 63" "k - 1"] by simp
  have kk: "(of_int K - 1 / 2) * (of_int K - 1 / 2) + 1 / 4 \<le> of_int N * (2 ^ 56 :: rat)" "of_int N * 2 ^ 56 < (of_int K + 1 / 2) * (of_int K + 1 / 2 :: rat)"
  proof -
    have "(2 * K - 1) * (2 * K - 1) + 1 \<le> 2 ^ 58 * N" "2 ^ 58 * N < (2 * K + 1) * (2 * K + 1)"
      using r(4,5) by (simp_all add: power2_eq_square algebra_simps)
    then have "(of_int ((2 * K - 1) * (2 * K - 1) + 1) :: rat) \<le> of_int (2 ^ 58 * N)" "(of_int (2 ^ 58 * N) :: rat) < of_int ((2 * K + 1) * (2 * K + 1))"
      by (simp_all only: of_int_le_iff of_int_less_iff)
    then show "(of_int K - 1 / 2) * (of_int K - 1 / 2) + 1 / 4 \<le> of_int N * (2 ^ 56 :: rat)" "of_int N * 2 ^ 56 < (of_int K + 1 / 2) * (of_int K + 1 / 2 :: rat)"
      by (simp_all add: algebra_simps)
  qed
  have Kb: "2 ^ 63 \<le> (of_int K :: rat)" "(of_int K :: rat) < 2 ^ 64" using r(2,3) by (metis of_int_le_iff of_int_less_iff of_int_numeral of_int_power)+
  have "z < of_int K + 1 / 2"
  proof (rule ccontr)
    assume "\<not> z < of_int K + 1 / 2"
    then have "(of_int K + 1 / 2) * (of_int K + 1 / 2) \<le> z * z" using Kb by (intro mult_mono) simp_all
    then show False using zz(1) kk(2) by simp
  qed
  moreover have "of_int K - 1 / 2 < z"
  proof (rule ccontr)
    assume "\<not> of_int K - 1 / 2 < z"
    then have "(z + p) * (z + p) \<le> (of_int K - 1 / 2 + p) * (of_int K - 1 / 2 + p)" using z0 p(1) by (intro mult_mono) simp_all
    also have "\<dots> = (of_int K - 1 / 2) * (of_int K - 1 / 2) + (2 * of_int K - 1) * p + p * p" by (simp add: algebra_simps)
    also have "(2 * of_int K - 1) * p \<le> 2 ^ 65 * (1 / 2 ^ 72)" using Kb p by (intro mult_mono) simp_all
    also have "p * p \<le> 1 / 2 ^ 72 * (1 / 2 ^ 72)" using p by (intro mult_mono) simp_all
    finally show False using zz(2) kk(1) by simp
  qed
  ultimately have "round_half_even z = K"
  proof (cases "of_int K \<le> z")
    case True
    then show ?thesis using \<open>z < of_int K + 1 / 2\<close> by (subst round_half_even_floor [of K]) auto
  next
    case False
    then show ?thesis using \<open>of_int K - 1 / 2 < z\<close> by (subst round_half_even_floor [of "K - 1"]) auto
  qed
  then show ?thesis using ref' r(1) by simp
qed

theorem ieee_sqrt_agrees_witness: "ieee_sqrt_fx80 0x4000000000000000 = fsqrt_fx80 0x4000000000000000"
  by (rule ieee_sqrt_agrees) (simp_all add: is_normal_def)

text \<open>For a double that small the integer root is 0 and the reference does not return.\<close>

lemma ieee_sqrt_tiny:
  assumes "is_normal x" "x div 2 ^ 52 mod 2 ^ 11 < 622"
  shows "ieee_sqrt_fx80 x = None"
proof -
  define e where "e = x div 2 ^ 52 mod 2 ^ 11 - 1023"
  define val where "val = (of_int (2 ^ 52 + x mod 2 ^ 52) / 2 ^ 52 :: rat) * pow2 e"
  have a: "0 \<le> x mod 2 ^ 52" "x mod 2 ^ 52 < 2 ^ 52" by simp_all
  have "(of_int (2 ^ 52 + x mod 2 ^ 52) :: rat) < of_int (2 ^ 53)" "(0 :: rat) < of_int (2 ^ 52 + x mod 2 ^ 52)"
    using a by (simp_all only: of_int_less_iff of_int_0_less_iff) simp_all
  then have m: "(of_int (2 ^ 52 + x mod 2 ^ 52) / 2 ^ 52 :: rat) < 2" "0 < (of_int (2 ^ 52 + x mod 2 ^ 52) / 2 ^ 52 :: rat)" by simp_all
  have "pow2 e \<le> pow2 (- 402)" unfolding pow2_powi by (rule power_int_increasing) (use assms(2) in \<open>simp_all add: e_def\<close>)
  then have p: "pow2 e \<le> 1 / 2 ^ 402" by (simp add: pow2_def push_bit_eq_mult)
  have "val < 2 * pow2 e" unfolding val_def by (rule mult_strict_right_mono [OF m(1) pow2_pos])
  moreover have "0 < val" unfolding val_def by (rule mult_pos_pos [OF m(2) pow2_pos])
  ultimately have val: "0 < val" "val < 1 / 2 ^ 401" using p by (simp_all add: field_simps)
  obtain n d where nd: "quotient_of val = (n, d)" by fastforce
  obtain i where i: "int (isqrt (nat (push_bit (200 * 2) n div d))) = i" "0 \<le> i" "of_int (i * i) \<le> val * 4 ^ 200"
    using ieee_root [OF val(1) nd, of 200] by blast
  have "of_int (i * i) < (1 :: rat)" using i(3) val(2) by simp
  then have "i * i < 1" by (simp only: of_int_less_1_iff)
  then have "i = 0" using i(2) by (smt (verit) mult_le_0_iff mult_mono)
  moreover have e: "nat (2 * (if e \<ge> 0 then e else 0) + 200) = 200" using assms(2) by (simp add: e_def)
  moreover have dec: "root_decompose x = (of_int (2 ^ 52 + x mod 2 ^ 52) / 2 ^ 52, e)" by (simp add: root_decompose_def decompose_arith e_def)
  ultimately show ?thesis
    unfolding ieee_sqrt_fx80_def Let_def dec prod.case e using nd i(1) by (simp add: val_def reference_zero)
qed

end
