(* ===== verification/Py_Base.thy ===== *)
theory Py_Base
  imports Vent_Prelude
begin

text \<open>
  The part of Python's built-in types that several modelled modules use: exceptions as values,
  text as lists of 8-bit characters (str methods, hexadecimal and decimal rendering, \<open>int(s, b)\<close>),
  and insertion-ordered dictionaries as association lists.
\<close>

subsection \<open>Exceptions\<close>

datatype py_error = KeyError | ValueError | TypeError | IndexError | AssertionError | RuntimeError
  | AttributeError | OSError | TimeoutError | EOFError | ConnectionError | StructError | SystemExit int

type_synonym 'a result = "py_error + 'a"

definition bindE :: "'a result \<Rightarrow> ('a \<Rightarrow> 'b result) \<Rightarrow> 'b result" where
  "bindE m f = (case m of Inl e \<Rightarrow> Inl e | Inr x \<Rightarrow> f x)"

lemma bindE_simps [simp]: "bindE (Inl e) f = Inl e" "bindE (Inr x) f = f x"
  by (simp_all add: bindE_def)

lemma bindE_eq_Inr: "bindE m f = Inr y \<longleftrightarrow> (\<exists>x. m = Inr x \<and> f x = Inr y)"
  by (cases m) simp_all

definition of_option :: "py_error \<Rightarrow> 'a option \<Rightarrow> 'a result" where
  "of_option e x = (case x of None \<Rightarrow> Inl e | Some y \<Rightarrow> Inr y)"

lemma of_option_simps [simp]: "of_option e None = Inl e" "of_option e (Some x) = Inr x"
  by (simp_all add: of_option_def)

fun mapE :: "('a \<Rightarrow> 'b result) \<Rightarrow> 'a list \<Rightarrow> 'b list result" where
  "mapE f [] = Inr []"
| "mapE f (x # xs) = bindE (f x) (\<lambda>y. bindE (mapE f xs) (\<lambda>ys. Inr (y # ys)))"

fun foldE :: "('s \<Rightarrow> 'a \<Rightarrow> 's result) \<Rightarrow> 's \<Rightarrow> 'a list \<Rightarrow> 's result" where
  "foldE f s [] = Inr s"
| "foldE f s (x # xs) = bindE (f s x) (\<lambda>s. foldE f s xs)"

subsection \<open>Dictionaries in insertion order\<close>

type_synonym ('k, 'v) dict = "('k \<times> 'v) list"

fun dset :: "'k \<Rightarrow> 'v \<Rightarrow> ('k, 'v) dict \<Rightarrow> ('k, 'v) dict" where
  "dset k v [] = [(k, v)]"
| "dset k v ((k', v') # d) = (if k = k' then (k, v) # d else (k', v') # dset k v d)"

lemma map_of_dset: "map_of (dset k v d) = (map_of d)(k \<mapsto> v)"
  by (induction d) auto

lemma keys_dset: "fst ` set (dset k v d) = insert k (fst ` set d)"
  by (induction d rule: dset.induct) (simp_all add: insert_commute)

lemma dset_new: "k \<notin> fst ` set d \<Longrightarrow> dset k v d = d @ [(k, v)]"
  by (induction d) auto

lemma distinct_dset: "distinct (map fst d) \<Longrightarrow> distinct (map fst (dset k v d))"
  by (induction d) (auto simp: keys_dset)

subsection \<open>Characters and text\<close>

definition is_ws :: "char \<Rightarrow> bool" where
  "is_ws c = (let n = of_char c :: nat
     in n = 32 \<or> (9 \<le> n \<and> n \<le> 13) \<or> (28 \<le> n \<and> n \<le> 31) \<or> n = 133 \<or> n = 160)"

definition lstrip :: "string \<Rightarrow> string" where "lstrip s = dropWhile is_ws s"
definition strip :: "string \<Rightarrow> string" where "strip s = rev (lstrip (rev (lstrip s)))"

definition lower_char :: "char \<Rightarrow> char" where
  "lower_char c = (let n = of_char c :: nat in if 65 \<le> n \<and> n \<le> 90 then char_of (n + 32) else c)"

definition lower :: "string \<Rightarrow> string" where "lower s = map lower_char s"

fun startswith :: "string \<Rightarrow> string \<Rightarrow> bool" where
  "startswith s [] = True"
| "startswith [] (c # p) = False"
| "startswith (d # s) (c # p) = (c = d \<and> startswith s p)"

lemma startswith_append [simp]: "startswith (p @ s) p" by (induction p) auto

lemma startswith_iff: "startswith s p \<longleftrightarrow> (\<exists>t. s = p @ t)"
  by (induction s p rule: startswith.induct) auto

fun split_at :: "char \<Rightarrow> string \<Rightarrow> string list" where
  "split_at d [] = [[]]"
| "split_at d (c # s) = (if c = d then [] # split_at d s
     else case split_at d s of w # ws \<Rightarrow> (c # w) # ws | [] \<Rightarrow> [[c]])"

lemma split_at_not_nil: "split_at d s \<noteq> []"
  by (induction s) (auto split: list.splits)

definition join :: "string \<Rightarrow> string list \<Rightarrow> string" where
  "join sep ws = (case ws of [] \<Rightarrow> [] | w # ws \<Rightarrow> w @ concat (map (\<lambda>x. sep @ x) ws))"

lemma split_join: "join [d] (split_at d s) = s"
proof (induction s)
  case (Cons c s)
  have "(@) [d] = (#) d" by auto
  then show ?case using Cons split_at_not_nil [of d s] by (auto simp: join_def split: list.splits)
qed (simp add: join_def)

subsection \<open>Digits\<close>

definition digit_char :: "int \<Rightarrow> char" where
  "digit_char k = ''0123456789abcdef'' ! nat k"

definition digit_val :: "char \<Rightarrow> int option" where
  "digit_val c = (let n = of_char c :: int
     in if 48 \<le> n \<and> n \<le> 57 then Some (n - 48)
        else if 97 \<le> n \<and> n \<le> 122 then Some (n - 87)
        else if 65 \<le> n \<and> n \<le> 90 then Some (n - 55) else None)"

function digits :: "int \<Rightarrow> int \<Rightarrow> string" where
  "digits b n = (if n < b \<or> b < 2 then [digit_char (n mod b)] else digits b (n div b) @ [digit_char (n mod b)])"
  by auto
termination
  by (relation "measure (\<lambda>(b, n). nat n)") (auto intro: int_div_less_self)

declare digits.simps [simp del]

definition dec :: "int \<Rightarrow> string" where
  "dec n = (if n < 0 then CHR ''-'' # digits 10 (- n) else digits 10 n)"

definition zfill :: "nat \<Rightarrow> string \<Rightarrow> string" where
  "zfill w s = replicate (w - length s) CHR ''0'' @ s"

definition hex_pad :: "nat \<Rightarrow> int \<Rightarrow> string" where
  "hex_pad w n = zfill w (digits 16 n)"

text \<open>\<open>int(s, base)\<close>: surrounding blanks, a sign, a \<open>0x\<close> prefix in base 16, and single underscores
  between digits.\<close>

fun scan_digits :: "int \<Rightarrow> int \<Rightarrow> bool \<Rightarrow> string \<Rightarrow> int option" where
  "scan_digits b acc ok [] = (if ok then Some acc else None)"
| "scan_digits b acc ok (c # cs) =
    (if c = CHR ''_'' then (if ok then scan_digits b acc False cs else None)
     else case digit_val c of None \<Rightarrow> None
          | Some d \<Rightarrow> if d < b then scan_digits b (acc * b + d) True cs else None)"

definition scan_unsigned :: "int \<Rightarrow> string \<Rightarrow> int option" where
  "scan_unsigned b s =
    (if b = 16 \<and> lower (take 2 s) = ''0x''
     then (if drop 2 s = [] then None else scan_digits b 0 True (drop 2 s))
     else scan_digits b 0 False s)"

definition py_int :: "int \<Rightarrow> string \<Rightarrow> int option" where
  "py_int b s =
    (case strip s of [] \<Rightarrow> None
     | c # cs \<Rightarrow> if c = CHR ''-'' then map_option uminus (scan_unsigned b cs)
                else if c = CHR ''+'' then scan_unsigned b cs
                else scan_unsigned b (c # cs))"

lemma nibble_cases:
  assumes "0 \<le> k" "k < (16 :: int)"
  shows "k = 0 \<or> k = 1 \<or> k = 2 \<or> k = 3 \<or> k = 4 \<or> k = 5 \<or> k = 6 \<or> k = 7 \<or> k = 8 \<or> k = 9 \<or>
    k = 10 \<or> k = 11 \<or> k = 12 \<or> k = 13 \<or> k = 14 \<or> k = 15"
  using assms by presburger

lemma digit_val_char: "0 \<le> k \<Longrightarrow> k < 16 \<Longrightarrow> digit_val (digit_char k) = Some k"
  by (drule (1) nibble_cases) (elim disjE; simp add: digit_val_def digit_char_def Let_def)

lemma digit_char_plain:
  assumes "0 \<le> k" "k < 16"
  shows "digit_char k \<noteq> CHR ''_''" "digit_char k \<noteq> CHR ''-''" "digit_char k \<noteq> CHR ''+''"
    "\<not> is_ws (digit_char k)" "digit_char k \<noteq> CHR ''x''" "lower_char (digit_char k) = digit_char k"
  using nibble_cases [OF assms] by (elim disjE; simp add: digit_char_def is_ws_def lower_char_def)+

lemma scan_snoc:
  "scan_digits b acc ok s = Some a \<Longrightarrow> c \<noteq> CHR ''_'' \<Longrightarrow> digit_val c = Some d \<Longrightarrow> d < b \<Longrightarrow>
    scan_digits b acc ok (s @ [c]) = Some (a * b + d)"
  by (induction s arbitrary: acc ok) (auto split: if_splits option.splits)

lemma scan_zeros: "scan_digits b 0 ok (replicate n CHR ''0'' @ s) = scan_digits b 0 (n > 0 \<or> ok) s" if "b > 0"
  using that by (induction n arbitrary: ok) (auto simp: digit_val_def)

lemma scan_digits_digits:
  assumes "0 \<le> n" "2 \<le> b" "b \<le> 16"
  shows "scan_digits b 0 ok (digits b n) = Some n"
  using assms
proof (induction b n arbitrary: ok rule: digits.induct)
  case (1 b n)
  have k: "0 \<le> n mod b" "n mod b < b" using 1 by simp_all
  then have k16: "n mod b < 16" using 1 by linarith
  note c = digit_char_plain [OF k(1) k16] digit_val_char [OF k(1) k16]
  show ?case
  proof (cases "n < b")
    case True
    then show ?thesis using c k 1 by (simp add: digits.simps [of b n])
  next
    case False
    then have "scan_digits b 0 ok (digits b (n div b)) = Some (n div b)"
      using 1 by (simp add: pos_imp_zdiv_nonneg_iff)
    from scan_snoc [OF this c(1) c(7) k(2)] show ?thesis
      using False 1 by (simp add: digits.simps [of b n])
  qed
qed

lemma digits_chars:
  assumes "c \<in> set (digits b n)" "2 \<le> b" "b \<le> 16"
  shows "\<exists>k. 0 \<le> k \<and> k < b \<and> c = digit_char k"
  using assms
proof (induction b n rule: digits.induct)
  case (1 b n)
  have k: "0 \<le> n mod b" "n mod b < b" using 1 by simp_all
  show ?case
  proof (cases "c = digit_char (n mod b)")
    case False
    then have "\<not> (n < b \<or> b < 2)" "c \<in> set (digits b (n div b))"
      using 1(2) by (subst (asm) digits.simps, auto split: if_splits)+
    then show ?thesis using 1 by blast
  qed (use k in blast)
qed

lemma digits_not_nil: "digits b n \<noteq> []" by (subst digits.simps) simp

lemma strip_plain:
  assumes "s \<noteq> []" "\<not> is_ws (hd s)" "\<not> is_ws (last s)"
  shows "strip s = s"
proof -
  have drop: "dropWhile is_ws t = t" if "t \<noteq> []" "\<not> is_ws (hd t)" for t
    using that by (cases t) auto
  show ?thesis using assms by (simp add: strip_def lstrip_def drop hd_rev)
qed

lemma digits_length:
  assumes "0 \<le> n" "n < b ^ k" "2 \<le> b" "k > 0" shows "length (digits b n) \<le> k"
  using assms
proof (induction b n arbitrary: k rule: digits.induct)
  case (1 b n)
  show ?case
  proof (cases "n < b")
    case True
    then show ?thesis using 1 by (subst digits.simps) simp
  next
    case False
    then obtain j where j: "k = Suc j" "j > 0" using 1 by (cases k; cases "k - 1") auto
    then have "n < b * b ^ j" "0 < b" using 1 by simp_all
    then have "b * (n div b) < b * b ^ j"
      using mult_div_mod_eq [of b n] pos_mod_sign [of b n] by linarith
    then have "n div b < b ^ j" using 1 by (simp only: mult_less_cancel_left_pos [OF \<open>0 < b\<close>])
    then have "length (digits b (n div b)) \<le> j" using 1 False j by (simp add: pos_imp_zdiv_nonneg_iff)
    then show ?thesis using False j 1 by (subst digits.simps) simp
  qed
qed

subsection \<open>Byte strings\<close>

text \<open>\<open>bytes.hex\<close>, \<open>bytes.fromhex\<close> and \<open>int.from_bytes(_, "little")\<close>.\<close>

definition bytes_hex :: "int list \<Rightarrow> string" where
  "bytes_hex bs = concat (map (hex_pad 2) bs)"

fun fromhex :: "string \<Rightarrow> int list option" where
  "fromhex [] = Some []"
| "fromhex (c # s) =
    (if c = CHR '' '' \<or> (let n = of_char c :: nat in 9 \<le> n \<and> n \<le> 13) then fromhex s
     else case s of [] \<Rightarrow> None
     | d # t \<Rightarrow> (case (digit_val c, digit_val d) of
         (Some x, Some y) \<Rightarrow> if x < 16 \<and> y < 16 then map_option ((#) (16 * x + y)) (fromhex t) else None
       | _ \<Rightarrow> None))"

fun from_le :: "int list \<Rightarrow> int" where
  "from_le [] = 0"
| "from_le (b # bs) = b + 256 * from_le bs"

definition is_byte :: "int \<Rightarrow> bool" where "is_byte b \<longleftrightarrow> 0 \<le> b \<and> b < 256"

lemma hex_pad_two:
  assumes "is_byte b" shows "hex_pad 2 b = [digit_char (b div 16), digit_char (b mod 16)]"
proof (cases "b < 16")
  case True
  then have "digits 16 b = [digit_char b]" "b div 16 = 0" "b mod 16 = b"
    using assms by (simp_all add: digits.simps is_byte_def)
  then show ?thesis by (simp add: hex_pad_def zfill_def digit_char_def)
next
  case False
  then have "b div 16 < 16" using assms by (simp add: is_byte_def)
  moreover have "0 \<le> b div 16" using assms by (simp add: is_byte_def pos_imp_zdiv_nonneg_iff)
  ultimately have "digits 16 b = [digit_char (b div 16), digit_char (b mod 16)]"
    using False by (subst digits.simps, subst digits.simps) simp
  then show ?thesis by (simp add: hex_pad_def zfill_def)
qed

lemma hex_digit_plain:
  assumes "0 \<le> k" "k < 16"
  shows "\<not> (digit_char k = CHR '' '' \<or> (let n = of_char (digit_char k) :: nat in 9 \<le> n \<and> n \<le> 13))"
  using nibble_cases [OF assms] by (elim disjE; simp add: digit_char_def)

lemma fromhex_bytes_hex: "\<forall>b \<in> set bs. is_byte b \<Longrightarrow> fromhex (bytes_hex bs) = Some bs"
proof (induction bs)
  case (Cons b bs)
  have b: "0 \<le> b div 16" "b div 16 < 16" "0 \<le> b mod 16" "b mod 16 < 16"
    using Cons.prems by (auto simp: is_byte_def pos_imp_zdiv_nonneg_iff)
  have "fromhex (hex_pad 2 b @ bytes_hex bs) = map_option ((#) b) (fromhex (bytes_hex bs))"
    using Cons.prems b by (simp add: hex_pad_two digit_val_char hex_digit_plain [OF b(1,2), THEN if_not_P])
  then show ?case using Cons by (simp add: bytes_hex_def)
qed (simp add: bytes_hex_def)

subsection \<open>Fixed-width fields of struct\<close>

fun to_le :: "nat \<Rightarrow> int \<Rightarrow> int list" where
  "to_le 0 v = []"
| "to_le (Suc n) v = v mod 256 # to_le n (v div 256)"

lemma to_le_length [simp]: "length (to_le n v) = n"
  by (induction n arbitrary: v) simp_all

lemma to_le_bytes: "b \<in> set (to_le n v) \<Longrightarrow> is_byte b"
  by (induction n arbitrary: v) (auto simp: is_byte_def)

lemma from_to_le: "from_le (to_le n v) = v mod 256 ^ n"
proof (induction n arbitrary: v)
  case (Suc n)
  have "v mod (256 * 256 ^ n) = 256 * (v div 256 mod 256 ^ n) + v mod 256"
    by (rule zmod_zmult2_eq) simp
  then show ?case by (simp add: Suc)
qed simp

lemma to_from_le: "\<forall>b \<in> set bs. is_byte b \<Longrightarrow> to_le (length bs) (from_le bs) = bs"
  by (induction bs) (auto simp: is_byte_def)

text \<open>A field of \<open>n\<close> little-endian bytes, refused when the value does not fit.\<close>

definition pack_le :: "nat \<Rightarrow> int \<Rightarrow> int list result" where
  "pack_le n v = (if 0 \<le> v \<and> v < 256 ^ n then Inr (to_le n v) else Inl StructError)"

lemma pack_le_ok: "pack_le n v = Inr bs \<longleftrightarrow> 0 \<le> v \<and> v < 256 ^ n \<and> bs = to_le n v"
  by (auto simp: pack_le_def)

lemma from_packed: "0 \<le> v \<Longrightarrow> v < 256 ^ n \<Longrightarrow> from_le (to_le n v) = v"
  by (simp add: from_to_le)

end
