(* ===== verification/Py_Json.thy ===== *)
theory Py_Json
  imports Py_Base
begin

text \<open>
  JSON values as Python's json module builds them, for the integers, booleans, strings, lists and
  dictionaries that the trace files hold. \<open>dumps\<close> is the compact form that tracefmt.py writes (one
  line, separators without blanks, non-printable characters escaped) and \<open>loads\<close> a parser in the
  style of json.loads. Floating-point literals and code points above 255 are outside the model:
  \<open>loads\<close> rejects them.
\<close>

datatype json = JNull | JBool bool | JInt int | JStr string | JList "json list"
  | JDict "(string \<times> json) list"

type_synonym jdict = "(string, json) dict"

definition esc_char :: "char \<Rightarrow> string" where
  "esc_char c =
    (if c = CHR 0x22 then [CHR 0x5C, CHR 0x22] else if c = CHR 0x5C then [CHR 0x5C, CHR 0x5C]
     else let n = of_char c :: int
     in if n = 10 then [CHR 0x5C, CHR ''n''] else if n = 13 then [CHR 0x5C, CHR ''r'']
        else if n = 9 then [CHR 0x5C, CHR ''t''] else if n = 12 then [CHR 0x5C, CHR ''f'']
        else if n = 8 then [CHR 0x5C, CHR ''b'']
        else if 32 \<le> n \<and> n \<le> 126 then [c]
        else [CHR 0x5C, CHR ''u''] @ hex_pad 4 n)"

definition quote_str :: "string \<Rightarrow> string" where
  "quote_str s = CHR 0x22 # concat (map esc_char s) @ [CHR 0x22]"

fun dumps :: "json \<Rightarrow> string" where
  "dumps JNull = ''null''"
| "dumps (JBool b) = (if b then ''true'' else ''false'')"
| "dumps (JInt n) = dec n"
| "dumps (JStr s) = quote_str s"
| "dumps (JList xs) = ''['' @ join '','' (map dumps xs) @ '']''"
| "dumps (JDict d) = ''{'' @ join '','' (map (\<lambda>(k, v). quote_str k @ '':'' @ dumps v) d) @ ''}''"

subsection \<open>Reading\<close>

definition skip_ws :: "string \<Rightarrow> string" where
  "skip_ws = dropWhile (\<lambda>c. c \<in> {CHR '' '', CHR 0x09, CHR 0x0A, CHR 0x0D})"

definition hex4 :: "char \<Rightarrow> char \<Rightarrow> char \<Rightarrow> char \<Rightarrow> char option" where
  "hex4 a b c d =
    (case (digit_val a, digit_val b, digit_val c, digit_val d) of
       (Some w, Some x, Some y, Some z) \<Rightarrow>
         if w = 0 \<and> x = 0 \<and> y < 16 \<and> z < 16 then Some (char_of (nat (16 * y + z))) else None
     | _ \<Rightarrow> None)"

fun p_string :: "string \<Rightarrow> (string \<times> string) option" where
  "p_string [] = None"
| "p_string (c # s) =
    (if c = CHR 0x22 then Some ([], s)
     else if c = CHR 0x5C then
       (case s of [] \<Rightarrow> None
        | e # s \<Rightarrow>
          if e = CHR ''u'' then
            (case s of h1 # h2 # h3 # h4 # s \<Rightarrow> do {
               ch \<leftarrow> hex4 h1 h2 h3 h4; (str, r) \<leftarrow> p_string s; Some (ch # str, r) }
             | _ \<Rightarrow> None)
          else do {
            ch \<leftarrow> map_of [(CHR 0x22, CHR 0x22), (CHR 0x5C, CHR 0x5C), (CHR ''/'', CHR ''/''),
                         (CHR ''b'', CHR 0x08), (CHR ''f'', CHR 0x0C), (CHR ''n'', CHR 0x0A),
                         (CHR ''r'', CHR 0x0D), (CHR ''t'', CHR 0x09)] e;
            (str, r) \<leftarrow> p_string s; Some (ch # str, r) })
     else if (of_char c :: nat) < 32 then None
     else do { (str, r) \<leftarrow> p_string s; Some (c # str, r) })"

definition is_digit :: "char \<Rightarrow> bool" where
  "is_digit c = (let n = of_char c :: nat in 48 \<le> n \<and> n \<le> 57)"

definition p_number :: "string \<Rightarrow> (int \<times> string) option" where
  "p_number s =
    (let (neg, u) = (case s of c # t \<Rightarrow> if c = CHR ''-'' then (True, t) else (False, s) | [] \<Rightarrow> (False, s));
         ds = takeWhile is_digit u; r = dropWhile is_digit u;
         (ds, r) = (if hd ds = CHR ''0'' then (take 1 ds, drop 1 u) else (ds, r))
     in if ds = [] \<or> (r \<noteq> [] \<and> hd r \<in> set ''.eE'') then None
        else map_option (\<lambda>n. (if neg then - n else n, r)) (scan_digits 10 0 False ds))"

fun p_value :: "nat \<Rightarrow> string \<Rightarrow> (json \<times> string) option"
  and p_elems :: "nat \<Rightarrow> string \<Rightarrow> (json list \<times> string) option"
  and p_pairs :: "nat \<Rightarrow> (string, json) dict \<Rightarrow> string \<Rightarrow> ((string, json) dict \<times> string) option" where
  "p_value 0 s = None"
| "p_value (Suc f) s =
    (if startswith s ''null'' then Some (JNull, drop 4 s)
     else if startswith s ''true'' then Some (JBool True, drop 4 s)
     else if startswith s ''false'' then Some (JBool False, drop 5 s)
     else case s of [] \<Rightarrow> None
     | c # t \<Rightarrow>
       if c = CHR 0x22 then map_option (\<lambda>(str, r). (JStr str, r)) (p_string t)
       else if c = CHR ''['' then
         (if startswith (skip_ws t) '']'' then Some (JList [], drop 1 (skip_ws t))
          else map_option (\<lambda>(xs, r). (JList xs, r)) (p_elems f (skip_ws t)))
       else if c = CHR ''{'' then
         (if startswith (skip_ws t) ''}'' then Some (JDict [], drop 1 (skip_ws t))
          else map_option (\<lambda>(d, r). (JDict d, r)) (p_pairs f [] (skip_ws t)))
       else map_option (\<lambda>(n, r). (JInt n, r)) (p_number s))"
| "p_elems 0 s = None"
| "p_elems (Suc f) s = do {
     (x, r) \<leftarrow> p_value f s;
     case skip_ws r of [] \<Rightarrow> None
     | c # r \<Rightarrow> if c = CHR '']'' then Some ([x], r)
       else if c = CHR '','' then do { (xs, r) \<leftarrow> p_elems f (skip_ws r); Some (x # xs, r) }
       else None }"
| "p_pairs 0 d s = None"
| "p_pairs (Suc f) d s =
    (case s of [] \<Rightarrow> None
     | q # s \<Rightarrow> if q \<noteq> CHR 0x22 then None else do {
         (k, r) \<leftarrow> p_string s;
         case skip_ws r of [] \<Rightarrow> None
         | c # r \<Rightarrow> if c \<noteq> CHR '':'' then None else do {
             (v, r) \<leftarrow> p_value f (skip_ws r);
             let d = dset k v d;
             case skip_ws r of [] \<Rightarrow> None
             | c # r \<Rightarrow> if c = CHR ''}'' then Some (d, r)
               else if c = CHR '','' then p_pairs f d (skip_ws r) else None } })"

text \<open>The fuel: of two nested calls at least one consumes a character.\<close>

definition loads :: "string \<Rightarrow> json result" where
  "loads s =
    (case p_value (2 * length s + 2) (skip_ws s) of
       Some (v, r) \<Rightarrow> if skip_ws r = [] then Inr v else Inl ValueError
     | None \<Rightarrow> Inl ValueError)"


subsection \<open>Reading back what was written\<close>

lemma char_range: "(of_char (c :: char) :: int) < 256" "(of_char c :: int) \<ge> 0"
  using nat_of_char_less_256 [of c] of_nat_of_char [of c, where 'a = int] by linarith+

lemma hex4_digits:
  assumes "0 \<le> n" "n < 256"
  shows "\<exists>a b c d. hex_pad 4 n = [a, b, c, d] \<and> hex4 a b c d = Some (char_of (nat n))"
proof -
  have 0: "digit_val CHR ''0'' = Some 0" by (simp add: digit_val_def)
  have lo: "digit_val (digit_char (n mod 16)) = Some (n mod 16)" by (rule digit_val_char) simp_all
  have hi: "digit_val (digit_char (n div 16 mod 16)) = Some (n div 16 mod 16)" by (rule digit_val_char) simp_all
  show ?thesis
  proof (cases "n < 16")
    case True
    then have "hex_pad 4 n = [CHR ''0'', CHR ''0'', CHR ''0'', digit_char (n mod 16)]"
      by (simp add: hex_pad_def zfill_def digits.simps numeral_nat)
    then show ?thesis using True assms lo by (auto simp: hex4_def 0)
  next
    case False
    have d: "n div 16 < 16" using assms by linarith
    then have "hex_pad 4 n = [CHR ''0'', CHR ''0'', digit_char (n div 16 mod 16), digit_char (n mod 16)]"
      using False by (simp add: hex_pad_def zfill_def digits.simps [of 16 n] digits.simps [of 16 "n div 16"] numeral_nat)
    moreover have "n div 16 mod 16 = n div 16" using d assms by (intro mod_pos_pos_trivial) simp_all
    ultimately show ?thesis using assms lo hi by (auto simp: hex4_def 0)
  qed
qed

lemma p_string_esc: "p_string (esc_char c @ s) = map_option (\<lambda>(str, r). (c # str, r)) (p_string s)"
proof -
  define n where "n = (of_char c :: int)"
  have c: "c = char_of (nat n)" by (simp add: n_def)
  have nat: "(of_char c :: nat) = nat n" by (simp add: n_def)
  have small: ?thesis if "n = 10 \<or> n = 13 \<or> n = 9 \<or> n = 12 \<or> n = 8 \<or> n = 34 \<or> n = 92"
    using that unfolding c
    by (elim disjE) (simp_all add: esc_char_def char_of_def bit_0 bind_map_option map_option_case split: option.splits)
  have plain: ?thesis if "32 \<le> n" "n \<le> 126" "n \<noteq> 34" "n \<noteq> 92"
  proof -
    have "c \<noteq> CHR 0x22" "c \<noteq> CHR 0x5C" using that by (auto simp: n_def)
    moreover have "\<not> (of_char c :: nat) < 32" using that nat by simp
    moreover have "esc_char c = [c]" using that calculation by (simp add: esc_char_def Let_def flip: n_def)
    ultimately show ?thesis by (cases "p_string s") auto
  qed
  have escaped: ?thesis if "\<not> (32 \<le> n \<and> n \<le> 126)" "n \<notin> {10, 13, 9, 12, 8}"
  proof -
    have "c \<noteq> CHR 0x22" "c \<noteq> CHR 0x5C" using that by (auto simp: n_def)
    then have e: "esc_char c = [CHR 0x5C, CHR ''u''] @ hex_pad 4 n"
      using that by (simp add: esc_char_def Let_def flip: n_def)
    have "0 \<le> n" "n < 256" unfolding n_def by (rule char_range)+
    then obtain w x y z where "hex_pad 4 n = [w, x, y, z]" "hex4 w x y z = Some c"
      unfolding c using hex4_digits by blast
    then show ?thesis unfolding e by (cases "p_string s") auto
  qed
  consider "n = 10 \<or> n = 13 \<or> n = 9 \<or> n = 12 \<or> n = 8 \<or> n = 34 \<or> n = 92"
    | "32 \<le> n" "n \<le> 126" "n \<noteq> 34" "n \<noteq> 92"
    | "\<not> (32 \<le> n \<and> n \<le> 126)" "n \<notin> {10, 13, 9, 12, 8}" by blast
  then show ?thesis
  proof cases
    case 1 then show ?thesis by (rule small)
  next
    case 2 then show ?thesis by (rule plain)
  next
    case 3 then show ?thesis by (rule escaped)
  qed
qed

lemma p_string_quoted: "p_string (concat (map esc_char s) @ CHR 0x22 # r) = Some (s, r)"
  by (induction s) (simp_all add: p_string_esc)

definition rest_ok :: "string \<Rightarrow> bool" where
  "rest_ok r \<longleftrightarrow> r = [] \<or> hd r \<in> {CHR '','', CHR '']'', CHR ''}'', CHR 0x0A}"

lemma digit_char_decimal:
  assumes "0 \<le> k" "k < 10"
  shows "is_digit (digit_char k)" "digit_char k \<notin> set ''{[ntf''" "digit_char k \<noteq> CHR 0x22"
    "digit_char k = CHR ''0'' \<longleftrightarrow> k = 0"
proof -
  have "k = 0 \<or> k = 1 \<or> k = 2 \<or> k = 3 \<or> k = 4 \<or> k = 5 \<or> k = 6 \<or> k = 7 \<or> k = 8 \<or> k = 9"
    using assms by presburger
  then show "is_digit (digit_char k)" "digit_char k \<notin> set ''{[ntf''" "digit_char k \<noteq> CHR 0x22"
    "digit_char k = CHR ''0'' \<longleftrightarrow> k = 0"
    by (elim disjE; simp add: is_digit_def digit_char_def)+
qed

lemma digits_hd:
  assumes "0 \<le> n"
  shows "hd (digits 10 n) = CHR ''0'' \<longleftrightarrow> n = 0"
  using assms
proof (induction "10 :: int" n rule: digits.induct)
  case (1 n)
  show ?case
  proof (cases "n < 10")
    case True
    then show ?thesis using 1(2) digit_char_decimal(4) [of n] by (simp add: digits.simps [of 10 n])
  next
    case False
    then have "hd (digits 10 (n div 10)) \<noteq> CHR ''0''" using 1 by (simp add: pos_imp_zdiv_nonneg_iff)
    then show ?thesis using False by (simp add: digits.simps [of 10 n] digits_not_nil hd_append)
  qed
qed

lemma p_number_dec:
  assumes "rest_ok r"
  shows "p_number (dec n @ r) = Some (n, r)"
proof -
  have u: "p_number (digits 10 m @ r) = Some (m, r) \<and> p_number (CHR ''-'' # digits 10 m @ r) = Some (- m, r)"
    if m: "0 \<le> m" for m
  proof -
    have dig: "\<forall>c \<in> set (digits 10 m). is_digit c"
      using digits_chars [of _ 10 m] digit_char_decimal(1) by fastforce
    have r: "takeWhile is_digit r = []" "dropWhile is_digit r = r" "r = [] \<or> hd r \<notin> set ''.eE''"
      using assms by (cases r; auto simp: rest_ok_def is_digit_def)+
    have tw: "takeWhile is_digit (digits 10 m @ r) = digits 10 m" "dropWhile is_digit (digits 10 m @ r) = r"
      using dig r by (simp_all add: takeWhile_append2 dropWhile_append2)
    have zero: "take 1 (digits 10 m) = digits 10 m" "drop 1 (digits 10 m @ r) = r"
      if "hd (digits 10 m) = CHR ''0''"
    proof -
      have "m = 0" using that m by (simp only: digits_hd)
      then show "take 1 (digits 10 m) = digits 10 m" "drop 1 (digits 10 m @ r) = r"
        by (simp_all add: digits.simps)
    qed
    have sc: "scan_digits 10 0 False (digits 10 m) = Some m" using m by (intro scan_digits_digits) simp_all
    obtain c t where ct: "digits 10 m @ r = c # t" "c \<noteq> CHR ''-''"
    proof -
      have "hd (digits 10 m) \<in> set (digits 10 m)" by (simp add: digits_not_nil)
      then have "is_digit (hd (digits 10 m))" using dig by blast
      moreover have "\<not> is_digit CHR ''-''" by (simp add: is_digit_def)
      ultimately show thesis using that [of "hd (digits 10 m)" "tl (digits 10 m) @ r"] digits_not_nil [of 10 m]
        by (cases "digits 10 m") auto
    qed
    have split: "(case digits 10 m @ r of [] \<Rightarrow> (False, digits 10 m @ r)
        | c # t \<Rightarrow> if c = CHR ''-'' then (True, t) else (False, digits 10 m @ r)) = (False, digits 10 m @ r)"
      using ct by simp
    show ?thesis
      using zero r(3) digits_not_nil [of 10 m] unfolding p_number_def split
      by (simp add: tw sc Let_def)
  qed
  show ?thesis using u [of n] u [of "- n"] by (simp add: dec_def)
qed

text \<open>Values whose dictionaries have no repeated key, and the fuel that reading one takes.\<close>

fun json_ok :: "json \<Rightarrow> bool" where
  "json_ok (JList xs) = list_all json_ok xs"
| "json_ok (JDict d) = (distinct (map fst d) \<and> list_all (\<lambda>(k, v). json_ok v) d)"
| "json_ok _ = True"

fun need :: "json \<Rightarrow> nat" where
  "need (JList xs) = Suc (\<Sum>x \<leftarrow> xs. need x + 1)"
| "need (JDict d) = Suc (\<Sum>(k, v) \<leftarrow> d. need v + 1)"
| "need _ = 1"

lemma p_value_head:
  assumes "c \<notin> set ''ntf''"
  shows "p_value (Suc f) (c # t) =
      (if c = CHR 0x22 then map_option (\<lambda>(str, r). (JStr str, r)) (p_string t)
       else if c = CHR ''['' then
         (if startswith (skip_ws t) '']'' then Some (JList [], drop 1 (skip_ws t))
          else map_option (\<lambda>(xs, r). (JList xs, r)) (p_elems f (skip_ws t)))
       else if c = CHR ''{'' then
         (if startswith (skip_ws t) ''}'' then Some (JDict [], drop 1 (skip_ws t))
          else map_option (\<lambda>(d, r). (JDict d, r)) (p_pairs f [] (skip_ws t)))
       else map_option (\<lambda>(n, r). (JInt n, r)) (p_number (c # t)))"
proof -
  have "\<not> startswith (c # t) ''null''" "\<not> startswith (c # t) ''true''" "\<not> startswith (c # t) ''false''"
    using assms by auto
  then show ?thesis by (simp only: p_value.simps if_False list.case)
qed

lemma dec_head: "\<exists>c t. dec n = c # t \<and> c \<notin> set ''{[ntf'' \<and> c \<noteq> CHR 0x22"
proof -
  have "\<exists>c t. digits 10 m = c # t \<and> c \<notin> set ''{[ntf'' \<and> c \<noteq> CHR 0x22" for m
  proof -
    obtain c t where ct: "digits 10 m = c # t" using digits_not_nil by (meson neq_Nil_conv)
    then obtain k where "0 \<le> k" "k < 10" "c = digit_char k" using digits_chars [of c 10 m] by auto
    then show ?thesis using ct digit_char_decimal [of k] by simp
  qed
  then show ?thesis by (auto simp: dec_def)
qed

lemma skip_ws_head: "c \<notin> {CHR '' '', CHR 0x09, CHR 0x0A, CHR 0x0D} \<Longrightarrow> skip_ws (c # t) = c # t"
  by (simp add: skip_ws_def)

lemma dumps_head: "\<exists>c t. dumps j = c # t \<and> c \<notin> {CHR '' '', CHR 0x09, CHR 0x0A, CHR 0x0D, CHR '']'', CHR ''}''}"
proof (cases j)
  case (JInt n)
  obtain c t where "dec n = c # t" "c = CHR ''-'' \<or> (\<exists>k. 0 \<le> k \<and> k < 10 \<and> c = digit_char k)"
  proof (cases "n < 0")
    case False
    obtain c t where "digits 10 n = c # t" using digits_not_nil by (meson neq_Nil_conv)
    then show thesis using False digits_chars [of c 10 n] that [of c t] by (simp add: dec_def)
  qed (simp add: dec_def)
  moreover have "digit_char k \<notin> {CHR '' '', CHR 0x09, CHR 0x0A, CHR 0x0D, CHR '']'', CHR ''}''}"
    if "0 \<le> k" "k < 10" for k
    using nibble_cases [of k] that by (auto simp: digit_char_def)
  ultimately show ?thesis using JInt by auto
qed (auto simp: quote_str_def)

lemma skip_dumps [simp]: "skip_ws (dumps j @ r) = dumps j @ r"
  using dumps_head [of j] by (auto simp: skip_ws_head)

lemma skip_quote [simp]: "skip_ws (quote_str k @ r) = quote_str k @ r"
  by (simp add: quote_str_def skip_ws_head)

lemma join_Cons: "join sep (w # ws) = (if ws = [] then w else w @ sep @ join sep ws)"
  by (cases ws) (auto simp: join_def)

lemma read_elems:
  assumes "\<And>x f r. x \<in> set xs \<Longrightarrow> need x \<le> f \<Longrightarrow> rest_ok r \<Longrightarrow> p_value f (dumps x @ r) = Some (x, r)"
    and "xs \<noteq> []" "(\<Sum>x \<leftarrow> xs. need x + 1) \<le> f"
  shows "p_elems f (join '','' (map dumps xs) @ CHR '']'' # r) = Some (xs, r)"
  using assms
proof (induction xs arbitrary: f)
  case (Cons x xs)
  obtain g where g: "f = Suc g" using Cons.prems(3) by (cases f) auto
  have v: "p_value g (dumps x @ c # t) = Some (x, c # t)" if "c \<in> {CHR '','', CHR '']''}" for c t
    using Cons.prems(1) [of x g "c # t"] Cons.prems(3) that g by (auto simp: rest_ok_def)
  have ws: "skip_ws (c # t) = c # t" if "c \<in> {CHR '','', CHR '']''}" for c t
    using that by (auto simp: skip_ws_head)
  show ?case
  proof (cases "xs = []")
    case True
    then show ?thesis using v by (simp add: g join_Cons ws)
  next
    case False
    then have "p_elems g (join '','' (map dumps xs) @ CHR '']'' # r) = Some (xs, r)"
      using Cons.IH [of g] Cons.prems g by auto
    moreover have "skip_ws (join '','' (map dumps xs) @ t) = join '','' (map dumps xs) @ t" for t
      using False by (cases xs) (simp_all add: join_Cons)
    ultimately show ?thesis using v False by (simp add: g join_Cons ws)
  qed
qed simp

lemma read_pairs:
  assumes "\<And>k v f r. (k, v) \<in> set d \<Longrightarrow> need v \<le> f \<Longrightarrow> rest_ok r \<Longrightarrow> p_value f (dumps v @ r) = Some (v, r)"
    and "d \<noteq> []" "(\<Sum>(k, v) \<leftarrow> d. need v + 1) \<le> f" "distinct (map fst (acc @ d))"
  shows "p_pairs f acc (join '','' (map (\<lambda>(k, v). quote_str k @ '':'' @ dumps v) d) @ CHR ''}'' # r) = Some (acc @ d, r)"
  using assms
proof (induction d arbitrary: f acc)
  case (Cons kv d)
  obtain k v where kv: "kv = (k, v)" by (cases kv)
  obtain g where g: "f = Suc g" using Cons.prems(3) kv by (cases f) auto
  have val: "p_value g (dumps v @ c # t) = Some (v, c # t)" if "c \<in> {CHR '','', CHR ''}''}" for c t
    using Cons.prems(1) [of k v g "c # t"] Cons.prems(3) that g kv by (auto simp: rest_ok_def)
  have ws: "skip_ws (c # t) = c # t" if "c \<in> {CHR '','', CHR ''}'', CHR '':''}" for c t
    using that by (auto simp: skip_ws_head)
  have "k \<notin> fst ` set acc" using Cons.prems(4) kv by auto
  then have set: "dset k v acc = acc @ [(k, v)]" by (rule dset_new)
  show ?case
  proof (cases "d = []")
    case True
    then show ?thesis using val
      by (simp add: g kv join_Cons ws quote_str_def p_string_quoted set)
  next
    case False
    then have "p_pairs g (acc @ [(k, v)]) (join '','' (map (\<lambda>(k, v). quote_str k @ '':'' @ dumps v) d) @ CHR ''}'' # r)
        = Some ((acc @ [(k, v)]) @ d, r)"
      using Cons.prems g kv by (intro Cons.IH) auto
    moreover have "skip_ws (join '','' (map (\<lambda>(k, v). quote_str k @ '':'' @ dumps v) d) @ t) =
        join '','' (map (\<lambda>(k, v). quote_str k @ '':'' @ dumps v) d) @ t" for t
      using False by (cases d) (auto simp: join_Cons)
    ultimately show ?thesis using val False
      by (simp add: g kv join_Cons ws quote_str_def p_string_quoted set)
  qed
qed simp

lemma read_value: "json_ok j \<Longrightarrow> need j \<le> f \<Longrightarrow> rest_ok r \<Longrightarrow> p_value f (dumps j @ r) = Some (j, r)"
proof (induction j arbitrary: f r)
  case (JList xs)
  obtain g where g: "f = Suc g" using JList.prems by (cases f) auto
  have el: "p_elems g (join '','' (map dumps xs) @ CHR '']'' # r) = Some (xs, r)" if "xs \<noteq> []"
    using JList that g by (intro read_elems) (auto simp: list_all_iff)
  show ?case
  proof (cases xs)
    case Nil
    then show ?thesis by (simp add: g p_value_head skip_ws_head join_def)
  next
    case (Cons x ys)
    obtain c t where ct: "dumps x = c # t" "c \<noteq> CHR '']''" using dumps_head [of x] by auto
    have ws: "skip_ws (join '','' (map dumps xs) @ t) = join '','' (map dumps xs) @ t" for t
      using Cons by (simp add: join_Cons)
    have "\<not> startswith (join '','' (map dumps xs) @ t') '']''" for t'
      using Cons ct by (simp add: join_Cons)
    moreover have "xs \<noteq> []" using Cons by simp
    ultimately show ?thesis using el by (simp add: g p_value_head ws del: startswith.simps p_value.simps)
  qed
next
  case (JDict d)
  obtain g where g: "f = Suc g" using JDict.prems by (cases f) auto
  let ?items = "join '','' (map (\<lambda>(k, v). quote_str k @ '':'' @ dumps v) d)"
  have el: "p_pairs g [] (?items @ CHR ''}'' # r) = Some ([] @ d, r)" if "d \<noteq> []"
    using JDict that g by (intro read_pairs) (fastforce simp: list_all_iff)+
  show ?case
  proof (cases d)
    case Nil
    then show ?thesis by (simp add: g p_value_head skip_ws_head join_def)
  next
    case (Cons x ys)
    have ws: "skip_ws (?items @ t) = ?items @ t" for t
      using Cons by (auto simp: join_Cons split: prod.splits)
    have "\<not> startswith (?items @ t') ''}''" for t'
      using Cons by (auto simp: join_Cons quote_str_def split: prod.splits)
    moreover have "d \<noteq> []" using Cons by simp
    ultimately show ?thesis using el ws by (simp add: g p_value_head del: startswith.simps p_value.simps)
  qed
next
  case (JInt n)
  obtain c t where ct: "dec n = c # t" "c \<notin> set ''{[ntf''" "c \<noteq> CHR 0x22" using dec_head by blast
  obtain g where g: "f = Suc g" using JInt.prems by (cases f) auto
  have "c \<notin> set ''ntf''" "c \<noteq> CHR ''[''" "c \<noteq> CHR ''{''" using ct(2) by auto
  then have "p_value f (dumps (JInt n) @ r) = map_option (\<lambda>(n, r). (JInt n, r)) (p_number (dec n @ r))"
    using ct unfolding g by (simp add: p_value_head del: p_value.simps)
  then show ?case using p_number_dec JInt.prems by simp
next
  case (JStr s)
  then show ?case by (cases f) (simp_all add: p_value_head quote_str_def p_string_quoted)
next
  case JNull
  then show ?case by (cases f) simp_all
next
  case (JBool b)
  then show ?case by (cases f) simp_all
qed

lemma need_bound: "need j \<le> 2 * length (dumps j)"
proof (induction j)
  case (JInt n)
  then show ?case using dec_head [of n] by auto
next
  case (JList xs)
  have "(\<Sum>x \<leftarrow> ys. need x + 1) \<le> 2 * length (join '','' (map dumps ys)) + 1" if "set ys \<subseteq> set xs" for ys
    using that
  proof (induction ys)
    case (Cons y ys)
    then have "need y \<le> 2 * length (dumps y)" using JList by auto
    then show ?case using Cons by (auto simp: join_Cons)
  qed simp
  from this [of xs] show ?case by simp
next
  case (JDict d)
  have "(\<Sum>(k, v) \<leftarrow> e. need v + 1) \<le> 2 * length (join '','' (map (\<lambda>(k, v). quote_str k @ '':'' @ dumps v) e)) + 1"
    if "set e \<subseteq> set d" for e
    using that
  proof (induction e)
    case (Cons y e)
    then have "need (snd y) \<le> 2 * length (dumps (snd y))" using JDict by (cases y) auto
    then show ?case using Cons by (cases y) (auto simp: join_Cons)
  qed simp
  from this [of d] show ?case by simp
qed (auto simp: quote_str_def)

text \<open>A line may end in a newline, as it does in a file.\<close>

lemma loads_dumps:
  assumes "json_ok j" "r = [] \<or> r = [CHR 0x0A]"
  shows "loads (dumps j @ r) = Inr j"
proof -
  have "p_value (2 * length (dumps j @ r) + 2) (dumps j @ r) = Some (j, r)"
    using assms need_bound [of j] by (intro read_value) (auto simp: rest_ok_def)
  moreover have "skip_ws r = []" using assms(2) by (auto simp: skip_ws_def)
  ultimately show ?thesis by (simp add: loads_def)
qed

end
