(* ===== verification/Trace_Format.thy ===== *)
theory Trace_Format
  imports Py_Json
begin

text \<open>
  The trace format of verif/diff/tracefmt.py: field names and widths, EFLAGS masks, hexadecimal
  fields, the record builders, and the reader. Keyword arguments that a builder takes are optional
  fields of a record; the shapes that the docstrings state for \<open>reads\<close>, \<open>writes\<close> and the register
  dictionaries are types here.
\<close>

definition VERSION :: int where "VERSION = 1"

definition GPR_KEYS :: "string list" where
  "GPR_KEYS = [''eax'', ''ecx'', ''edx'', ''ebx'', ''esp'', ''ebp'', ''esi'', ''edi'']"
definition SEG_KEYS :: "string list" where
  "SEG_KEYS = [''cs'', ''ss'', ''ds'', ''es'', ''fs'', ''gs'']"
definition X87_REGS :: "string list" where
  "X87_REGS = map (\<lambda>i. ''st'' @ dec i) [0, 1, 2, 3, 4, 5, 6, 7]"
definition X87_CTL :: "string list" where
  "X87_CTL = [''fctrl'', ''fstat'', ''ftag'', ''fop'', ''fioff'', ''fooff'', ''fiseg'', ''foseg'']"
definition SYS_CR :: "string list" where
  "SYS_CR = [''cr0'', ''cr2'', ''cr3'', ''cr4'']"
definition SEG_HIDDEN_SUFFIX :: "string list" where
  "SEG_HIDDEN_SUFFIX = [''base'', ''limit'', ''attr'']"
definition SYS_SEG_HIDDEN :: "string list" where
  "SYS_SEG_HIDDEN = concat (map (\<lambda>s. map (\<lambda>suf. s @ ''_'' @ suf) SEG_HIDDEN_SUFFIX) SEG_KEYS)"

definition dupdate :: "('k, 'v) dict \<Rightarrow> ('k, 'v) dict \<Rightarrow> ('k, 'v) dict" where
  "dupdate d e = foldl (\<lambda>d (k, v). dset k v d) d e"

definition WIDTH :: "(string, nat) dict" where
  "WIDTH =
    (let w = map (\<lambda>k. (k, 32)) GPR_KEYS;
         w = dupdate w (map (\<lambda>k. (k, 16)) SEG_KEYS);
         w = dset ''eflags'' 32 w;
         w = dupdate w (map (\<lambda>k. (k, 80)) X87_REGS);
         w = dupdate w [(''fctrl'', 16), (''fstat'', 16), (''ftag'', 16), (''fop'', 16),
                        (''fioff'', 32), (''fooff'', 32), (''fiseg'', 16), (''foseg'', 16)];
         w = dset ''pc'' 32 w;
         w = dupdate w (map (\<lambda>k. (k, 32)) SYS_CR);
         w = dupdate w (map (\<lambda>s. (s @ ''_base'', 32)) SEG_KEYS);
         w = dupdate w (map (\<lambda>s. (s @ ''_limit'', 32)) SEG_KEYS);
         w = dupdate w (map (\<lambda>s. (s @ ''_attr'', 16)) SEG_KEYS)
     in w)"

definition EFLAGS_DEFAULT_MASK :: int where "EFLAGS_DEFAULT_MASK = 0x003F7FD5"

definition EFLAGS_UNDEFINED :: "(string \<times> int) list" where
  "EFLAGS_UNDEFINED =
    [(''mul'', 0x0D4), (''imul'', 0x0D4), (''div'', 0x8D5), (''idiv'', 0x8D5),
     (''shl'', 0x810), (''shr'', 0x810), (''sar'', 0x810), (''sal'', 0x810),
     (''shld'', 0x810), (''shrd'', 0x810),
     (''rol'', 0x800), (''ror'', 0x800), (''rcl'', 0x800), (''rcr'', 0x800),
     (''bt'', 0x894), (''bsf'', 0x895), (''bsr'', 0x895),
     (''aaa'', 0x8C4), (''aas'', 0x8C4), (''aam'', 0x811), (''aad'', 0x811),
     (''daa'', 0x800), (''das'', 0x800)]"

subsection \<open>Hexadecimal fields\<close>

definition hx :: "int \<Rightarrow> nat \<Rightarrow> string" where
  "hx val bits = ''0x'' @ hex_pad ((bits + 3) div 4) (val AND (push_bit bits 1 - 1))"

definition h32 :: "int \<Rightarrow> string" where "h32 v = hx v 32"
definition h16 :: "int \<Rightarrow> string" where "h16 v = hx v 16"
definition h80 :: "int \<Rightarrow> string" where "h80 v = hx v 80"

definition parse_hex :: "json \<Rightarrow> int result" where
  "parse_hex s =
    (case s of JInt n \<Rightarrow> Inr n | JBool b \<Rightarrow> Inr (of_bool b)
     | JStr t \<Rightarrow> of_option ValueError (py_int 16 t) | _ \<Rightarrow> Inl TypeError)"

subsection \<open>Header and record builders\<close>

definition header :: "string \<Rightarrow> string \<Rightarrow> bool \<Rightarrow> bool \<Rightarrow> string \<Rightarrow> jdict result" where
  "header producer mode x87 sys note =
    (if mode \<notin> {''func'', ''cycle''} then Inl AssertionError
     else let h = [(''vtrace'', JInt VERSION), (''producer'', JStr producer), (''mode'', JStr mode),
                   (''x87'', JBool x87), (''note'', JStr note)]
          in Inr (if sys then dset ''sys'' (JBool True) h else h))"

record dev_access =
  dev_addr :: int
  dev_val :: int
  dev_size :: int
  dev_region :: "string option"

definition access_record :: "dev_access \<Rightarrow> json" where
  "access_record r = JDict [(''addr'', JInt (dev_addr r)), (''val'', JInt (dev_val r)),
     (''size'', JInt (dev_size r)), (''region'', JStr (case dev_region r of None \<Rightarrow> [] | Some s \<Rightarrow> s))]"

definition dev_in_field :: "dev_access list option \<Rightarrow> json list" where
  "dev_in_field reads = map access_record (case reads of None \<Rightarrow> [] | Some rs \<Rightarrow> rs)"

definition dma_wr_field :: "dev_access list option \<Rightarrow> json list" where
  "dma_wr_field writes = map access_record (case writes of None \<Rightarrow> [] | Some ws \<Rightarrow> ws)"

definition opt_field :: "string \<Rightarrow> json option \<Rightarrow> jdict \<Rightarrow> jdict" where
  "opt_field k v d = (case v of None \<Rightarrow> d | Some x \<Rightarrow> dset k x d)"

definition intr_field ::
  "int \<Rightarrow> int option \<Rightarrow> bool option \<Rightarrow> int option \<Rightarrow> string option \<Rightarrow> string option \<Rightarrow> jdict" where
  "intr_field vec err soft cpl ip sp =
    (let d = [(''vec'', JInt vec)];
         d = opt_field ''err'' (map_option JInt err) d;
         d = opt_field ''soft'' (map_option JBool soft) d;
         d = opt_field ''cpl'' (map_option JInt cpl) d;
         d = opt_field ''ip'' (map_option JStr ip) d
     in opt_field ''sp'' (map_option JStr sp) d)"

text \<open>Text or a byte string, where a builder takes both.\<close>

datatype hex_bytes = HexText string | RawBytes "int list"

definition hex_text :: "hex_bytes \<Rightarrow> string" where
  "hex_text b = (case b of HexText s \<Rightarrow> s | RawBytes bs \<Rightarrow> bytes_hex bs)"

datatype sys_write = ZeroRegion int int | BytesAt int hex_bytes

definition sys_write_record :: "sys_write \<Rightarrow> json" where
  "sys_write_record w = (case w of
     ZeroRegion addr len \<Rightarrow> JDict [(''addr'', JStr (h32 addr)), (''len'', JInt len), (''zero'', JBool True)]
   | BytesAt addr b \<Rightarrow> JDict [(''addr'', JStr (h32 addr)), (''hex'', JStr (lower (hex_text b)))])"

definition sys_call_field :: "int \<Rightarrow> int \<Rightarrow> sys_write list option \<Rightarrow> int option \<Rightarrow> jdict" where
  "sys_call_field nr ret writes gs_base =
    (let w_out = map sys_write_record (case writes of None \<Rightarrow> [] | Some ws \<Rightarrow> ws);
         sc = [(''nr'', JInt nr), (''ret'', JStr (h32 ret)), (''writes'', JList w_out)]
     in opt_field ''gs_base'' (map_option (\<lambda>g. JStr (h32 g)) gs_base) sc)"

record func_opts =
  fo_bytes :: "hex_bytes option"
  fo_exc :: "int option"
  fo_x87 :: "(string, int) dict option"
  fo_sysregs :: "(string, int) dict option"
  fo_sys_call :: "jdict option"
  fo_dev_in :: "json list option"
  fo_intr :: "jdict option"
  fo_dma_wr :: "json list option"

definition no_opts :: func_opts where
  "no_opts = \<lparr> fo_bytes = None, fo_exc = None, fo_x87 = None, fo_sysregs = None, fo_sys_call = None,
     fo_dev_in = None, fo_intr = None, fo_dma_wr = None \<rparr>"

definition set_reg :: "(string \<Rightarrow> int \<Rightarrow> string) \<Rightarrow> (string, int) dict \<Rightarrow> jdict \<Rightarrow> string \<Rightarrow> jdict result" where
  "set_reg f regs r k = bindE (of_option KeyError (map_of regs k)) (\<lambda>v. Inr (dset k (JStr (f k v)) r))"

definition hx_width :: "string \<Rightarrow> int \<Rightarrow> string" where
  "hx_width k v = hx v (the (map_of WIDTH k))"

definition set_present :: "(string \<Rightarrow> int \<Rightarrow> string) \<Rightarrow> (string, int) dict \<Rightarrow> jdict \<Rightarrow> string \<Rightarrow> jdict" where
  "set_present f regs r k = (case map_of regs k of None \<Rightarrow> r | Some v \<Rightarrow> dset k (JStr (f k v)) r)"

definition nonempty :: "json list option \<Rightarrow> json option" where
  "nonempty l = (case l of None \<Rightarrow> None | Some [] \<Rightarrow> None | Some xs \<Rightarrow> Some (JList xs))"

definition func_record ::
  "int \<Rightarrow> int \<Rightarrow> int \<Rightarrow> (string, int) dict \<Rightarrow> (string, int) dict \<Rightarrow> func_opts \<Rightarrow> jdict result" where
  "func_record n pc eflags gpr seg opts =
    bindE (foldE (set_reg (\<lambda>k. h32) gpr) [(''n'', JInt n), (''pc'', JStr (h32 pc)), (''eflags'', JStr (h32 eflags))] GPR_KEYS)
    (\<lambda>r. bindE (foldE (set_reg (\<lambda>k. h16) seg) r SEG_KEYS)
    (\<lambda>r. let r = opt_field ''bytes'' (map_option (\<lambda>b. JStr (hex_text b)) (fo_bytes opts)) r;
              r = opt_field ''exc'' (map_option JInt (fo_exc opts)) r
    in bindE (case fo_x87 opts of None \<Rightarrow> Inr r
              | Some x87 \<Rightarrow> bindE (foldE (set_reg (\<lambda>k. h80) x87) r X87_REGS)
                  (\<lambda>r. foldE (set_reg hx_width x87) r X87_CTL))
    (\<lambda>r. let r = (case fo_sysregs opts of None \<Rightarrow> r
                   | Some sr \<Rightarrow> foldl (set_present hx_width sr) (foldl (set_present (\<lambda>k. h32) sr) r SYS_CR) SYS_SEG_HIDDEN);
              r = opt_field ''sys_call'' (map_option JDict (fo_sys_call opts)) r;
              r = opt_field ''dev_in'' (nonempty (fo_dev_in opts)) r;
              r = opt_field ''intr'' (map_option JDict (fo_intr opts)) r
    in Inr (opt_field ''dma_wr'' (nonempty (fo_dma_wr opts)) r))))"

definition cycle_record ::
  "int \<Rightarrow> int \<Rightarrow> int \<Rightarrow> string \<Rightarrow> bool \<Rightarrow> int option \<Rightarrow> hex_bytes option \<Rightarrow> jdict" where
  "cycle_record n pc cyc pipe paired stall bytes =
    (let r = [(''n'', JInt n), (''pc'', JStr (h32 pc)), (''cyc'', JInt cyc), (''pipe'', JStr pipe),
              (''paired'', JBool paired)];
         r = opt_field ''stall'' (map_option JInt stall) r
     in opt_field ''bytes'' (map_option (\<lambda>b. JStr (hex_text b)) bytes) r)"

subsection \<open>Reading\<close>

text \<open>\<open>key in obj\<close> for a parsed line: dictionary keys, list elements, substrings.\<close>

fun contains :: "string \<Rightarrow> string \<Rightarrow> bool" where
  "contains [] p = (p = [])"
| "contains (c # s) p = (startswith (c # s) p \<or> contains s p)"

definition in_json :: "string \<Rightarrow> json \<Rightarrow> bool result" where
  "in_json k obj = (case obj of
     JDict d \<Rightarrow> Inr (k \<in> set (map fst d))
   | JList xs \<Rightarrow> Inr (JStr k \<in> set xs)
   | JStr s \<Rightarrow> Inr (contains s k)
   | _ \<Rightarrow> Inl TypeError)"

record trace =
  hdr :: json
  records :: "json list"

fun read_lines :: "json option \<Rightarrow> json list \<Rightarrow> string list \<Rightarrow> trace result" where
  "read_lines h recs [] =
    (case h of None \<Rightarrow> Inl ValueError | Some hh \<Rightarrow> Inr \<lparr> hdr = hh, records = recs \<rparr>)"
| "read_lines h recs (line # ls) =
    (let line = strip line
     in if line = [] \<or> startswith line ''#'' then read_lines h recs ls
        else bindE (loads line) (\<lambda>obj. case h of
          None \<Rightarrow> bindE (in_json ''vtrace'' obj)
                   (\<lambda>b. if b then read_lines (Some obj) recs ls else Inl ValueError)
        | Some hh \<Rightarrow> read_lines h (recs @ [obj]) ls))"

definition read_trace :: "string list \<Rightarrow> trace result" where
  "read_trace f = read_lines None [] f"

definition func_compare_keys :: "bool \<Rightarrow> bool \<Rightarrow> string list" where
  "func_compare_keys x87 sys =
    [''pc''] @ GPR_KEYS @ [''eflags''] @ SEG_KEYS @
    (if x87 then X87_REGS @ X87_CTL else []) @ (if sys then SYS_CR else [])"

definition eflags_undefined_mask :: "string option \<Rightarrow> int" where
  "eflags_undefined_mask mnemonic = (case mnemonic of None \<Rightarrow> 0
   | Some m \<Rightarrow> if m = [] then 0
     else case find (\<lambda>(pfx, msk). startswith (lower m) pfx) EFLAGS_UNDEFINED of
       Some (pfx, msk) \<Rightarrow> msk | None \<Rightarrow> 0)"

subsection \<open>Hexadecimal round trip\<close>

lemma last_digits: "\<exists>k. 0 \<le> k \<and> k < b \<and> last (digits b n) = digit_char k" if "2 \<le> b" "b \<le> 16" for b
  using digits_chars [of "last (digits b n)" b n] that by (simp add: digits_not_nil)

text \<open>
  A field written at a width reads back as the value modulo that width: for every integer
  (negative ones included) and every width of at least one bit, parse_hex inverts hx up to the
  wrap-around of the width.
\<close>

theorem parse_hex_hx:
  assumes "bits > 0"
  shows "parse_hex (JStr (hx val bits)) = Inr (val mod 2 ^ bits)"
proof -
  define v where "v = val mod 2 ^ bits"
  have v: "0 \<le> v" by (simp add: v_def)
  define h where "h = hex_pad ((bits + 3) div 4) v"
  have h: "h \<noteq> []" by (simp add: h_def hex_pad_def zfill_def digits_not_nil)
  have eq: "hx val bits = ''0x'' @ h"
    by (simp add: hx_def h_def v_def push_bit_eq_mult and_mask_mod)
  obtain k where k: "0 \<le> k" "k < 16" "last (digits 16 v) = digit_char k" using last_digits [of 16 v] by auto
  have "last h = digit_char k" using k(3) by (simp add: h_def hex_pad_def zfill_def digits_not_nil)
  then have "\<not> is_ws (last h)" using digit_char_plain(4) [OF k(1,2)] by simp
  then have "strip (''0x'' @ h) = ''0x'' @ h"
    by (intro strip_plain) (simp_all add: h is_ws_def)
  then have "py_int 16 (''0x'' @ h) = scan_digits 16 0 True h"
    using h by (simp add: py_int_def scan_unsigned_def lower_def lower_char_def)
  also have "\<dots> = Some v"
    using scan_zeros [of 16 True "(bits + 3) div 4 - length (digits 16 v)" "digits 16 v"]
      scan_digits_digits [OF v, of 16 True]
    by (simp add: h_def hex_pad_def zfill_def)
  finally show ?thesis by (simp add: parse_hex_def eq v_def)
qed

theorem parse_hex_hx_witness: "parse_hex (JStr (hx (-2) 16)) = Inr ((-2) mod 2 ^ 16)"
  by (rule parse_hex_hx) simp

subsection \<open>Reading back a written trace\<close>

lemma strip_line:
  assumes "j = JDict d"
  shows "strip (dumps j @ [CHR 0x0A]) = dumps j"
proof -
  have ws: "is_ws CHR 0x0A" "\<not> is_ws CHR ''{''" "\<not> is_ws CHR ''}''" by (simp_all add: is_ws_def)
  show ?thesis unfolding assms by (simp add: strip_def lstrip_def ws)
qed

lemma read_records:
  assumes "\<forall>r \<in> set rs. json_ok (JDict r)"
  shows "read_lines (Some h) recs (map (\<lambda>r. dumps (JDict r) @ [CHR 0x0A]) rs) =
    Inr \<lparr> hdr = h, records = recs @ map JDict rs \<rparr>"
  using assms
proof (induction rs arbitrary: recs)
  case (Cons r rs)
  have "\<not> startswith (dumps (JDict r)) ''#''" "dumps (JDict r) \<noteq> []" by simp_all
  moreover have "loads (dumps (JDict r)) = Inr (JDict r)" using Cons.prems loads_dumps [of "JDict r" "[]"] by simp
  ultimately show ?case
    using Cons
    by (simp only: list.map read_lines.simps strip_line [OF refl] Let_def if_False simp_thms
        bindE_simps option.case list.set_intros ball_simps append_assoc append_Cons append_Nil list.set insert_iff)
       (simp add: Cons.IH)
qed simp

text \<open>
  C11. Reading inverts writing: a header that carries \<open>vtrace\<close> and any list of records, written one
  compact JSON line each, come back from read_trace unchanged and in order.
\<close>

theorem read_trace_written:
  assumes "''vtrace'' \<in> set (map fst h)" "json_ok (JDict h)" "\<forall>r \<in> set rs. json_ok (JDict r)"
  shows "read_trace (map (\<lambda>r. dumps (JDict r) @ [CHR 0x0A]) (h # rs)) =
    Inr \<lparr> hdr = JDict h, records = map JDict rs \<rparr>"
proof -
  have "\<not> startswith (dumps (JDict h)) ''#''" "dumps (JDict h) \<noteq> []" by simp_all
  moreover have "loads (dumps (JDict h)) = Inr (JDict h)" using assms(2) loads_dumps [of "JDict h" "[]"] by simp
  ultimately show ?thesis
    using assms read_records [of rs "JDict h" "[]"]
    by (simp only: read_trace_def list.map read_lines.simps strip_line [OF refl] Let_def if_False if_True
        simp_thms bindE_simps option.case in_json_def json.case append_Nil)
qed

theorem read_trace_written_witness:
  "read_trace (map (\<lambda>r. dumps (JDict r) @ [CHR 0x0A]) [[(''vtrace'', JInt 1)], [(''n'', JInt 0), (''pc'', JStr (h32 0x8048000))]]) =
    Inr \<lparr> hdr = JDict [(''vtrace'', JInt 1)], records = map JDict [[(''n'', JInt 0), (''pc'', JStr (h32 0x8048000))]] \<rparr>"
  by (rule read_trace_written) simp_all

subsection \<open>The fields of a functional record\<close>

lemma map_of_opt_other: "k' \<noteq> k \<Longrightarrow> map_of (opt_field k v d) k' = map_of d k'"
  by (simp add: opt_field_def map_of_dset split: option.splits)

lemma set_regs:
  "foldE (set_reg f regs) r ks = Inr r' \<Longrightarrow>
    map_of r' k = (if k \<in> set ks then map_option (\<lambda>v. JStr (f k v)) (map_of regs k) else map_of r k)"
proof (induction ks arbitrary: r)
  case (Cons j ks)
  obtain v where j: "map_of regs j = Some v"
    using Cons.prems by (cases "map_of regs j") (simp_all add: set_reg_def [of f regs r j])
  then have v: "map_of regs j = Some v" "foldE (set_reg f regs) (dset j (JStr (f j v)) r) ks = Inr r'"
    using Cons.prems by (simp_all add: set_reg_def [of f regs r j])
  show ?case using Cons.IH [OF v(2)] v(1) by (auto simp: map_of_dset)
qed simp

lemma set_regs_ok: "\<forall>k \<in> set ks. map_of regs k \<noteq> None \<Longrightarrow> \<exists>r'. foldE (set_reg f regs) r ks = Inr r'"
  by (induction ks arbitrary: r) (auto simp: set_reg_def)

lemma set_presents:
  "map_of (foldl (set_present f regs) r ks) k =
    (if k \<in> set ks \<and> map_of regs k \<noteq> None then map_option (\<lambda>v. JStr (f k v)) (map_of regs k) else map_of r k)"
  by (induction ks arbitrary: r) (auto simp: set_present_def map_of_dset split: option.splits)

text \<open>What the graded fields of a record hold, given the arguments it was built from.\<close>

definition graded_field ::
  "int \<Rightarrow> int \<Rightarrow> (string, int) dict \<Rightarrow> (string, int) dict \<Rightarrow> (string, int) dict option \<Rightarrow>
    (string, int) dict option \<Rightarrow> string \<Rightarrow> json option" where
  "graded_field pc eflags gpr seg x87 sysregs k =
    (let field = (\<lambda>w regs. map_option (\<lambda>v. JStr (hx v w)) (map_of regs k))
     in if k = ''pc'' then Some (JStr (hx pc 32)) else if k = ''eflags'' then Some (JStr (hx eflags 32))
        else if k \<in> set GPR_KEYS then field 32 gpr else if k \<in> set SEG_KEYS then field 16 seg
        else if k \<in> set X87_REGS then field 80 (case x87 of None \<Rightarrow> [] | Some d \<Rightarrow> d)
        else if k \<in> set X87_CTL then field (the (map_of WIDTH k)) (case x87 of None \<Rightarrow> [] | Some d \<Rightarrow> d)
        else if k \<in> set SYS_CR then field 32 (case sysregs of None \<Rightarrow> [] | Some d \<Rightarrow> d) else None)"

lemma x87_keys: "X87_REGS = [''st0'', ''st1'', ''st2'', ''st3'', ''st4'', ''st5'', ''st6'', ''st7'']"
  by (simp add: X87_REGS_def dec_def digits.simps digit_char_def)

lemmas key_lists = GPR_KEYS_def SEG_KEYS_def x87_keys X87_CTL_def SYS_CR_def

text \<open>The groups of field names do not overlap.\<close>

lemma key_groups:
  "''pc'' \<notin> set GPR_KEYS \<union> set SEG_KEYS \<union> set X87_REGS \<union> set X87_CTL \<union> set SYS_CR"
  "''eflags'' \<notin> set GPR_KEYS \<union> set SEG_KEYS \<union> set X87_REGS \<union> set X87_CTL \<union> set SYS_CR"
  "k \<in> set GPR_KEYS \<Longrightarrow> k \<notin> {''pc'', ''eflags''} \<union> set SEG_KEYS \<union> set X87_REGS \<union> set X87_CTL \<union> set SYS_CR"
  "k \<in> set SEG_KEYS \<Longrightarrow> k \<notin> {''pc'', ''eflags''} \<union> set GPR_KEYS \<union> set X87_REGS \<union> set X87_CTL \<union> set SYS_CR"
  "k \<in> set X87_REGS \<Longrightarrow> k \<notin> {''pc'', ''eflags''} \<union> set GPR_KEYS \<union> set SEG_KEYS \<union> set X87_CTL \<union> set SYS_CR"
  "k \<in> set X87_CTL \<Longrightarrow> k \<notin> {''pc'', ''eflags''} \<union> set GPR_KEYS \<union> set SEG_KEYS \<union> set X87_REGS \<union> set SYS_CR"
  "k \<in> set SYS_CR \<Longrightarrow> k \<notin> {''pc'', ''eflags''} \<union> set GPR_KEYS \<union> set SEG_KEYS \<union> set X87_REGS \<union> set X87_CTL"
  by (auto simp: key_lists)

lemma seg_hidden_keys: "k \<in> set SYS_SEG_HIDDEN \<Longrightarrow> CHR ''_'' \<in> set k"
  by (auto simp: SYS_SEG_HIDDEN_def)

lemma graded_plain:
  "k \<in> set (func_compare_keys x sy) \<Longrightarrow> CHR ''_'' \<notin> set k \<and>
    k \<notin> {''n'', ''bytes'', ''exc'', ''sys_call'', ''dev_in'', ''intr'', ''dma_wr''}"
  by (simp add: func_compare_keys_def key_lists split: if_splits) (elim disjE conjE; simp)+

lemma func_record_holds:
  assumes "set GPR_KEYS \<subseteq> fst ` set gpr" "set SEG_KEYS \<subseteq> fst ` set seg"
    and "\<And>x87. fo_x87 opts = Some x87 \<Longrightarrow> set X87_REGS \<union> set X87_CTL \<subseteq> fst ` set x87"
  shows "\<exists>r. func_record n pc eflags gpr seg opts = Inr r \<and>
    (\<forall>k \<in> set (func_compare_keys True True).
       map_of r k = graded_field pc eflags gpr seg (fo_x87 opts) (fo_sysregs opts) k)"
proof -
  have dom: "\<forall>k \<in> set ks. map_of regs k \<noteq> None" if "set ks \<subseteq> fst ` set regs" for ks and regs :: "(string, int) dict"
    using that by (auto simp: map_of_eq_None_iff)
  let ?r0 = "[(''n'', JInt n), (''pc'', JStr (h32 pc)), (''eflags'', JStr (h32 eflags))]"
  obtain r1 where r1: "foldE (set_reg (\<lambda>k. h32) gpr) ?r0 GPR_KEYS = Inr r1"
    using set_regs_ok dom assms(1) by blast
  obtain r2 where r2: "foldE (set_reg (\<lambda>k. h16) seg) r1 SEG_KEYS = Inr r2"
    using set_regs_ok dom assms(2) by blast
  define r3 where "r3 = opt_field ''exc'' (map_option JInt (fo_exc opts))
    (opt_field ''bytes'' (map_option (\<lambda>b. JStr (hex_text b)) (fo_bytes opts)) r2)"
  define fp where "fp r = (case fo_x87 opts of None \<Rightarrow> Inr r
      | Some x87 \<Rightarrow> bindE (foldE (set_reg (\<lambda>k. h80) x87) r X87_REGS) (\<lambda>r. foldE (set_reg hx_width x87) r X87_CTL))"
    for r :: jdict
  have "\<exists>r4. fp r3 = Inr r4 \<and> (\<forall>k. map_of r4 k =
      (if fo_x87 opts \<noteq> None \<and> k \<in> set X87_CTL then map_option (\<lambda>v. JStr (hx_width k v)) (map_of (the (fo_x87 opts)) k)
       else if fo_x87 opts \<noteq> None \<and> k \<in> set X87_REGS then map_option (\<lambda>v. JStr (h80 v)) (map_of (the (fo_x87 opts)) k)
       else map_of r3 k))"
  proof (cases "fo_x87 opts")
    case (Some x87)
    have "set X87_REGS \<subseteq> fst ` set x87" "set X87_CTL \<subseteq> fst ` set x87" using assms(3) [OF Some] by simp_all
    then obtain ra rb where "foldE (set_reg (\<lambda>k. h80) x87) r3 X87_REGS = Inr ra"
      "foldE (set_reg hx_width x87) ra X87_CTL = Inr rb" using set_regs_ok dom by meson
    then show ?thesis using Some by (simp add: fp_def set_regs)
  qed (simp add: fp_def)
  then obtain r4 where r4: "fp r3 = Inr r4" "\<And>k. map_of r4 k =
      (if fo_x87 opts \<noteq> None \<and> k \<in> set X87_CTL then map_option (\<lambda>v. JStr (hx_width k v)) (map_of (the (fo_x87 opts)) k)
       else if fo_x87 opts \<noteq> None \<and> k \<in> set X87_REGS then map_option (\<lambda>v. JStr (h80 v)) (map_of (the (fo_x87 opts)) k)
       else map_of r3 k)" by blast
  define r5 where "r5 = (case fo_sysregs opts of None \<Rightarrow> r4
      | Some sr \<Rightarrow> foldl (set_present hx_width sr) (foldl (set_present (\<lambda>k. h32) sr) r4 SYS_CR) SYS_SEG_HIDDEN)"
  define r6 where "r6 = opt_field ''dma_wr'' (nonempty (fo_dma_wr opts))
    (opt_field ''intr'' (map_option JDict (fo_intr opts)) (opt_field ''dev_in'' (nonempty (fo_dev_in opts))
      (opt_field ''sys_call'' (map_option JDict (fo_sys_call opts)) r5)))"
  have rec: "func_record n pc eflags gpr seg opts = Inr r6"
    using r1 r2 r4(1) by (simp add: func_record_def r3_def [symmetric] fp_def [symmetric] r5_def [symmetric]
        r6_def Let_def)
  have "map_of r6 k = graded_field pc eflags gpr seg (fo_x87 opts) (fo_sysregs opts) k"
    if k: "k \<in> set (func_compare_keys True True)" for k
  proof -
    note plain = graded_plain [OF k]
    have nh: "k \<notin> set SYS_SEG_HIDDEN" using plain seg_hidden_keys by blast
    have "map_of r6 k = map_of r5 k" using plain by (simp add: r6_def map_of_opt_other)
    also have "\<dots> = (case fo_sysregs opts of None \<Rightarrow> map_of r4 k
        | Some sr \<Rightarrow> if k \<in> set SYS_CR \<and> map_of sr k \<noteq> None then map_option (\<lambda>v. JStr (h32 v)) (map_of sr k) else map_of r4 k)"
      using nh by (simp add: r5_def set_presents split: option.splits)
    finally have r6: "map_of r6 k = \<dots>" .
    have r3: "map_of r3 k = (if k \<in> set SEG_KEYS then map_option (\<lambda>v. JStr (h16 v)) (map_of seg k)
        else if k \<in> set GPR_KEYS then map_option (\<lambda>v. JStr (h32 v)) (map_of gpr k) else map_of ?r0 k)"
      using plain by (simp add: r3_def map_of_opt_other set_regs [OF r2] set_regs [OF r1])
    note unfold = r6 r4(2) r3 graded_field_def Let_def h32_def h16_def h80_def hx_width_def
    consider "k = ''pc''" | "k = ''eflags''" | "k \<in> set GPR_KEYS" | "k \<in> set SEG_KEYS" | "k \<in> set X87_REGS"
      | "k \<in> set X87_CTL" | "k \<in> set SYS_CR" using k by (auto simp: func_compare_keys_def)
    then show ?thesis
    proof cases
      case 1 then show ?thesis unfolding unfold using plain key_groups(1) by (simp split: option.split)
    next
      case 2 then show ?thesis unfolding unfold using plain key_groups(2) by (simp split: option.split)
    next
      case 3 then show ?thesis unfolding unfold using plain key_groups(3) [OF 3] by (simp split: option.split)
    next
      case 4 then show ?thesis unfolding unfold using plain key_groups(4) [OF 4] by (simp split: option.split)
    next
      case 5 then show ?thesis unfolding unfold using plain key_groups(5) [OF 5] by (simp split: option.split)
    next
      case 6 then show ?thesis unfolding unfold using plain key_groups(6) [OF 6] by (simp split: option.split)
    next
      case 7 then show ?thesis unfolding unfold using plain key_groups(7) [OF 7] by (simp split: option.split)
    qed
  qed
  then show ?thesis using rec by blast
qed

text \<open>The sequence number is the one given.\<close>

lemma n_not_register:
  "''n'' \<notin> set GPR_KEYS" "''n'' \<notin> set SEG_KEYS" "''n'' \<notin> set X87_REGS" "''n'' \<notin> set X87_CTL" "''n'' \<notin> set SYS_CR"
  "''n'' \<notin> set SYS_SEG_HIDDEN"
  using seg_hidden_keys [of "''n''"] by (auto simp: key_lists)

lemma func_record_n:
  assumes "func_record n pc eflags gpr seg opts = Inr r"
  shows "map_of r ''n'' = Some (JInt n)"
proof -
  obtain r1 r2 r4 where r1: "foldE (set_reg (\<lambda>k. h32) gpr) [(''n'', JInt n), (''pc'', JStr (h32 pc)), (''eflags'', JStr (h32 eflags))] GPR_KEYS = Inr r1"
    and r2: "foldE (set_reg (\<lambda>k. h16) seg) r1 SEG_KEYS = Inr r2"
    and r4: "(case fo_x87 opts of None \<Rightarrow> Inr (opt_field ''exc'' (map_option JInt (fo_exc opts)) (opt_field ''bytes'' (map_option (\<lambda>b. JStr (hex_text b)) (fo_bytes opts)) r2))
        | Some x87 \<Rightarrow> bindE (foldE (set_reg (\<lambda>k. h80) x87) (opt_field ''exc'' (map_option JInt (fo_exc opts)) (opt_field ''bytes'' (map_option (\<lambda>b. JStr (hex_text b)) (fo_bytes opts)) r2)) X87_REGS)
            (\<lambda>r. foldE (set_reg hx_width x87) r X87_CTL)) = Inr r4"
    and r: "r = opt_field ''dma_wr'' (nonempty (fo_dma_wr opts)) (opt_field ''intr'' (map_option JDict (fo_intr opts))
        (opt_field ''dev_in'' (nonempty (fo_dev_in opts)) (opt_field ''sys_call'' (map_option JDict (fo_sys_call opts))
          (case fo_sysregs opts of None \<Rightarrow> r4
           | Some sr \<Rightarrow> foldl (set_present hx_width sr) (foldl (set_present (\<lambda>k. h32) sr) r4 SYS_CR) SYS_SEG_HIDDEN))))"
    using assms unfolding func_record_def Let_def bindE_eq_Inr by auto
  have "map_of r2 ''n'' = Some (JInt n)" using set_regs [OF r1] set_regs [OF r2] n_not_register by simp
  then have "map_of r4 ''n'' = Some (JInt n)"
    using r4 n_not_register by (auto simp: map_of_opt_other bindE_eq_Inr set_regs split: option.splits)
  then show ?thesis using n_not_register by (simp add: r map_of_opt_other set_presents split: option.split)
qed

text \<open>
  A functional record holds exactly what it was given: when every register it needs is
  supplied it is built, and each field that the comparator grades then holds the supplied register
  at its declared width, whatever the replay annotations (bytes, exc, sys_call, dev_in, intr,
  dma_wr) say. So annotations never change a graded field.
\<close>

theorem func_record_graded:
  assumes "set GPR_KEYS \<subseteq> fst ` set gpr" "set SEG_KEYS \<subseteq> fst ` set seg"
    and "\<And>x87. fo_x87 opts = Some x87 \<Longrightarrow> set X87_REGS \<union> set X87_CTL \<subseteq> fst ` set x87"
  shows "\<exists>r. func_record n pc eflags gpr seg opts = Inr r \<and>
    (\<forall>k \<in> set (func_compare_keys True True).
       map_of r k = graded_field pc eflags gpr seg (fo_x87 opts) (fo_sysregs opts) k)"
  by (rule func_record_holds [OF assms])

theorem func_record_graded_witness:
  "\<exists>r. func_record 0 0x8048000 0x202 (map (\<lambda>k. (k, 7)) GPR_KEYS) (map (\<lambda>k. (k, 0x23)) SEG_KEYS)
       (no_opts\<lparr>fo_sys_call := Some (sys_call_field 4 12 None None)\<rparr>) = Inr r \<and>
    (\<forall>k \<in> set (func_compare_keys True True). map_of r k =
       graded_field 0x8048000 0x202 (map (\<lambda>k. (k, 7)) GPR_KEYS) (map (\<lambda>k. (k, 0x23)) SEG_KEYS)
         (fo_x87 (no_opts\<lparr>fo_sys_call := Some (sys_call_field 4 12 None None)\<rparr>))
         (fo_sysregs (no_opts\<lparr>fo_sys_call := Some (sys_call_field 4 12 None None)\<rparr>)) k)"
  by (rule func_record_graded) (simp_all add: no_opts_def image_image)

end
