(* ===== verification/Trace_Compare.thy ===== *)
theory Trace_Compare
  imports Trace_Format
begin

text \<open>
  The differential comparator of verif/diff/compare.py: header validation, the functional and the
  cycle comparison, and the exit code of main. The capstone disassembler is the parameter \<open>cs\<close>:
  None when the import failed, else the mnemonic of the first instruction of a byte string. What
  the functions print is a list of lines, one constructor per print statement with the values it
  formats; argument parsing and the text layout are left out. Percentages are Python floats in the
  source and exact rationals here, with None for infinity.
\<close>

subsection \<open>Python values of JSON records\<close>

text \<open>\<open>==\<close> on parsed JSON: booleans are integers and the order of dictionary keys does not matter.\<close>

function py_eq :: "json \<Rightarrow> json \<Rightarrow> bool" where
  "py_eq (JList xs) y = (case y of JList ys \<Rightarrow> length xs = length ys \<and> list_all (\<lambda>(x, y). py_eq x y) (zip xs ys) | _ \<Rightarrow> False)"
| "py_eq (JDict d) y = (case y of JDict e \<Rightarrow> length d = length e \<and>
     list_all (\<lambda>(k, v). case map_of e k of None \<Rightarrow> False | Some w \<Rightarrow> py_eq v w) d | _ \<Rightarrow> False)"
| "py_eq (JInt m) y = (case y of JInt n \<Rightarrow> m = n | JBool b \<Rightarrow> m = of_bool b | _ \<Rightarrow> False)"
| "py_eq (JBool b) y = (case y of JInt n \<Rightarrow> of_bool b = n | JBool c \<Rightarrow> b = c | _ \<Rightarrow> False)"
| "py_eq (JStr s) y = (y = JStr s)"
| "py_eq JNull y = (y = JNull)"
  by pat_completeness auto
termination
  by (relation "measure (\<lambda>(x, y). size x)")
    (auto simp: less_Suc_eq_le dest: set_zip_leftD intro: size_list_estimation')

definition truthy :: "json option \<Rightarrow> bool" where
  "truthy v = (case v of None \<Rightarrow> False | Some JNull \<Rightarrow> False | Some (JBool b) \<Rightarrow> b | Some (JInt n) \<Rightarrow> n \<noteq> 0
     | Some (JStr s) \<Rightarrow> s \<noteq> [] | Some (JList xs) \<Rightarrow> xs \<noteq> [] | Some (JDict d) \<Rightarrow> d \<noteq> [])"

text \<open>\<open>d.get(k)\<close>: a missing key and a null value are both None.\<close>

definition dget :: "jdict \<Rightarrow> string \<Rightarrow> json option" where
  "dget d k = (case map_of d k of Some JNull \<Rightarrow> None | v \<Rightarrow> v)"

definition as_dict :: "json \<Rightarrow> jdict result" where
  "as_dict r = (case r of JDict d \<Rightarrow> Inr d | _ \<Rightarrow> Inl AttributeError)"

definition opt_eq :: "json option \<Rightarrow> json option \<Rightarrow> bool" where
  "opt_eq a b = (case (a, b) of (None, None) \<Rightarrow> True | (Some x, Some y) \<Rightarrow> py_eq x y | _ \<Rightarrow> False)"

subsection \<open>Mnemonics\<close>

type_synonym disasm = "(int list \<Rightarrow> string option) option"

definition mnemonic_from_bytes :: "disasm \<Rightarrow> json option \<Rightarrow> string option result" where
  "mnemonic_from_bytes cs hexs =
    (if \<not> truthy hexs then Inr None
     else case cs of None \<Rightarrow> Inr None
     | Some decode \<Rightarrow> (case hexs of
         Some (JStr s) \<Rightarrow> Inr (case fromhex s of None \<Rightarrow> None | Some raw \<Rightarrow> decode raw)
       | _ \<Rightarrow> Inl TypeError))"

definition record_mnemonic :: "disasm \<Rightarrow> jdict \<Rightarrow> jdict \<Rightarrow> string option result" where
  "record_mnemonic cs a c =
    bindE (mnemonic_from_bytes cs (dget a ''bytes''))
      (\<lambda>m. if m = None \<or> m = Some [] then mnemonic_from_bytes cs (dget c ''bytes'') else Inr m)"

subsection \<open>Header validation\<close>

datatype hdr_warning = NotVtrace string json | ModeMismatch string "json option" string
  | ProducerMismatch string "json option" string | X87Mismatch bool bool | SysMismatch bool bool

definition hget :: "json \<Rightarrow> string \<Rightarrow> json option" where
  "hget h k = (case h of JDict d \<Rightarrow> dget d k | _ \<Rightarrow> None)"

definition vtrace_ok :: "json \<Rightarrow> bool" where
  "vtrace_ok h \<longleftrightarrow> (case h of JDict d \<Rightarrow> opt_eq (dget d ''vtrace'') (Some (JInt VERSION)) | _ \<Rightarrow> False)"

definition trace_mode :: "trace \<Rightarrow> json option" where "trace_mode t = hget (hdr t) ''mode''"
definition trace_x87 :: "trace \<Rightarrow> bool" where "trace_x87 t = truthy (hget (hdr t) ''x87'')"
definition trace_sys :: "trace \<Rightarrow> bool" where "trace_sys t = truthy (hget (hdr t) ''sys'')"

definition EXPECTED_PRODUCERS :: "(string \<times> (string \<times> string)) list" where
  "EXPECTED_PRODUCERS = [(''func'', (''qemu-gdbstub'', ''rtl'')), (''cycle'', (''qemu-plugin'', ''rtl''))]"

definition validate_headers ::
  "string \<Rightarrow> trace \<Rightarrow> trace \<Rightarrow> (hdr_warning list \<times> bool \<times> bool \<times> bool) result" where
  "validate_headers mode a c =
    (if \<not> vtrace_ok (hdr a) then Inr ([NotVtrace ''A'' (hdr a)], False, False, False)
     else if \<not> vtrace_ok (hdr c) then Inr ([NotVtrace ''C'' (hdr c)], False, False, False)
     else if trace_mode a \<noteq> Some (JStr mode) then Inr ([ModeMismatch ''A'' (trace_mode a) mode], False, False, False)
     else if trace_mode c \<noteq> Some (JStr mode) then Inr ([ModeMismatch ''C'' (trace_mode c) mode], False, False, False)
     else bindE (of_option KeyError (map_of EXPECTED_PRODUCERS mode)) (\<lambda>(exp_a, exp_c).
       let pa = hget (hdr a) ''producer''; pc = hget (hdr c) ''producer'';
           w1 = (if pa \<noteq> Some (JStr exp_a) then [ProducerMismatch ''A'' pa exp_a] else []);
           w2 = (if pc \<noteq> Some (JStr exp_c) then [ProducerMismatch ''C'' pc exp_c] else []);
           x87_both = (trace_x87 a \<and> trace_x87 c);
           w3 = (if mode = ''func'' \<and> trace_x87 a \<noteq> trace_x87 c then [X87Mismatch (trace_x87 a) (trace_x87 c)] else []);
           sys_both = (trace_sys a \<and> trace_sys c);
           w4 = (if mode = ''func'' \<and> trace_sys a \<noteq> trace_sys c then [SysMismatch (trace_sys a) (trace_sys c)] else [])
       in Inr (w1 @ w2 @ w3 @ w4, True, x87_both, sys_both)))"

subsection \<open>The functional comparison\<close>

definition eflags_equal :: "json \<Rightarrow> json \<Rightarrow> int \<Rightarrow> string option \<Rightarrow> (bool \<times> int) result" where
  "eflags_equal a_hex c_hex base_mask mnemonic =
    (let undef = eflags_undefined_mask mnemonic; msk = base_mask AND NOT undef
     in bindE (parse_hex a_hex) (\<lambda>a. bindE (parse_hex c_hex) (\<lambda>c.
          Inr ((a XOR c) AND msk = 0, msk))))"

definition has_key :: "json list \<Rightarrow> string \<Rightarrow> bool result" where
  "has_key recs k = (case recs of [] \<Rightarrow> Inr False | r # _ \<Rightarrow> in_json k r)"

definition sys_keys_intersection :: "string list \<Rightarrow> json list \<Rightarrow> json list \<Rightarrow> string list result" where
  "sys_keys_intersection keys ra rc =
    bindE (foldE (\<lambda>extra k. bindE (has_key ra k) (\<lambda>ha.
             if ha then bindE (has_key rc k) (\<lambda>hc. Inr (if hc then extra @ [k] else extra)) else Inr extra))
           [] SYS_SEG_HIDDEN)
      (\<lambda>extra. Inr (keys @ extra))"

text \<open>A divergence: \<open>n\<close>, pc, field (with the effective mask for eflags), expected and got.\<close>

datatype shown_value = Absent | Shown json | StrOf "json option"

datatype field_name = Field string | EflagsMask int

type_synonym divergence = "json option \<times> json option \<times> field_name \<times> shown_value \<times> shown_value"

definition get_pc :: "jdict \<Rightarrow> json option" where
  "get_pc r = (case map_of r ''pc'' of None \<Rightarrow> Some (JStr ''?'') | Some JNull \<Rightarrow> None | v \<Rightarrow> v)"

definition field_div ::
  "int \<Rightarrow> string option \<Rightarrow> jdict \<Rightarrow> jdict \<Rightarrow> string \<Rightarrow> (field_name \<times> shown_value \<times> shown_value) option result" where
  "field_div eflags_mask mnem a c k =
    (case (dget a k, dget c k) of
       (None, None) \<Rightarrow> Inr None
     | (None, Some vc) \<Rightarrow> Inr (Some (Field k, Absent, Shown vc))
     | (Some va, None) \<Rightarrow> Inr (Some (Field k, Shown va, Absent))
     | (Some va, Some vc) \<Rightarrow>
         if k = ''eflags'' then bindE (eflags_equal va vc eflags_mask mnem) (\<lambda>(eq, eff).
           Inr (if eq then None else Some (EflagsMask eff, Shown va, Shown vc)))
         else Inr (if py_eq va vc then None else Some (Field k, Shown va, Shown vc)))"

fun field_loop ::
  "bool \<Rightarrow> int \<Rightarrow> string option \<Rightarrow> jdict \<Rightarrow> jdict \<Rightarrow> string list \<Rightarrow> divergence list \<Rightarrow> bool \<Rightarrow>
    (divergence list \<times> bool) result" where
  "field_loop show_all msk mnem a c [] divs rec_div = Inr (divs, rec_div)"
| "field_loop show_all msk mnem a c (k # ks) divs rec_div =
    bindE (field_div msk mnem a c k) (\<lambda>d. case d of
      None \<Rightarrow> field_loop show_all msk mnem a c ks divs rec_div
    | Some x \<Rightarrow> let divs = divs @ [(dget a ''n'', get_pc a, x)]
        in if show_all then field_loop show_all msk mnem a c ks divs True else Inr (divs, True))"

fun record_loop ::
  "disasm \<Rightarrow> bool \<Rightarrow> int \<Rightarrow> int \<Rightarrow> string list \<Rightarrow> (json \<times> json) list \<Rightarrow> divergence list \<Rightarrow> divergence list result" where
  "record_loop cs show_all max_report msk keys [] divs = Inr divs"
| "record_loop cs show_all max_report msk keys ((ja, jc) # rest) divs =
    bindE (as_dict ja) (\<lambda>a. bindE (as_dict jc) (\<lambda>c.
      let na = dget a ''n''; nc = dget c ''n''
      in if \<not> opt_eq na nc then
           (let divs = divs @ [(na, get_pc a, Field ''n'', StrOf na, StrOf nc)]
            in if show_all then record_loop cs show_all max_report msk keys rest divs else Inr divs)
         else bindE (record_mnemonic cs a c) (\<lambda>mnem.
           bindE (field_loop show_all msk mnem a c keys divs False) (\<lambda>(divs, rec_div).
             if rec_div \<and> \<not> show_all then Inr divs
             else if show_all \<and> int (length divs) \<ge> max_report then Inr divs
             else record_loop cs show_all max_report msk keys rest divs))))"

datatype func_line = FuncBanner | FuncCounts nat nat nat | FuncMasks string bool bool
  | FuncEquivalent nat | FuncDivergent nat bool | FuncField divergence | FuncLengthOnly
  | FuncLengthMismatch nat nat string nat

definition compare_func ::
  "disasm \<Rightarrow> trace \<Rightarrow> trace \<Rightarrow> bool \<Rightarrow> int \<Rightarrow> bool \<Rightarrow> int \<Rightarrow> bool \<Rightarrow> (func_line list \<times> int) result" where
  "compare_func cs a c x87_both eflags_mask show_all max_report sys_both =
    (let keys = func_compare_keys x87_both sys_both; ra = records a; rc = records c
     in bindE (if sys_both then sys_keys_intersection keys ra rc else Inr keys) (\<lambda>keys.
        let n_common = min (length ra) (length rc)
        in bindE (record_loop cs show_all max_report eflags_mask keys (zip ra rc) []) (\<lambda>divergences.
        let len_mismatch = (length ra \<noteq> length rc);
            out = [FuncBanner, FuncCounts (length ra) (length rc) n_common,
                   FuncMasks (hx eflags_mask 32) x87_both sys_both]
        in if divergences = [] \<and> \<not> len_mismatch then Inr (out @ [FuncEquivalent n_common], 0)
           else let shown = (if show_all then divergences else take 1 divergences);
                    out = out @ (if divergences \<noteq> []
                                 then FuncDivergent (length divergences) show_all # map FuncField shown
                                 else [FuncLengthOnly]);
                    out = out @ (if len_mismatch
                                 then [FuncLengthMismatch (length ra) (length rc)
                                        (if length ra > length rc then ''A'' else ''C'') n_common]
                                 else [])
                in Inr (out, 1))))"

subsection \<open>The cycle comparison\<close>

text \<open>Arithmetic on a field: integers and booleans; Python raises for anything else.\<close>

definition as_int :: "json \<Rightarrow> int result" where
  "as_int v = (case v of JInt n \<Rightarrow> Inr n | JBool b \<Rightarrow> Inr (of_bool b) | _ \<Rightarrow> Inl TypeError)"

definition pct_diff :: "int \<Rightarrow> int \<Rightarrow> rat option" where
  "pct_diff a b = (if a = 0 then (if b = 0 then Some 0 else None)
     else Some (of_int (b - a) / of_int a * 100))"

definition out_of_tolerance :: "rat \<Rightarrow> rat option \<Rightarrow> bool" where
  "out_of_tolerance tol_pct pct = (case pct of None \<Rightarrow> True | Some p \<Rightarrow> \<bar>p\<bar> > tol_pct)"

record cycle_state =
  pc_mismatches :: "(json option \<times> json \<times> json) list"
  oot :: "(json option \<times> json option \<times> int \<times> int \<times> rat option) list"
  n_seq_mismatch :: nat
  prev_cyc_a :: int
  prev_cyc_c :: int
  paired_count :: nat
  pipe_mix :: "(json, nat) dict"
  pipe_recs :: nat

definition cycle_init :: cycle_state where
  "cycle_init = \<lparr> pc_mismatches = [], oot = [], n_seq_mismatch = 0, prev_cyc_a = 0, prev_cyc_c = 0,
     paired_count = 0, pipe_mix = [], pipe_recs = 0 \<rparr>"

definition count_pipe :: "jdict \<Rightarrow> cycle_state \<Rightarrow> cycle_state result" where
  "count_pipe c st =
    bindE (case map_of c ''pipe'' of None \<Rightarrow> Inr st
      | Some symb \<Rightarrow> (case symb of JList _ \<Rightarrow> Inl TypeError | JDict _ \<Rightarrow> Inl TypeError
         | _ \<Rightarrow> Inr (st\<lparr> pipe_recs := pipe_recs st + 1,
              pipe_mix := dset symb ((case map_of (pipe_mix st) symb of None \<Rightarrow> 0 | Some m \<Rightarrow> m) + 1) (pipe_mix st) \<rparr>)))
    (\<lambda>st. Inr (if truthy (dget c ''paired'') then st\<lparr> paired_count := paired_count st + 1 \<rparr> else st))"

text \<open>One pair of records; \<open>None\<close> is the early return for a missing cycle count.\<close>

definition cycle_step ::
  "rat \<Rightarrow> cycle_state \<Rightarrow> jdict \<Rightarrow> jdict \<Rightarrow> cycle_state option result" where
  "cycle_step tol_pct st a c =
    (let na = dget a ''n''; nc = dget c ''n'';
         st = (if \<not> opt_eq na nc then st\<lparr> n_seq_mismatch := n_seq_mismatch st + 1 \<rparr> else st);
         pc_a = dget a ''pc''; pc_c = dget c ''pc'';
         st = (case (pc_a, pc_c) of
                 (Some x, Some y) \<Rightarrow> if py_eq x y then st else st\<lparr> pc_mismatches := pc_mismatches st @ [(na, x, y)] \<rparr>
               | _ \<Rightarrow> st)
     in case (dget a ''cyc'', dget c ''cyc'') of
          (Some ja, Some jc) \<Rightarrow>
            bindE (as_int ja) (\<lambda>cyc_a. bindE (as_int jc) (\<lambda>cyc_c.
              let cost_a = cyc_a - prev_cyc_a st; cost_c = cyc_c - prev_cyc_c st;
                  st = st\<lparr> prev_cyc_a := cyc_a, prev_cyc_c := cyc_c \<rparr>;
                  pct = pct_diff cost_a cost_c;
                  st = (if out_of_tolerance tol_pct pct
                        then st\<lparr> oot := oot st @ [(na, pc_a, cost_a, cost_c, pct)] \<rparr> else st)
              in bindE (count_pipe c st) (\<lambda>st. Inr (Some st))))
        | _ \<Rightarrow> Inr None)"

fun cycle_loop :: "rat \<Rightarrow> (json \<times> json) list \<Rightarrow> cycle_state \<Rightarrow> (cycle_state + (jdict \<times> jdict)) result" where
  "cycle_loop tol_pct [] st = Inr (Inl st)"
| "cycle_loop tol_pct ((ja, jc) # rest) st =
    bindE (as_dict ja) (\<lambda>a. bindE (as_dict jc) (\<lambda>c. bindE (cycle_step tol_pct st a c) (\<lambda>r.
      case r of None \<Rightarrow> Inr (Inr (a, c)) | Some st \<Rightarrow> cycle_loop tol_pct rest st)))"

datatype cycle_line = CycMissing "json option" "json option" "json option" | CycBanner | CycCounts nat nat nat
  | CycTotals int int "rat option" rat | CycCpi rat rat | CycPipe "(json, nat) dict" rat nat nat | CycNoPipe
  | CycOot nat | CycSeqNote nat | CycPcNote nat int | CycPc "json option \<times> json \<times> json" | CycControlFlow
  | CycDivergent nat bool | CycCost "json option \<times> json option \<times> int \<times> int \<times> rat option"
  | CycLength nat nat | CycLengthDivergent nat nat | CycEquivalent rat

text \<open>A Python slice \<open>xs[:n]\<close> with any integer \<open>n\<close>.\<close>

definition upto_slice :: "int \<Rightarrow> 'a list \<Rightarrow> 'a list" where
  "upto_slice n xs = (if n \<ge> 0 then take (nat n) xs else take (nat (int (length xs) + n)) xs)"

text \<open>
  The totals that the source reads back from the last compared records are the last cycle counts
  of the loop.
\<close>

definition compare_cycle ::
  "trace \<Rightarrow> trace \<Rightarrow> rat \<Rightarrow> bool \<Rightarrow> int \<Rightarrow> (cycle_line list \<times> int) result" where
  "compare_cycle a c tol_pct show_all max_report =
    (let ra = records a; rc = records c; n_common = min (length ra) (length rc);
         len_mismatch = (length ra \<noteq> length rc)
     in bindE (cycle_loop tol_pct (zip ra rc) cycle_init) (\<lambda>r. case r of
       Inr (ra, rc) \<Rightarrow> Inr ([CycMissing (dget ra ''n'') (dget ra ''cyc'') (dget rc ''cyc'')], 2)
     | Inl st \<Rightarrow>
       let total_a = prev_cyc_a st; total_c = prev_cyc_c st; total_pct = pct_diff total_a total_c;
           cpi_a = (if n_common = 0 then 0 else of_int total_a / of_nat n_common);
           cpi_c = (if n_common = 0 then 0 else of_int total_c / of_nat n_common);
           pairing_pct = (if pipe_recs st = 0 then 0 else 100 * of_nat (paired_count st) / of_nat (pipe_recs st));
           out = [CycBanner, CycCounts (length ra) (length rc) n_common,
                  CycTotals total_a total_c total_pct tol_pct, CycCpi cpi_a cpi_c,
                  (if pipe_recs st \<noteq> 0 then CycPipe (pipe_mix st) pairing_pct (paired_count st) (pipe_recs st) else CycNoPipe),
                  CycOot (length (oot st))]
             @ (if n_seq_mismatch st \<noteq> 0 then [CycSeqNote (n_seq_mismatch st)] else [])
             @ (if pc_mismatches st \<noteq> []
                then CycPcNote (length (pc_mismatches st)) (min (int (length (pc_mismatches st))) max_report)
                     # map CycPc (upto_slice max_report (pc_mismatches st))
                else [])
       in if pc_mismatches st \<noteq> [] \<or> n_seq_mismatch st \<noteq> 0 then Inr (out @ [CycControlFlow], 1)
          else if oot st \<noteq> [] then
            Inr (out @ CycDivergent (length (oot st)) show_all
                 # map CycCost (upto_slice max_report (if show_all then oot st else take 1 (oot st)))
                 @ (if len_mismatch then [CycLength (length ra) (length rc)] else []), 1)
          else if len_mismatch then Inr (out @ [CycLengthDivergent (length ra) (length rc)], 1)
          else Inr (out @ [CycEquivalent tol_pct], 0)))"

subsection \<open>The command\<close>

record compare_args =
  ca_mode :: string
  ca_all :: bool
  ca_tol_pct :: rat
  ca_eflags_mask :: "int option"
  ca_max_report :: int
  ca_a :: string
  ca_c :: string

text \<open>
  \<open>files\<close> gives the lines of a path or None when it cannot be opened. Any exception but OSError
  and ValueError of the reader escapes main.
\<close>

definition load_trace :: "(string \<Rightarrow> string list option) \<Rightarrow> string \<Rightarrow> trace result" where
  "load_trace files path = bindE (of_option OSError (files path)) read_trace"

definition compare_main :: "disasm \<Rightarrow> (string \<Rightarrow> string list option) \<Rightarrow> compare_args \<Rightarrow> int result" where
  "compare_main cs files args =
    (case bindE (load_trace files (ca_a args)) (\<lambda>a. bindE (load_trace files (ca_c args)) (\<lambda>c. Inr (a, c))) of
       Inl e \<Rightarrow> if e = OSError \<or> e = ValueError then Inr 2 else Inl e
     | Inr (a, c) \<Rightarrow>
       bindE (validate_headers (ca_mode args) a c) (\<lambda>(warnings, ok, x87_both, sys_both).
         if \<not> ok then Inr 2
         else let eflags_mask = (case ca_eflags_mask args of None \<Rightarrow> EFLAGS_DEFAULT_MASK | Some m \<Rightarrow> m)
              in if ca_mode args = ''func'' then
                   bindE (compare_func cs a c x87_both eflags_mask (ca_all args) (ca_max_report args) sys_both)
                     (\<lambda>(out, code). Inr code)
                 else bindE (compare_cycle a c (ca_tol_pct args) (ca_all args) (ca_max_report args))
                     (\<lambda>(out, code). Inr code)))"

subsection \<open>What equivalence means\<close>

definition field_ok :: "int \<Rightarrow> string option \<Rightarrow> jdict \<Rightarrow> jdict \<Rightarrow> string \<Rightarrow> bool" where
  "field_ok msk mnem a c k =
    (case (dget a k, dget c k) of (None, None) \<Rightarrow> True
     | (Some va, Some vc) \<Rightarrow>
         if k = ''eflags'' then (\<exists>x y. parse_hex va = Inr x \<and> parse_hex vc = Inr y \<and>
           (x XOR y) AND (msk AND NOT (eflags_undefined_mask mnem)) = 0)
         else py_eq va vc
     | _ \<Rightarrow> False)"

definition records_agree :: "disasm \<Rightarrow> int \<Rightarrow> string list \<Rightarrow> json \<times> json \<Rightarrow> bool" where
  "records_agree cs msk keys z \<longleftrightarrow>
    (\<exists>a c mnem. z = (JDict a, JDict c) \<and> opt_eq (dget a ''n'') (dget c ''n'') \<and>
       record_mnemonic cs a c = Inr mnem \<and> (\<forall>k \<in> set keys. field_ok msk mnem a c k))"

lemma field_div_None: "field_div msk mnem a c k = Inr None \<longleftrightarrow> field_ok msk mnem a c k"
  by (cases "dget a k"; cases "dget c k")
    (auto simp: field_div_def field_ok_def eflags_equal_def Let_def bindE_def split: sum.splits if_splits)

lemma field_loop_clean:
  "field_loop sa msk mnem a c ks ds rd = Inr (ds, rd) \<longleftrightarrow> (\<forall>k \<in> set ks. field_ok msk mnem a c k)"
  and field_loop_grows:
  "field_loop sa msk mnem a c ks ds rd = Inr (ds', rd') \<Longrightarrow> \<exists>e. ds' = ds @ e \<and> (rd' \<longleftrightarrow> rd \<or> e \<noteq> [])"
proof -
  have grow: "field_loop sa msk mnem a c ks ds rd = Inr (ds', rd') \<Longrightarrow> \<exists>e. ds' = ds @ e \<and> (rd' \<longleftrightarrow> rd \<or> e \<noteq> [])"
    for ks ds rd ds' rd'
  proof (induction ks arbitrary: ds rd)
    case (Cons k ks)
    obtain d where d: "field_div msk mnem a c k = Inr d"
      using Cons.prems by (cases "field_div msk mnem a c k") simp_all
    show ?case
    proof (cases d)
      case None
      then show ?thesis using Cons d by simp
    next
      case (Some x)
      then show ?thesis using Cons.prems Cons.IH [of "ds @ [(dget a ''n'', get_pc a, x)]" True] d
        by (cases sa) (auto simp: Let_def)
    qed
  qed simp
  show "field_loop sa msk mnem a c ks ds rd = Inr (ds', rd') \<Longrightarrow> \<exists>e. ds' = ds @ e \<and> (rd' \<longleftrightarrow> rd \<or> e \<noteq> [])"
    by (rule grow)
  show "field_loop sa msk mnem a c ks ds rd = Inr (ds, rd) \<longleftrightarrow> (\<forall>k \<in> set ks. field_ok msk mnem a c k)"
  proof (induction ks)
    case (Cons k ks)
    show ?case
    proof (cases "field_ok msk mnem a c k")
      case True
      then have "field_div msk mnem a c k = Inr None" by (simp only: field_div_None)
      then show ?thesis using Cons True by simp
    next
      case False
      then have "field_div msk mnem a c k \<noteq> Inr None" by (simp only: field_div_None) simp
      then consider e where "field_div msk mnem a c k = Inl e" | x where "field_div msk mnem a c k = Inr (Some x)"
        by (cases "field_div msk mnem a c k") auto
      then show ?thesis
      proof cases
        case 2
        have "field_loop sa msk mnem a c ks (ds @ [(dget a ''n'', get_pc a, x)]) True \<noteq> Inr (ds, rd)"
          using grow [of ks "ds @ [(dget a ''n'', get_pc a, x)]" True ds rd] by auto
        then show ?thesis using 2 False by (cases sa) (simp_all add: Let_def)
      qed (use False in simp)
    qed
  qed simp
qed

lemma record_loop_grows:
  "record_loop cs sa mr msk keys zs ds = Inr ds' \<Longrightarrow> \<exists>e. ds' = ds @ e"
proof (induction zs arbitrary: ds)
  case (Cons z zs)
  obtain a c where z: "z = (JDict a, JDict c)"
    using Cons.prems by (cases z; cases "fst z"; cases "snd z") (simp_all add: as_dict_def)
  note loop = Cons.prems [unfolded z record_loop.simps as_dict_def json.case bindE_simps Let_def]
  show ?case
  proof (cases "opt_eq (dget a ''n'') (dget c ''n'')")
    case False
    show ?thesis
    proof (cases sa)
      case True
      then have "record_loop cs sa mr msk keys zs
          (ds @ [(dget a ''n'', get_pc a, Field ''n'', StrOf (dget a ''n''), StrOf (dget c ''n''))]) = Inr ds'"
        using loop False by simp
      then show ?thesis using Cons.IH by fastforce
    qed (use loop False in auto)
  next
    case True
    obtain mnem where m: "record_mnemonic cs a c = Inr mnem"
      using loop True by (cases "record_mnemonic cs a c") simp_all
    obtain d1 rd where f: "field_loop sa msk mnem a c keys ds False = Inr (d1, rd)"
      using loop True m by (cases "field_loop sa msk mnem a c keys ds False") auto
    obtain e where e: "d1 = ds @ e" using field_loop_grows [OF f] by blast
    have "ds' = d1 \<or> record_loop cs sa mr msk keys zs d1 = Inr ds'"
      using loop True m f by (simp split: if_splits)
    then show ?thesis
    proof
      assume "record_loop cs sa mr msk keys zs d1 = Inr ds'"
      then obtain e' where "ds' = d1 @ e'" using Cons.IH by blast
      then show ?thesis using e by simp
    qed (use e in simp)
  qed
qed simp

lemma record_loop_clean:
  assumes "sa \<Longrightarrow> mr \<ge> 1"
  shows "record_loop cs sa mr msk keys zs [] = Inr [] \<longleftrightarrow> (\<forall>z \<in> set zs. records_agree cs msk keys z)"
proof (induction zs)
  case (Cons z zs)
  show ?case
  proof (cases "records_agree cs msk keys z")
    case True
    then obtain a c mnem where z: "z = (JDict a, JDict c)" "opt_eq (dget a ''n'') (dget c ''n'')"
      "record_mnemonic cs a c = Inr mnem" "\<forall>k \<in> set keys. field_ok msk mnem a c k"
      by (auto simp: records_agree_def)
    have "field_loop sa msk mnem a c keys [] False = Inr ([], False)" using z(4) by (simp only: field_loop_clean)
    then show ?thesis using z Cons.IH True assms by (simp add: as_dict_def Let_def) linarith
  next
    case False
    have "record_loop cs sa mr msk keys (z # zs) [] \<noteq> Inr []"
    proof
      assume run: "record_loop cs sa mr msk keys (z # zs) [] = Inr []"
      obtain a c where z: "z = (JDict a, JDict c)"
        using run by (cases z; cases "fst z"; cases "snd z") (simp_all add: as_dict_def)
      note loop = run [unfolded z record_loop.simps as_dict_def json.case bindE_simps Let_def]
      have n: "opt_eq (dget a ''n'') (dget c ''n'')"
      proof (rule ccontr)
        assume n: "\<not> opt_eq (dget a ''n'') (dget c ''n'')"
        then have "sa \<and> record_loop cs sa mr msk keys zs
            [(dget a ''n'', get_pc a, Field ''n'', StrOf (dget a ''n''), StrOf (dget c ''n''))] = Inr []"
          using loop by (cases sa) simp_all
        then show False using record_loop_grows by fastforce
      qed
      obtain mnem where m: "record_mnemonic cs a c = Inr mnem"
        using loop n by (cases "record_mnemonic cs a c") simp_all
      obtain d rd where f: "field_loop sa msk mnem a c keys [] False = Inr (d, rd)"
        using loop n m by (cases "field_loop sa msk mnem a c keys [] False") auto
      have "d = [] \<or> record_loop cs sa mr msk keys zs d = Inr []"
        using loop n m f by (simp split: if_splits)
      then have "d = []" using record_loop_grows by fastforce
      moreover have "rd = False" using field_loop_grows [OF f] calculation by simp
      ultimately have "\<forall>k \<in> set keys. field_ok msk mnem a c k" using f field_loop_clean by blast
      then show False using False n m z by (auto simp: records_agree_def)
    qed
    then show ?thesis using False by simp
  qed
qed simp

definition graded_keys :: "trace \<Rightarrow> trace \<Rightarrow> bool \<Rightarrow> bool \<Rightarrow> string list result" where
  "graded_keys a c x87_both sys_both =
    (if sys_both then sys_keys_intersection (func_compare_keys x87_both sys_both) (records a) (records c)
     else Inr (func_compare_keys x87_both sys_both))"

text \<open>
  C3. The functional verdict is exact. Exit code 0 means, and is given whenever, both traces have
  the same number of records and every pair agrees: same sequence number, every graded field
  absent on both sides or present and equal, EFLAGS equal under the base mask less the flags that
  the decoded instruction leaves undefined. Listing all divergences (with room for at least one)
  does not change the verdict.
\<close>

theorem compare_func_exact:
  assumes "show_all \<Longrightarrow> max_report \<ge> 1"
  shows "(\<exists>out. compare_func cs a c x87 eflags_mask show_all max_report sys = Inr (out, 0)) \<longleftrightarrow>
    (\<exists>keys. graded_keys a c x87 sys = Inr keys \<and> length (records a) = length (records c) \<and>
      (\<forall>z \<in> set (zip (records a) (records c)). records_agree cs eflags_mask keys z))"
proof (cases "graded_keys a c x87 sys")
  case (Inl e)
  then show ?thesis by (simp add: compare_func_def graded_keys_def Let_def)
next
  case (Inr keys)
  note keys = Inr [unfolded graded_keys_def]
  note clean = record_loop_clean [OF assms, of show_all cs eflags_mask keys "zip (records a) (records c)"]
  show ?thesis
  proof (cases "record_loop cs show_all max_report eflags_mask keys (zip (records a) (records c)) []")
    case (Inl e)
    then show ?thesis using clean Inr by (auto simp: compare_func_def keys Let_def)
  next
    case (Inr divs)
    then show ?thesis using clean \<open>graded_keys a c x87 sys = Inr keys\<close>
      by (cases "divs = []") (auto simp: compare_func_def keys Let_def)
  qed
qed

definition sample_trace :: "int \<Rightarrow> trace" where
  "sample_trace eax = \<lparr> hdr = JDict [(''vtrace'', JInt 1), (''mode'', JStr ''func'')],
     records = [JDict [(''n'', JInt 0), (''pc'', JStr (h32 0x8048000)), (''eax'', JStr (h32 7))],
                JDict [(''n'', JInt 1), (''pc'', JStr (h32 0x8048002)), (''eax'', JStr (h32 eax)), (''ecx'', JStr (h32 eax))]] \<rparr>"

theorem compare_func_exact_witness:
  "(\<exists>out. compare_func None (sample_trace 1) (sample_trace 1) False EFLAGS_DEFAULT_MASK True 20 False = Inr (out, 0)) \<longleftrightarrow>
    (\<exists>keys. graded_keys (sample_trace 1) (sample_trace 1) False False = Inr keys \<and>
      length (records (sample_trace 1)) = length (records (sample_trace 1)) \<and>
      (\<forall>z \<in> set (zip (records (sample_trace 1)) (records (sample_trace 1))).
         records_agree None EFLAGS_DEFAULT_MASK keys z))"
  by (rule compare_func_exact) simp

text \<open>
  The report limit leaks into the verdict: with --all and a limit of zero or less the loop ends
  after the first record, so traces of equal length whose first records agree are reported
  EQUIVALENT whatever the other records hold.
\<close>

theorem compare_func_limit_zero:
  assumes "max_report \<le> 0" "graded_keys a c x87 sys = Inr keys" "length (records a) = length (records c)"
    and "records a = ja # ra" "records c = jc # rc" "records_agree cs eflags_mask keys (ja, jc)"
  shows "\<exists>out. compare_func cs a c x87 eflags_mask True max_report sys = Inr (out, 0)"
proof -
  obtain d e mnem where z: "ja = JDict d" "jc = JDict e" "opt_eq (dget d ''n'') (dget e ''n'')"
    "record_mnemonic cs d e = Inr mnem" "\<forall>k \<in> set keys. field_ok eflags_mask mnem d e k"
    using assms(6) by (auto simp: records_agree_def)
  have "field_loop True eflags_mask mnem d e keys [] False = Inr ([], False)" using z(5) by (simp only: field_loop_clean)
  then have "record_loop cs True max_report eflags_mask keys (zip (records a) (records c)) [] = Inr []"
    using z assms(1,4,5) by (simp add: as_dict_def Let_def)
  then show ?thesis using assms(2,3) by (simp add: compare_func_def graded_keys_def Let_def)
qed

theorem compare_func_limit_zero_witness:
  "(\<exists>out. compare_func None (sample_trace 1) (sample_trace 2) False EFLAGS_DEFAULT_MASK True 0 False = Inr (out, 0)) \<and>
   dget (case records (sample_trace 1) ! 1 of JDict d \<Rightarrow> d) ''eax'' \<noteq> dget (case records (sample_trace 2) ! 1 of JDict d \<Rightarrow> d) ''eax''"
proof
  have "records_agree None EFLAGS_DEFAULT_MASK (func_compare_keys False False)
      (JDict [(''n'', JInt 0), (''pc'', JStr (h32 0x8048000)), (''eax'', JStr (h32 7))],
       JDict [(''n'', JInt 0), (''pc'', JStr (h32 0x8048000)), (''eax'', JStr (h32 7))])"
    by (simp add: records_agree_def record_mnemonic_def mnemonic_from_bytes_def opt_eq_def dget_def field_ok_def
        truthy_def func_compare_keys_def key_lists)
  then show "\<exists>out. compare_func None (sample_trace 1) (sample_trace 2) False EFLAGS_DEFAULT_MASK True 0 False = Inr (out, 0)"
    by (intro compare_func_limit_zero [where ra = "[_]" and rc = "[_]"]) (simp_all add: sample_trace_def graded_keys_def)
  show "dget (case records (sample_trace 1) ! 1 of JDict d \<Rightarrow> d) ''eax'' \<noteq> dget (case records (sample_trace 2) ! 1 of JDict d \<Rightarrow> d) ''eax''"
    by code_simp
qed

subsection \<open>What the cycle verdict says about totals\<close>

lemma pct_within:
  assumes "\<not> out_of_tolerance tol (pct_diff ca cc)" "0 \<le> ca"
  shows "100 * \<bar>of_int (cc - ca)\<bar> \<le> tol * of_int ca"
proof (cases "ca = 0")
  case True
  then show ?thesis using assms(1) by (simp add: pct_diff_def out_of_tolerance_def split: if_splits)
next
  case False
  then have "ca > 0" "\<bar>of_int (cc - ca) / of_int ca * 100\<bar> \<le> tol"
    using assms by (simp_all add: pct_diff_def out_of_tolerance_def)
  then show ?thesis by (simp add: abs_mult abs_divide field_simps del: of_int_diff)
qed

definition cyc_value :: "json \<Rightarrow> int option" where
  "cyc_value r = (case r of JDict d \<Rightarrow> (case dget d ''cyc'' of Some v \<Rightarrow> (case as_int v of Inr n \<Rightarrow> Some n | Inl _ \<Rightarrow> None)
     | None \<Rightarrow> None) | _ \<Rightarrow> None)"

lemma count_pipe_keeps:
  "count_pipe c st = Inr st' \<Longrightarrow> oot st' = oot st \<and> prev_cyc_a st' = prev_cyc_a st \<and>
    prev_cyc_c st' = prev_cyc_c st \<and> n_seq_mismatch st' = n_seq_mismatch st \<and> pc_mismatches st' = pc_mismatches st"
  by (auto simp: count_pipe_def bindE_def split: option.splits json.splits sum.splits if_splits)

lemma cycle_step_facts:
  assumes "cycle_step tol st a c = Inr (Some st')"
  shows "\<exists>ca cc. cyc_value (JDict a) = Some ca \<and> cyc_value (JDict c) = Some cc \<and>
    prev_cyc_a st' = ca \<and> prev_cyc_c st' = cc \<and> (\<exists>e. oot st' = oot st @ e \<and>
    (e = [] \<longrightarrow> \<not> out_of_tolerance tol (pct_diff (ca - prev_cyc_a st) (cc - prev_cyc_c st))))"
proof -
  define st0 where "st0 = (if \<not> opt_eq (dget a ''n'') (dget c ''n'') then st\<lparr> n_seq_mismatch := n_seq_mismatch st + 1 \<rparr> else st)"
  define st1 where "st1 = (case (dget a ''pc'', dget c ''pc'') of
                 (Some x, Some y) \<Rightarrow> if py_eq x y then st0 else st0\<lparr> pc_mismatches := pc_mismatches st0 @ [(dget a ''n'', x, y)] \<rparr>
               | _ \<Rightarrow> st0)"
  have same: "oot st1 = oot st" "prev_cyc_a st1 = prev_cyc_a st" "prev_cyc_c st1 = prev_cyc_c st"
    by (auto simp: st1_def st0_def split: option.splits)
  note run = assms [unfolded cycle_step_def Let_def, folded st0_def, folded st1_def]
  obtain ja jc where j: "dget a ''cyc'' = Some ja" "dget c ''cyc'' = Some jc"
    using run by (cases "dget a ''cyc''"; cases "dget c ''cyc''") simp_all
  obtain ca cc where i: "as_int ja = Inr ca" "as_int jc = Inr cc"
    using run j by (cases "as_int ja"; cases "as_int jc") simp_all
  let ?p = "pct_diff (ca - prev_cyc_a st) (cc - prev_cyc_c st)"
  define st2 where "st2 = st1\<lparr> prev_cyc_a := ca, prev_cyc_c := cc \<rparr>"
  define st3 where "st3 = (if out_of_tolerance tol ?p then st2\<lparr> oot := oot st2 @ [(dget a ''n'', dget a ''pc'',
        ca - prev_cyc_a st, cc - prev_cyc_c st, ?p)] \<rparr> else st2)"
  have s3: "count_pipe c st3 = Inr st'"
    using run j i by (cases "out_of_tolerance tol ?p") (simp_all add: same bindE_eq_Inr st2_def st3_def)
  have "prev_cyc_a st3 = ca" "prev_cyc_c st3 = cc" "\<exists>e. oot st3 = oot st @ e \<and> (e = [] \<longrightarrow> \<not> out_of_tolerance tol ?p)"
    by (simp_all add: st3_def st2_def same)
  then show ?thesis using count_pipe_keeps [OF s3] j i by (auto simp: cyc_value_def)
qed

lemma scaled_sum: "x \<le> y + z \<Longrightarrow> 100 * y \<le> p \<Longrightarrow> 100 * z \<le> q \<Longrightarrow> r = p + q \<Longrightarrow> 100 * (x :: rat) \<le> r"
  by simp

lemma cycle_loop_totals:
  assumes "cycle_loop tol zs st = Inr (Inl st')" "oot st' = []"
    and "map (cyc_value \<circ> fst) zs = map Some cas" "sorted (prev_cyc_a st # cas)"
  shows "oot st = [] \<and> 100 * \<bar>of_int ((prev_cyc_c st' - prev_cyc_c st) - (prev_cyc_a st' - prev_cyc_a st))\<bar>
      \<le> tol * of_int (prev_cyc_a st' - prev_cyc_a st) \<and> prev_cyc_a st' = last (prev_cyc_a st # cas)"
  using assms
proof (induction zs arbitrary: st cas)
  case (Cons z zs)
  obtain a c where z: "z = (JDict a, JDict c)"
    using Cons.prems by (cases z; cases "fst z"; cases "snd z") (simp_all add: as_dict_def)
  obtain st1 where st1: "cycle_step tol st a c = Inr (Some st1)" "cycle_loop tol zs st1 = Inr (Inl st')"
    using Cons.prems(1) by (auto simp: z as_dict_def bindE_eq_Inr split: option.splits)
  obtain ca cc e where f: "cyc_value (JDict a) = Some ca" "prev_cyc_a st1 = ca" "prev_cyc_c st1 = cc"
    "oot st1 = oot st @ e" "e = [] \<longrightarrow> \<not> out_of_tolerance tol (pct_diff (ca - prev_cyc_a st) (cc - prev_cyc_c st))"
    using cycle_step_facts [OF st1(1)] by blast
  obtain cas' where cas: "cas = ca # cas'" "map (cyc_value \<circ> fst) zs = map Some cas'"
    using Cons.prems(3) f(1) by (cases cas) (auto simp: z comp_def)
  have ih: "oot st1 = []" "100 * \<bar>of_int ((prev_cyc_c st' - cc) - (prev_cyc_a st' - ca))\<bar>
      \<le> tol * of_int (prev_cyc_a st' - ca)" "prev_cyc_a st' = last (ca # cas')"
  proof -
    have "sorted (prev_cyc_a st1 # cas')" using Cons.prems(4) f(2) cas by simp
    from Cons.IH [OF st1(2) Cons.prems(2) cas(2) this]
    show "oot st1 = []" "100 * \<bar>of_int ((prev_cyc_c st' - cc) - (prev_cyc_a st' - ca))\<bar>
        \<le> tol * of_int (prev_cyc_a st' - ca)" "prev_cyc_a st' = last (ca # cas')"
      unfolding f(2,3) by blast+
  qed
  have mono: "0 \<le> ca - prev_cyc_a st" using Cons.prems(4) cas by simp
  have step: "100 * \<bar>of_int ((cc - prev_cyc_c st) - (ca - prev_cyc_a st))\<bar> \<le> tol * of_int (ca - prev_cyc_a st)"
  proof (rule pct_within [OF _ mono])
    show "\<not> out_of_tolerance tol (pct_diff (ca - prev_cyc_a st) (cc - prev_cyc_c st))" using f(4,5) ih(1) by simp
  qed
  have tri: "\<bar>of_int ((prev_cyc_c st' - prev_cyc_c st) - (prev_cyc_a st' - prev_cyc_a st)) :: rat\<bar>
      \<le> \<bar>of_int ((prev_cyc_c st' - cc) - (prev_cyc_a st' - ca))\<bar> + \<bar>of_int ((cc - prev_cyc_c st) - (ca - prev_cyc_a st))\<bar>"
    by simp
  have "tol * of_int (prev_cyc_a st' - prev_cyc_a st) =
      tol * of_int (prev_cyc_a st' - ca) + tol * of_int (ca - prev_cyc_a st)" by (simp add: algebra_simps)
  then have "100 * \<bar>of_int ((prev_cyc_c st' - prev_cyc_c st) - (prev_cyc_a st' - prev_cyc_a st))\<bar>
      \<le> tol * of_int (prev_cyc_a st' - prev_cyc_a st)" by (rule scaled_sum [OF tri ih(2) step])
  then show ?case using ih f(4) cas by simp
qed simp

lemma cycle_loop_values:
  assumes "cycle_loop tol zs st = Inr (Inl st')"
  shows "\<exists>ccs. map (cyc_value \<circ> snd) zs = map Some ccs \<and> prev_cyc_c st' = last (prev_cyc_c st # ccs)"
  using assms
proof (induction zs arbitrary: st)
  case (Cons z zs)
  obtain a c where z: "z = (JDict a, JDict c)"
    using Cons.prems by (cases z; cases "fst z"; cases "snd z") (simp_all add: as_dict_def)
  obtain st1 where st1: "cycle_step tol st a c = Inr (Some st1)" "cycle_loop tol zs st1 = Inr (Inl st')"
    using Cons.prems(1) by (auto simp: z as_dict_def bindE_eq_Inr split: option.splits)
  obtain cc where cc: "cyc_value (JDict c) = Some cc" "prev_cyc_c st1 = cc"
    using cycle_step_facts [OF st1(1)] by blast
  obtain ccs where "map (cyc_value \<circ> snd) zs = map Some ccs" "prev_cyc_c st' = last (prev_cyc_c st1 # ccs)"
    using Cons.IH [OF st1(2)] by blast
  then have "map (cyc_value \<circ> snd) (z # zs) = map Some (cc # ccs) \<and> prev_cyc_c st' = last (prev_cyc_c st # cc # ccs)"
    using cc by (simp only: list.map z comp_apply snd_conv last_ConsR list.distinct simp_thms not_Cons_self2)
  then show ?case by blast
qed simp

text \<open>
  C6. An EQUIVALENT cycle verdict bounds the totals: when no cost of the golden trace is negative,
  exit code 0 means that the traces are equally long and that the total of the device under test
  differs from the golden total by at most the tolerance, although only single instructions are
  checked against it.
\<close>

theorem compare_cycle_total:
  assumes "compare_cycle a c tol show_all max_report = Inr (out, 0)"
    and "map cyc_value (records a) = map Some cas" "sorted (0 # cas)"
  shows "\<exists>ccs. map cyc_value (records c) = map Some ccs \<and> length ccs = length cas \<and>
    100 * \<bar>of_int (last (0 # ccs) - last (0 # cas))\<bar> \<le> tol * of_int (last (0 # cas))"
proof -
  obtain st where loop: "cycle_loop tol (zip (records a) (records c)) cycle_init = Inr (Inl st)"
  proof (cases "cycle_loop tol (zip (records a) (records c)) cycle_init")
    case (Inr r)
    then show thesis using assms(1) that by (cases r) (auto simp: compare_cycle_def Let_def)
  qed (use assms(1) in \<open>simp add: compare_cycle_def Let_def\<close>)
  have "oot st = [] \<and> length (records a) = length (records c)"
    using assms(1) unfolding compare_cycle_def Let_def loop
    by (cases "pc_mismatches st \<noteq> [] \<or> n_seq_mismatch st \<noteq> 0"; cases "oot st = []";
        cases "length (records a) = length (records c)") simp_all
  then have st: "cycle_loop tol (zip (records a) (records c)) cycle_init = Inr (Inl st)"
    "oot st = []" "length (records a) = length (records c)" using loop by simp_all
  have fst: "map (cyc_value \<circ> fst) (zip (records a) (records c)) = map Some cas"
    using assms(2) st(3) by (simp flip: map_map)
  obtain ccs where ccs: "map (cyc_value \<circ> snd) (zip (records a) (records c)) = map Some ccs"
    "prev_cyc_c st = last (prev_cyc_c cycle_init # ccs)" using cycle_loop_values [OF st(1)] by blast
  have "map cyc_value (records c) = map Some ccs" using ccs(1) st(3) by (simp flip: map_map)
  moreover from this have "length ccs = length cas" using assms(2) st(3) by (metis length_map)
  moreover have "100 * \<bar>of_int (last (0 # ccs) - last (0 # cas))\<bar> \<le> tol * of_int (last (0 # cas))"
  proof -
    have init: "prev_cyc_a cycle_init = 0" "prev_cyc_c cycle_init = 0" by (simp_all add: cycle_init_def)
    note bound = cycle_loop_totals [OF st(1,2) fst, unfolded init, OF assms(3)]
    have ends: "last (0 # ccs) = prev_cyc_c st" "last (0 # cas) = prev_cyc_a st"
      using ccs(2) bound unfolding init by simp_all
    show ?thesis unfolding ends using bound [THEN conjunct2, THEN conjunct1] by simp
  qed
  ultimately show ?thesis by blast
qed

definition sample_cycles :: "int list \<Rightarrow> trace" where
  "sample_cycles cs = \<lparr> hdr = JDict [(''vtrace'', JInt 1), (''mode'', JStr ''cycle'')],
     records = map (\<lambda>k. JDict [(''n'', JInt 0), (''pc'', JStr (h32 0x8048000)), (''cyc'', JInt k)]) cs \<rparr>"

theorem compare_cycle_total_witness:
  "\<exists>ccs. map cyc_value (records (sample_cycles [21, 40])) = map Some ccs \<and> length ccs = length [20 :: int, 40] \<and>
    100 * \<bar>of_int (last (0 # ccs) - last (0 # [20, 40]))\<bar> \<le> (5 :: rat) * of_int (last (0 # [20, 40]))"
proof (rule compare_cycle_total)
  show "compare_cycle (sample_cycles [20, 40]) (sample_cycles [21, 40]) 5 False 20 =
      Inr (fst (the (case compare_cycle (sample_cycles [20, 40]) (sample_cycles [21, 40]) 5 False 20 of
             Inr r \<Rightarrow> Some r | Inl e \<Rightarrow> None)), 0)" by code_simp
qed (simp_all add: sample_cycles_def cyc_value_def dget_def as_int_def)

end
