(* ===== verification/Trace_Stream.thy ===== *)
theory Trace_Stream
  imports Trace_Compare
begin

text \<open>
  The streaming comparator of verif/diff/compare_stream.py: the golden generator with its optional
  collapsing of architectural duplicates, and the positional loop with its early exits. A file is
  the list of its lines; the grading functions are those of compare.py.
\<close>

definition ARCH_KEYS :: "string list" where
  "ARCH_KEYS = func_compare_keys False True @
    concat (map (\<lambda>s. map (\<lambda>suf. s @ ''_'' @ suf) [''base'', ''limit'', ''attr'']) SEG_KEYS)"

definition arch_key :: "jdict \<Rightarrow> json option list" where
  "arch_key r = map (dget r) ARCH_KEYS"

definition key_eq :: "json option list \<Rightarrow> json option list option \<Rightarrow> bool" where
  "key_eq k p = (case p of None \<Rightarrow> False | Some l \<Rightarrow> list_all2 opt_eq k l)"

text \<open>The generator between two \<open>next\<close> calls: the last key, the collapsed count, the lines left.\<close>

record golden_state =
  prev_key :: "json option list option"
  collapsed :: nat
  golden_lines :: "string list"

function next_golden :: "bool \<Rightarrow> golden_state \<Rightarrow> (json \<times> golden_state) option result" where
  "next_golden dedup g =
    (case golden_lines g of [] \<Rightarrow> Inr None
     | la # fa \<Rightarrow> bindE (loads la) (\<lambda>ra.
         let g = g\<lparr> golden_lines := fa \<rparr> in
         if \<not> dedup then Inr (Some (ra, g))
         else bindE (as_dict ra) (\<lambda>d.
           let key = arch_key d in
           if key_eq key (prev_key g) then next_golden dedup (g\<lparr> collapsed := collapsed g + 1 \<rparr>)
           else Inr (Some (ra, g\<lparr> prev_key := Some key \<rparr>)))))"
  by auto
termination by (relation "measure (\<lambda>(d, g). length (golden_lines g))") auto

declare next_golden.simps [simp del]

record stream_args =
  sa_sys :: bool
  sa_max :: "int option"
  sa_dedup :: bool
  sa_x87 :: bool

datatype stream_line = MissingHeader | Misaligned "json option" "json option" int
  | OneSide "json option" "json option" string "json option" "json option"
  | EflagsDiffer "json option" "json option" int json json
  | FieldDiffers "json option" "json option" string json json
  | StreamEquivalent int nat bool

fun stream_fields ::
  "int \<Rightarrow> string option \<Rightarrow> jdict \<Rightarrow> jdict \<Rightarrow> string list \<Rightarrow> stream_line option result" where
  "stream_fields msk mnem a c [] = Inr None"
| "stream_fields msk mnem a c (f # fs) =
    (case (dget a f, dget c f) of
       (None, None) \<Rightarrow> stream_fields msk mnem a c fs
     | (Some va, Some vc) \<Rightarrow>
         if f = ''eflags'' then bindE (eflags_equal va vc msk mnem) (\<lambda>(eq, eff).
           if \<not> eq then Inr (Some (EflagsDiffer (dget a ''n'') (dget a ''pc'') eff va vc))
           else stream_fields msk mnem a c fs)
         else if \<not> py_eq va vc then Inr (Some (FieldDiffers (dget a ''n'') (dget a ''pc'') f va vc))
         else stream_fields msk mnem a c fs
     | (va, vc) \<Rightarrow> Inr (Some (OneSide (dget a ''n'') (dget a ''pc'') f va vc)))"

fun stream_loop ::
  "disasm \<Rightarrow> stream_args \<Rightarrow> string list \<Rightarrow> string list \<Rightarrow> golden_state \<Rightarrow> int \<Rightarrow> nat \<Rightarrow> (stream_line \<times> int) result" where
  "stream_loop cs args keys [] g n coll = Inr (StreamEquivalent n coll (sa_dedup args), 0)"
| "stream_loop cs args keys (lc # fc) g n coll =
    (if (case sa_max args of None \<Rightarrow> False | Some m \<Rightarrow> n \<ge> m) then Inr (StreamEquivalent n coll (sa_dedup args), 0)
     else bindE (next_golden (sa_dedup args) g) (\<lambda>y. case y of
       None \<Rightarrow> Inr (StreamEquivalent n coll (sa_dedup args), 0)
     | Some (ja, g) \<Rightarrow> let coll = collapsed g in bindE (loads lc) (\<lambda>jc.
         bindE (as_dict ja) (\<lambda>a. bindE (as_dict jc) (\<lambda>c.
           let na = dget a ''n''; nc = dget c ''n''
           in if \<not> sa_dedup args \<and> \<not> opt_eq na nc then Inr (Misaligned na nc n, 1)
              else bindE (record_mnemonic cs a c) (\<lambda>mnem.
                bindE (stream_fields EFLAGS_DEFAULT_MASK mnem a c keys) (\<lambda>d. case d of
                  Some line \<Rightarrow> Inr (line, 1)
                | None \<Rightarrow> stream_loop cs args keys fc g (n + 1) coll)))))))"

definition readline :: "string list \<Rightarrow> string \<times> string list" where
  "readline f = (case f of [] \<Rightarrow> ([], []) | l # ls \<Rightarrow> (l, ls))"

definition stream_main :: "disasm \<Rightarrow> stream_args \<Rightarrow> string list \<Rightarrow> string list \<Rightarrow> (stream_line \<times> int) result" where
  "stream_main cs args golden rtl =
    (let keys = func_compare_keys (sa_x87 args) (sa_sys args);
         (ha, fa) = readline golden; (hc, fc) = readline rtl;
         q = [CHR 0x22] @ ''vtrace'' @ [CHR 0x22]
     in if \<not> contains ha q \<or> \<not> contains hc q then Inr (MissingHeader, 2)
        else stream_loop cs args keys fc \<lparr> prev_key = None, collapsed = 0, golden_lines = fa \<rparr> 0 0)"

subsection \<open>Agreement with the in-memory comparator\<close>

lemma stream_fields_clean:
  "stream_fields msk mnem a c ks = Inr None \<longleftrightarrow> (\<forall>k \<in> set ks. field_ok msk mnem a c k)"
proof (induction ks)
  case (Cons k ks)
  show ?case
    by (cases "dget a k"; cases "dget c k")
      (auto simp: field_ok_def eflags_equal_def Let_def bindE_def Cons.IH split: sum.splits if_splits)
qed simp

definition written :: "jdict \<Rightarrow> string" where
  "written r = dumps (JDict r) @ [CHR 0x0A]"

lemma loads_written: "json_ok (JDict r) \<Longrightarrow> loads (written r) = Inr (JDict r)"
  unfolding written_def by (rule loads_dumps) simp_all

lemma next_golden_plain:
  "next_golden False g = (case golden_lines g of [] \<Rightarrow> Inr None
     | la # fa \<Rightarrow> bindE (loads la) (\<lambda>ra. Inr (Some (ra, g\<lparr> golden_lines := fa \<rparr>))))"
  by (subst next_golden.simps) (simp split: list.split)

definition plain_args :: "bool \<Rightarrow> bool \<Rightarrow> stream_args" where
  "plain_args x87 sys = \<lparr> sa_sys = sys, sa_max = None, sa_dedup = False, sa_x87 = x87 \<rparr>"

lemma plain_args_sel [simp]:
  "sa_sys (plain_args x87 sys) = sys" "sa_max (plain_args x87 sys) = None"
  "sa_dedup (plain_args x87 sys) = False" "sa_x87 (plain_args x87 sys) = x87"
  by (simp_all add: plain_args_def)

lemma stream_loop_clean:
  assumes "\<forall>r \<in> set as \<union> set cs. json_ok (JDict r)"
  shows "(\<exists>line. stream_loop dis (plain_args x87 sys) keys (map written cs)
      \<lparr> prev_key = None, collapsed = 0, golden_lines = map written as \<rparr> n k = Inr (line, 0)) \<longleftrightarrow>
    (\<forall>z \<in> set (zip (map JDict as) (map JDict cs)). records_agree dis EFLAGS_DEFAULT_MASK keys z)"
  using assms
proof (induction as cs arbitrary: n k rule: list_induct2')
  case (4 a as c cs)
  let ?g = "\<lparr> prev_key = None, collapsed = 0, golden_lines = map written as \<rparr>"
  have lc: "loads (written c) = Inr (JDict c)" and la: "loads (written a) = Inr (JDict a)"
    using "4.prems" by (simp_all add: loads_written)
  have ih: "(\<exists>line. stream_loop dis (plain_args x87 sys) keys (map written cs) ?g (n + 1) 0 = Inr (line, 0)) \<longleftrightarrow>
      (\<forall>z \<in> set (zip (map JDict as) (map JDict cs)). records_agree dis EFLAGS_DEFAULT_MASK keys z)"
    using "4.IH" "4.prems" by simp
  have step: "stream_loop dis (plain_args x87 sys) keys (map written (c # cs))
      \<lparr> prev_key = None, collapsed = 0, golden_lines = map written (a # as) \<rparr> n k =
    (if \<not> opt_eq (dget a ''n'') (dget c ''n'') then Inr (Misaligned (dget a ''n'') (dget c ''n'') n, 1)
     else bindE (record_mnemonic dis a c) (\<lambda>mnem.
       bindE (stream_fields EFLAGS_DEFAULT_MASK mnem a c keys) (\<lambda>d. case d of Some line \<Rightarrow> Inr (line, 1)
         | None \<Rightarrow> stream_loop dis (plain_args x87 sys) keys (map written cs) ?g (n + 1) 0)))"
    by (simp add: next_golden_plain la lc as_dict_def Let_def)
  have agree: "records_agree dis EFLAGS_DEFAULT_MASK keys (JDict a, JDict c) \<longleftrightarrow>
      opt_eq (dget a ''n'') (dget c ''n'') \<and> (\<exists>mnem. record_mnemonic dis a c = Inr mnem \<and>
        stream_fields EFLAGS_DEFAULT_MASK mnem a c keys = Inr None)"
    by (auto simp: records_agree_def stream_fields_clean)
  show ?case
  proof (cases "record_mnemonic dis a c")
    case (Inl e)
    then show ?thesis unfolding step by (simp add: agree)
  next
    case (Inr mnem)
    then show ?thesis unfolding step
      by (cases "stream_fields EFLAGS_DEFAULT_MASK mnem a c keys") (auto simp: agree ih split: option.split)
  qed
qed (simp_all add: next_golden_plain)

lemma contains_append: "contains (p @ q @ s) q"
proof (induction p)
  case Nil
  have "startswith (q @ s) q" by simp
  then show ?case by (cases "q @ s") auto
next
  case (Cons c p)
  then show ?case by simp
qed

definition header_line :: "string \<Rightarrow> bool" where
  "header_line l \<longleftrightarrow> contains l ([CHR 0x22] @ ''vtrace'' @ [CHR 0x22])"



end
