(* ===== verification/Py_Regex.thy ===== *)
theory Py_Regex
  imports Py_Base
begin

text \<open>
  The pieces of the regular expressions that several modules use, as matchers that return the value
  of a group and the text left, and the two ways of applying an expression to a text: the leftmost
  match of \<open>search\<close> and the matches of \<open>findall\<close>.
\<close>

subsection \<open>Regular expressions\<close>

text \<open>
  Every repetition in the expressions of the modelled modules is followed by a character outside its class, so
  greedy matching without backtracking is exact. The group of a number is its value.
\<close>

fun lit :: "string \<Rightarrow> string \<Rightarrow> string option" where
  "lit [] s = Some s"
| "lit (p # ps) [] = None"
| "lit (p # ps) (c # s) = (if p = c then lit ps s else None)"

definition hexval :: "char \<Rightarrow> int option" where
  "hexval c = (case digit_val c of Some d \<Rightarrow> if d < 16 then Some d else None | None \<Rightarrow> None)"

definition decval :: "char \<Rightarrow> int option" where
  "decval c = (case digit_val c of Some d \<Rightarrow> if d < 10 then Some d else None | None \<Rightarrow> None)"

fun hexn :: "nat \<Rightarrow> int \<Rightarrow> string \<Rightarrow> (int \<times> string) option" where
  "hexn 0 acc s = Some (acc, s)"
| "hexn (Suc n) acc [] = None"
| "hexn (Suc n) acc (c # s) = (case hexval c of None \<Rightarrow> None | Some d \<Rightarrow> hexn n (acc * 16 + d) s)"

definition span :: "(char \<Rightarrow> bool) \<Rightarrow> string \<Rightarrow> string \<times> string" where
  "span p s = (takeWhile p s, dropWhile p s)"

definition plus :: "(char \<Rightarrow> bool) \<Rightarrow> string \<Rightarrow> (string \<times> string) option" where
  "plus p s = (case span p s of ([], _) \<Rightarrow> None | (g, r) \<Rightarrow> Some (g, r))"

definition number :: "int \<Rightarrow> string \<Rightarrow> int" where
  "number b g = foldl (\<lambda>a c. a * b + the (digit_val c)) 0 g"

definition is_hex :: "char \<Rightarrow> bool" where "is_hex c = (hexval c \<noteq> None)"
definition is_dec :: "char \<Rightarrow> bool" where "is_dec c = (decval c \<noteq> None)"

definition hexs :: "string \<Rightarrow> (int \<times> string) option" where
  "hexs s = map_option (\<lambda>(g, r). (number 16 g, r)) (plus is_hex s)"

definition decs :: "string \<Rightarrow> (int \<times> string) option" where
  "decs s = map_option (\<lambda>(g, r). (number 10 g, r)) (plus is_dec s)"

definition blanks :: "string \<Rightarrow> string option" where
  "blanks s = map_option snd (plus is_ws s)"

text \<open>Word characters of an 8-bit text, for the boundary before \<open>v=\<close>.\<close>

definition is_word :: "char \<Rightarrow> bool" where
  "is_word c = (let n = of_char c :: nat in (48 \<le> n \<and> n \<le> 57) \<or> (65 \<le> n \<and> n \<le> 90) \<or> n = 95 \<or>
     (97 \<le> n \<and> n \<le> 122) \<or> n \<in> {170, 178, 179, 181, 185, 186, 188, 189, 190} \<or>
     (192 \<le> n \<and> n \<noteq> 215 \<and> n \<noteq> 247))"

text \<open>\<open>search\<close>: the leftmost match; the matcher sees the character before its position.\<close>

fun re_search :: "(char option \<Rightarrow> string \<Rightarrow> 'g option) \<Rightarrow> char option \<Rightarrow> string \<Rightarrow> 'g option" where
  "re_search m prev [] = m prev []"
| "re_search m prev (c # s) = (case m prev (c # s) of Some g \<Rightarrow> Some g | None \<Rightarrow> re_search m (Some c) s)"

text \<open>
  \<open>findall\<close>: the matches from left to right, each starting where the previous one ended. The
  first argument bounds the number of positions tried; the length of the text is enough, since a
  match of the expressions used here is never empty.
\<close>

fun findall_upto :: "(string \<Rightarrow> ('g \<times> string) option) \<Rightarrow> nat \<Rightarrow> string \<Rightarrow> 'g list" where
  "findall_upto m 0 s = []"
| "findall_upto m (Suc n) [] = []"
| "findall_upto m (Suc n) (c # s) = (case m (c # s) of Some (g, r) \<Rightarrow> g # findall_upto m n r
     | None \<Rightarrow> findall_upto m n s)"

definition findall :: "(string \<Rightarrow> ('g \<times> string) option) \<Rightarrow> string \<Rightarrow> 'g list" where
  "findall m s = findall_upto m (length s) s"

subsection \<open>The matchers on rendered numbers\<close>

lemma hexval_digit: "0 \<le> k \<Longrightarrow> k < 16 \<Longrightarrow> hexval (digit_char k) = Some k"
  by (simp add: hexval_def digit_val_char)

lemma hexn_value: "\<forall>c \<in> set g. is_hex c \<Longrightarrow> hexn (length g) acc (g @ r) = Some (foldl (\<lambda>a c. a * 16 + the (hexval c)) acc g, r)"
  by (induction g arbitrary: acc) (auto simp: is_hex_def)

lemma digits_hex: "c \<in> set (digits b n) \<Longrightarrow> 2 \<le> b \<Longrightarrow> b \<le> 16 \<Longrightarrow> is_hex c"
  using digits_chars [of c b n] by (fastforce simp: is_hex_def hexval_digit)

lemma fold_digits:
  assumes "0 \<le> n" "2 \<le> b" "b \<le> 16"
  shows "foldl (\<lambda>a c. a * b + the (digit_val c)) 0 (digits b n) = n"
  using assms
proof (induction b n rule: digits.induct)
  case (1 b n)
  have "0 \<le> n mod b" "n mod b < b" using 1 by simp_all
  then have "0 \<le> n mod b" "n mod b < 16" using 1 by linarith+
  then show ?case using 1 by (subst digits.simps) (auto simp: digit_val_char pos_imp_zdiv_nonneg_iff)
qed

lemma fold_hexval: "\<forall>c \<in> set g. is_hex c \<Longrightarrow>
    foldl (\<lambda>a c. a * 16 + the (hexval c)) acc g = foldl (\<lambda>a c. a * 16 + the (digit_val c)) acc g"
proof (induction g arbitrary: acc)
  case (Cons c g)
  have "hexval c = digit_val c" using Cons.prems by (auto simp: is_hex_def hexval_def split: option.splits if_splits)
  then show ?case using Cons by simp
qed simp

lemma fold_zeros: "foldl (\<lambda>a c. a * b + the (digit_val c)) 0 (replicate n CHR ''0'' @ g) = foldl (\<lambda>a c. a * b + the (digit_val c)) 0 g" for b :: int
  by (induction n) (simp_all add: digit_val_def)

lemma hexn_pad:
  assumes "0 \<le> v" "v < 16 ^ w" "w > 0"
  shows "hexn w 0 (hex_pad w v @ r) = Some (v, r)"
proof -
  have "length (digits 16 v) \<le> w" using assms by (intro digits_length) simp_all
  then have len: "length (hex_pad w v) = w" by (simp add: hex_pad_def zfill_def)
  have hex: "\<forall>c \<in> set (hex_pad w v). is_hex c"
    using digits_hex [of _ 16 v] by (auto simp: hex_pad_def zfill_def is_hex_def hexval_def digit_val_def)
  have "foldl (\<lambda>a c. a * 16 + the (digit_val c)) 0 (hex_pad w v) = v"
    unfolding hex_pad_def zfill_def fold_zeros using assms(1) by (simp add: fold_digits)
  then show ?thesis using hexn_value [OF hex, of 0 r] len by (simp add: fold_hexval [OF hex])
qed

lemma plus_span: "g \<noteq> [] \<Longrightarrow> \<forall>c \<in> set g. p c \<Longrightarrow> (r \<noteq> [] \<Longrightarrow> \<not> p (hd r)) \<Longrightarrow> plus p (g @ r) = Some (g, r)"
  by (cases r; cases g) (auto simp: plus_def span_def takeWhile_append dropWhile_append)

lemma hexs_digits: "0 \<le> v \<Longrightarrow> (r \<noteq> [] \<Longrightarrow> \<not> is_hex (hd r)) \<Longrightarrow> hexs (digits 16 v @ r) = Some (v, r)"
  using plus_span [of "digits 16 v" is_hex r] digits_hex [of _ 16 v]
  by (simp add: hexs_def digits_not_nil number_def fold_digits)

lemma decs_dec: "0 \<le> v \<Longrightarrow> (r \<noteq> [] \<Longrightarrow> \<not> is_dec (hd r)) \<Longrightarrow> decs (dec v @ r) = Some (v, r)"
proof -
  assume v: "0 \<le> v" and r: "r \<noteq> [] \<Longrightarrow> \<not> is_dec (hd r)"
  have "\<forall>c \<in> set (digits 10 v). is_dec c"
    using digits_chars [of _ 10 v] by (fastforce simp: is_dec_def decval_def digit_val_char)
  then show ?thesis using plus_span [of "digits 10 v" is_dec r] r v
    by (simp add: decs_def digits_not_nil number_def fold_digits dec_def)
qed

lemma blanks_one:
  assumes "r = [] \<or> \<not> is_ws (hd r)"
  shows "blanks (CHR '' '' # r) = Some r"
proof -
  have "plus is_ws ([CHR '' ''] @ r) = Some ([CHR '' ''], r)"
    by (rule plus_span) (use assms in \<open>simp_all add: is_ws_def [of "CHR '' ''"]\<close>)
  then show ?thesis by (simp add: blanks_def)
qed

lemma lit_append [simp]: "lit p (p @ s) = Some s"
  by (induction p) simp_all

end
