(* ===== verification/Gdb_Regs.thy ===== *)
theory Gdb_Regs
  imports Py_Regex Trace_Format
begin

text \<open>
  The register side of verif/qemu-trace/gen_trace.py: the layout of the g packet (from the target
  description or the documented fallback), its correction against the length that QEMU really
  sends, hexadecimal decoding, stop replies, and the fields of a trace record that are cut out of a
  register image. Raw images are lists of byte values, packets are 8-bit text.
\<close>

subsection \<open>Register layout\<close>

definition FALLBACK_LAYOUT :: "(string \<times> int) list" where
  "FALLBACK_LAYOUT =
    map (\<lambda>n. (n, 32)) [''eax'', ''ecx'', ''edx'', ''ebx'', ''esp'', ''ebp'', ''esi'', ''edi'', ''eip'', ''eflags'',
      ''cs'', ''ss'', ''ds'', ''es'', ''fs'', ''gs''] @
    map (\<lambda>n. (n, 80)) [''st0'', ''st1'', ''st2'', ''st3'', ''st4'', ''st5'', ''st6'', ''st7''] @
    map (\<lambda>n. (n, 32)) [''fctrl'', ''fstat'', ''ftag'', ''fiseg'', ''fioff'', ''foseg'', ''fooff'', ''fop'']"

record reg_layout =
  rl_regs :: "(string \<times> int) list"
  rl_offset :: "(string, int) dict"
  rl_nbits :: "(string, int) dict"
  rl_total :: int
  rl_tail_delta :: int
  rl_tail_from :: "int option"

definition add_reg :: "reg_layout \<Rightarrow> string \<times> int \<Rightarrow> reg_layout" where
  "add_reg l r = (case r of (name, bits) \<Rightarrow>
     l\<lparr> rl_regs := rl_regs l @ [(name, bits)], rl_offset := dset name (rl_total l) (rl_offset l),
        rl_nbits := dset name bits (rl_nbits l), rl_total := rl_total l + bits div 8 \<rparr>)"

definition mk_layout :: "(string \<times> int) list \<Rightarrow> reg_layout" where
  "mk_layout regs = foldl add_reg
     \<lparr> rl_regs = [], rl_offset = [], rl_nbits = [], rl_total = 0, rl_tail_delta = 0, rl_tail_from = None \<rparr> regs"

definition has :: "reg_layout \<Rightarrow> string \<Rightarrow> bool" where
  "has l name \<longleftrightarrow> map_of (rl_offset l) name \<noteq> None"

definition anchor_tail :: "reg_layout \<Rightarrow> int \<Rightarrow> reg_layout" where
  "anchor_tail l actual_len =
    (case concat (map (\<lambda>n. case map_of (rl_offset l) n of None \<Rightarrow> [] | Some off \<Rightarrow> [off]) [''cr0'', ''st0'']) of
       [] \<Rightarrow> l
     | c # cs \<Rightarrow> let delta = actual_len - rl_total l
         in if delta = 0 then l else l\<lparr> rl_tail_delta := delta, rl_tail_from := Some (foldl min c cs) \<rparr>)"

definition slice :: "reg_layout \<Rightarrow> int list \<Rightarrow> string \<Rightarrow> int option" where
  "slice l raw name =
    (case map_of (rl_offset l) name of None \<Rightarrow> None
     | Some off \<Rightarrow>
         let off = (case rl_tail_from l of None \<Rightarrow> off
                    | Some t \<Rightarrow> if off \<ge> t then off + rl_tail_delta l else off);
             nbytes = (case map_of (rl_nbits l) name of None \<Rightarrow> 0 | Some b \<Rightarrow> b) div 8
         in if off < 0 \<or> off + nbytes > int (length raw) then None
            else Some (from_le (take (nat nbytes) (drop (nat off) raw))))"

text \<open>The two expressions on the target description, with the quote as a character constant.\<close>

definition inc_re :: "string \<Rightarrow> (string \<times> string) option" where
  "inc_re s = do {
     s \<leftarrow> lit ''<xi:include'' s; s \<leftarrow> blanks s; s \<leftarrow> lit (''href='' @ [CHR 0x22]) s;
     (g, s) \<leftarrow> plus (\<lambda>c. c \<noteq> CHR 0x22) s; s \<leftarrow> lit [CHR 0x22] s; Some (g, s) }"

definition reg_re :: "string \<Rightarrow> ((string \<times> int) \<times> string) option" where
  "reg_re s = do {
     s \<leftarrow> lit ''<reg'' s; s \<leftarrow> blanks s; s \<leftarrow> lit (''name='' @ [CHR 0x22]) s;
     (g, s) \<leftarrow> plus (\<lambda>c. c \<noteq> CHR 0x22) s; s \<leftarrow> lit [CHR 0x22] s; s \<leftarrow> blanks s;
     s \<leftarrow> lit (''bitsize='' @ [CHR 0x22]) s; (b, s) \<leftarrow> decs s; s \<leftarrow> lit [CHR 0x22] s; Some ((g, b), s) }"

definition parse_target_xml_layout :: "(string, string) dict \<Rightarrow> reg_layout option" where
  "parse_target_xml_layout features =
    (let get = (\<lambda>k. case map_of features k of None \<Rightarrow> [] | Some x \<Rightarrow> x);
         target = get ''target.xml'';
         includes = findall inc_re target;
         regs = findall reg_re target @ concat (map (\<lambda>inc. findall reg_re (get inc)) includes)
     in if regs = [] then None else Some (mk_layout regs))"

subsection \<open>Hexadecimal replies and stop replies\<close>

text \<open>
  \<open>int(b, 16)\<close> on a byte string: as on text, but only ASCII blanks are skipped.
\<close>

definition int_bytes :: "string \<Rightarrow> int option" where
  "int_bytes b = (if \<exists>c \<in> set b. (of_char c :: nat) \<ge> 128 \<or> (28 \<le> (of_char c :: nat) \<and> (of_char c :: nat) \<le> 31) then None
     else py_int 16 b)"

fun decode_g_hex :: "string \<Rightarrow> int list" where
  "decode_g_hex (c # d # s) =
     (case int_bytes [c, d] of None \<Rightarrow> 0 | Some v \<Rightarrow> if 0 \<le> v \<and> v < 256 then v else 0) # decode_g_hex s"
| "decode_g_hex _ = []"

datatype stop_kind = Other | Stop | Exited | Term | Output | OkKind

record stop_reply =
  sr_raw :: string
  sr_kind :: stop_kind
  sr_signal :: "int option"
  sr_exit_code :: "int option"

definition hex2 :: "string \<Rightarrow> int" where
  "hex2 b = (case int_bytes b of None \<Rightarrow> 0 | Some v \<Rightarrow> v)"

definition mk_stop :: "string \<Rightarrow> stop_reply" where
  "mk_stop payload =
    (let r = \<lparr> sr_raw = payload, sr_kind = Other, sr_signal = None, sr_exit_code = None \<rparr>
     in case payload of [] \<Rightarrow> r
     | c # rest \<Rightarrow>
         let digs = takeWhile is_hex rest
         in if c = CHR ''T'' \<or> c = CHR ''S'' then r\<lparr> sr_kind := Stop, sr_signal := Some (hex2 (take 2 rest)) \<rparr>
            else if c = CHR ''W'' then r\<lparr> sr_kind := Exited, sr_exit_code := Some (if digs = [] then 0 else number 16 digs) \<rparr>
            else if c = CHR ''X'' then r\<lparr> sr_kind := Term, sr_signal := (if digs = [] then None else Some (number 16 digs)) \<rparr>
            else if c = CHR ''O'' then r\<lparr> sr_kind := Output \<rparr>
            else if payload = ''OK'' then r\<lparr> sr_kind := OkKind \<rparr>
            else r)"

definition running :: "stop_reply \<Rightarrow> bool" where
  "running r \<longleftrightarrow> sr_kind r \<in> {Stop, Output, OkKind}"

definition signal_to_vector :: "int \<Rightarrow> int" where "signal_to_vector sg = sg"

subsection \<open>Fields of a record\<close>

record arch =
  ar_eip :: int
  ar_eflags :: int
  ar_gpr :: "(string, int) dict"
  ar_seg :: "(string, int) dict"
  ar_x87 :: "(string, int) dict option"

definition get0 :: "reg_layout \<Rightarrow> int list \<Rightarrow> string \<Rightarrow> int" where
  "get0 l raw name = (case slice l raw name of None \<Rightarrow> 0 | Some v \<Rightarrow> v)"

definition regs_to_fields :: "reg_layout \<Rightarrow> int list \<Rightarrow> arch" where
  "regs_to_fields l raw =
    \<lparr> ar_eip = get0 l raw ''eip'', ar_eflags = get0 l raw ''eflags'',
      ar_gpr = map (\<lambda>k. (k, get0 l raw k)) GPR_KEYS,
      ar_seg = map (\<lambda>k. (k, get0 l raw k AND 0xFFFF)) SEG_KEYS,
      ar_x87 = (if has l ''st0''
        then Some (map (\<lambda>k. (k, get0 l raw k)) X87_REGS @
                   map (\<lambda>k. (k, get0 l raw k AND (push_bit (the (map_of WIDTH k)) 1 - 1))) X87_CTL)
        else None) \<rparr>"

definition sysregs_from_raw :: "reg_layout \<Rightarrow> int list \<Rightarrow> (string, int) dict" where
  "sysregs_from_raw l raw =
    (if \<not> has l ''cr0'' then []
     else map (\<lambda>k. (k, get0 l raw k AND 0xFFFFFFFF)) (filter (has l) SYS_CR) @
          map (\<lambda>k. (k, get0 l raw k AND 0xFFFFFFFF)) (filter (has l) (map (\<lambda>s. s @ ''_base'') SEG_KEYS)))"

subsection \<open>Offsets\<close>

definition width :: "string \<times> int \<Rightarrow> int" where "width r = snd r div 8"
definition widths :: "(string \<times> int) list \<Rightarrow> int" where "widths rs = sum_list (map width rs)"

lemma widths_simps [simp]: "widths [] = 0" "widths (r # rs) = width r + widths rs" "widths (rs @ rs') = widths rs + widths rs'"
  by (simp_all add: widths_def)

lemma widths_nonneg: "\<forall>(n, b) \<in> set rs. 0 \<le> b \<Longrightarrow> 0 \<le> widths rs"
  by (induction rs) (auto simp: width_def pos_imp_zdiv_nonneg_iff)

lemma add_regs_total: "rl_total (foldl add_reg l rs) = rl_total l + widths rs"
  by (induction rs arbitrary: l) (auto simp: add_reg_def width_def)

lemma add_regs_tail [simp]:
  "rl_tail_from (foldl add_reg l rs) = rl_tail_from l" "rl_tail_delta (foldl add_reg l rs) = rl_tail_delta l"
  by (induction rs arbitrary: l) (auto simp: add_reg_def)

lemma add_regs_other:
  "n \<notin> fst ` set rs \<Longrightarrow> map_of (rl_offset (foldl add_reg l rs)) n = map_of (rl_offset l) n \<and>
     map_of (rl_nbits (foldl add_reg l rs)) n = map_of (rl_nbits l) n"
  by (induction rs arbitrary: l) (auto simp: add_reg_def map_of_dset)

lemma mk_layout_total [simp]: "rl_total (mk_layout rs) = widths rs"
  by (simp add: mk_layout_def add_regs_total)

lemma mk_layout_tail [simp]: "rl_tail_from (mk_layout rs) = None" "rl_tail_delta (mk_layout rs) = 0"
  by (simp_all add: mk_layout_def)

lemma mk_layout_reg:
  assumes "n \<notin> fst ` set post"
  shows "map_of (rl_offset (mk_layout (pre @ (n, b) # post))) n = Some (widths pre)"
    "map_of (rl_nbits (mk_layout (pre @ (n, b) # post))) n = Some b"
  using assms by (simp_all add: mk_layout_def add_regs_other add_reg_def map_of_dset add_regs_total)

lemma mk_layout_split:
  assumes "regs = pre @ (n, b) # post" "distinct (map fst regs)"
  shows "map_of (rl_offset (mk_layout regs)) n = Some (widths pre)" "map_of (rl_nbits (mk_layout regs)) n = Some b"
proof -
  have "n \<notin> fst ` set post" using assms by simp
  then show "map_of (rl_offset (mk_layout regs)) n = Some (widths pre)" "map_of (rl_nbits (mk_layout regs)) n = Some b"
    unfolding assms(1) by (rule mk_layout_reg)+
qed

lemma mk_layout_none: "n \<notin> fst ` set rs \<Longrightarrow> map_of (rl_offset (mk_layout rs)) n = None"
  by (simp add: mk_layout_def add_regs_other)

subsection \<open>Register images\<close>

text \<open>The image that a stub sends for a list of registers with given values.\<close>

definition reg_image :: "(string \<Rightarrow> int) \<Rightarrow> (string \<times> int) list \<Rightarrow> int list" where
  "reg_image vals rs = concat (map (\<lambda>r. to_le (nat (width r)) (vals (fst r))) rs)"

lemma reg_image_simps [simp]:
  "reg_image vals [] = []" "reg_image vals (r # rs) = to_le (nat (width r)) (vals (fst r)) @ reg_image vals rs"
  "reg_image vals (rs @ rs') = reg_image vals rs @ reg_image vals rs'"
  by (simp_all add: reg_image_def)

lemma reg_image_length: "\<forall>(n, b) \<in> set rs. 0 \<le> b \<Longrightarrow> int (length (reg_image vals rs)) = widths rs"
  by (induction rs) (auto simp: width_def pos_imp_zdiv_nonneg_iff)

lemma slice_at:
  assumes "map_of (rl_offset l) n = Some off" "map_of (rl_nbits l) n = Some b" "0 \<le> b"
    and "raw = xs @ to_le (nat (b div 8)) v @ ys"
    and "int (length xs) = (case rl_tail_from l of None \<Rightarrow> off | Some t \<Rightarrow> if off \<ge> t then off + rl_tail_delta l else off)"
  shows "slice l raw n = Some (v mod 256 ^ nat (b div 8))"
proof -
  have b: "0 \<le> b div 8" using assms(3) by (simp add: pos_imp_zdiv_nonneg_iff)
  show ?thesis
    unfolding slice_def assms(1,2) option.case Let_def assms(5) [symmetric]
    using b by (simp add: assms(4) from_to_le)
qed

lemma anchor_tail_at:
  assumes "regs = lead @ (a, ab) # tail'" "distinct (map fst regs)" "\<forall>(n, b) \<in> set regs. 0 \<le> b"
    and "a \<in> {''cr0'', ''st0''}" "\<forall>n \<in> {''cr0'', ''st0''}. n \<notin> fst ` set lead" "len \<noteq> widths regs"
  shows "anchor_tail (mk_layout regs) len =
    (mk_layout regs)\<lparr> rl_tail_delta := len - widths regs, rl_tail_from := Some (widths lead) \<rparr>"
proof -
  have a: "map_of (rl_offset (mk_layout regs)) a = Some (widths lead)"
    using assms(1,2) by (simp add: mk_layout_reg)
  have other: "off \<ge> widths lead" if "map_of (rl_offset (mk_layout regs)) n = Some off" "n \<in> {''cr0'', ''st0''}" for n off
  proof -
    have "n \<in> fst ` set regs" using that(1) mk_layout_none [of n regs] by fastforce
    moreover have "n \<notin> fst ` set lead" using assms(5) that(2) by blast
    ultimately have "n \<in> fst ` set ((a, ab) # tail')" by (simp add: assms(1) image_Un)
    then obtain b where "(n, b) \<in> set ((a, ab) # tail')" by (metis imageE prod.collapse)
    then obtain p q where split: "(a, ab) # tail' = p @ (n, b) # q" by (meson split_list)
    then have regs: "regs = (lead @ p) @ (n, b) # q" using assms(1) by simp
    then have "off = widths (lead @ p)" using that(1) mk_layout_split(1) [OF regs assms(2)] by simp
    moreover have "0 \<le> widths p" using assms(3) regs by (intro widths_nonneg) auto
    ultimately show ?thesis by simp
  qed
  show ?thesis
  proof (cases "a = ''cr0''")
    case True
    then show ?thesis using a other [of "''st0''"] assms(6)
      by (cases "map_of (rl_offset (mk_layout regs)) ''st0''") (simp_all add: anchor_tail_def min_def Let_def)
  next
    case False
    then have "a = ''st0''" using assms(4) by blast
    then show ?thesis using a other [of "''cr0''"] assms(6)
      by (cases "map_of (rl_offset (mk_layout regs)) ''cr0''") (simp_all add: anchor_tail_def min_def Let_def)
  qed
qed

lemma anchor_tail_equal: "len = widths regs \<Longrightarrow> anchor_tail (mk_layout regs) len = mk_layout regs"
  by (simp add: anchor_tail_def split: list.split)

text \<open>
  The tail anchor is right whenever its premise is: if the stub leaves out any registers between
  the leading block and the first of cr0 and st0, then after \<open>anchor_tail\<close> every leading register and
  every register from that anchor on is read with its true value, whatever was left out.
\<close>

theorem anchor_tail_exact:
  assumes dist: "distinct (map fst (front @ mid @ tail))" and wide: "\<forall>(n, b) \<in> set (front @ mid @ tail). 8 \<le> b"
    and tail: "tail = (a, ab) # tail'" "a \<in> {''cr0'', ''st0''}"
    and lead: "\<forall>n \<in> {''cr0'', ''st0''}. n \<notin> fst ` set (front @ mid)"
    and reg: "(n, b) \<in> set (front @ tail)"
    and raw: "raw = reg_image vals (front @ filter sent mid @ tail)"
  shows "slice (anchor_tail (mk_layout (front @ mid @ tail)) (int (length raw))) raw n = Some (vals n mod 256 ^ nat (b div 8))"
proof -
  define regs where "regs = front @ mid @ tail"
  define L where "L = anchor_tail (mk_layout regs) (int (length raw))"
  have dr: "distinct (map fst regs)" using dist by (simp only: regs_def)
  have nonneg: "\<forall>(n, b) \<in> set regs. 0 \<le> b" using wide unfolding regs_def by fastforce
  have len: "int (length raw) = widths front + widths (filter sent mid) + widths tail"
    using nonneg unfolding raw regs_def by (subst reg_image_length) auto
  have "0 \<le> widths front" "0 \<le> widths mid" using nonneg unfolding regs_def by (auto intro!: widths_nonneg)
  have fields: "rl_offset L = rl_offset (mk_layout regs)" "rl_nbits L = rl_nbits (mk_layout regs)"
    "rl_tail_from L = None \<and> widths (filter sent mid) = widths mid \<or>
     rl_tail_from L = Some (widths (front @ mid)) \<and> rl_tail_delta L = widths (filter sent mid) - widths mid"
  proof -
    have "L = mk_layout regs \<and> int (length raw) = widths regs \<or> L = (mk_layout regs)\<lparr> rl_tail_delta := int (length raw) - widths regs,
        rl_tail_from := Some (widths (front @ mid)) \<rparr>"
      using anchor_tail_at [of regs "front @ mid" a ab tail' "int (length raw)"] anchor_tail_equal [of "int (length raw)" regs]
        dist tail lead nonneg unfolding regs_def L_def by (cases "int (length raw) = widths (front @ mid @ tail)") auto
    then show "rl_offset L = rl_offset (mk_layout regs)" "rl_nbits L = rl_nbits (mk_layout regs)"
      "rl_tail_from L = None \<and> widths (filter sent mid) = widths mid \<or>
       rl_tail_from L = Some (widths (front @ mid)) \<and> rl_tail_delta L = widths (filter sent mid) - widths mid"
      using len by (auto simp: regs_def)
  qed
  have b8: "8 \<le> b" "0 < width (n, b)" using reg wide by (auto simp: width_def pos_imp_zdiv_pos_iff)
  have "slice L raw n = Some (vals n mod 256 ^ nat (b div 8))"
  proof (cases "(n, b) \<in> set front")
    case True
    then obtain p q where split: "front = p @ (n, b) # q" by (meson split_list)
    then have regs: "regs = p @ (n, b) # (q @ mid @ tail)" by (simp add: regs_def)
    have off: "map_of (rl_offset L) n = Some (widths p)" "map_of (rl_nbits L) n = Some b"
      by (simp_all only: fields mk_layout_split [OF regs dr])
    have "0 \<le> widths q" "0 \<le> widths mid" using nonneg regs by (auto intro!: widths_nonneg)
    then have "widths p < widths (front @ mid)" using b8 split by simp
    moreover have "int (length (reg_image vals p)) = widths p" using nonneg regs by (intro reg_image_length) auto
    ultimately show ?thesis
      using fields(3) b8 by (intro slice_at [OF off]) (auto simp: raw split width_def)
  next
    case False
    then obtain p q where split: "tail = p @ (n, b) # q" using reg by (auto dest: split_list)
    then have regs: "regs = (front @ mid @ p) @ (n, b) # q" by (simp add: regs_def)
    have off: "map_of (rl_offset L) n = Some (widths (front @ mid @ p))" "map_of (rl_nbits L) n = Some b"
      by (simp_all only: fields mk_layout_split [OF regs dr])
    have "0 \<le> widths p" using nonneg regs by (auto intro!: widths_nonneg)
    moreover have "int (length (reg_image vals (front @ filter sent mid @ p))) = widths (front @ filter sent mid @ p)"
      using nonneg regs by (intro reg_image_length) auto
    ultimately show ?thesis
      using fields(3) b8
      by (intro slice_at [OF off, of raw "reg_image vals (front @ filter sent mid @ p)" _ "reg_image vals q"])
        (auto simp: raw split width_def)
  qed
  then show ?thesis by (simp add: L_def regs_def)
qed

theorem anchor_tail_exact_witness:
  "slice (anchor_tail (mk_layout ([(''eax'', 32), (''gs'', 32)] @ [(''fs_base'', 32), (''efer'', 64)] @ [(''cr0'', 32), (''st0'', 80)]))
      (int (length (reg_image (\<lambda>n. 77) ([(''eax'', 32), (''gs'', 32)] @ filter (\<lambda>r. fst r = ''efer'') [(''fs_base'', 32), (''efer'', 64)] @ [(''cr0'', 32), (''st0'', 80)])))))
    (reg_image (\<lambda>n. 77) ([(''eax'', 32), (''gs'', 32)] @ filter (\<lambda>r. fst r = ''efer'') [(''fs_base'', 32), (''efer'', 64)] @ [(''cr0'', 32), (''st0'', 80)])) ''st0'' =
   Some (77 mod 256 ^ nat (80 div 8))"
  by (rule anchor_tail_exact [where a = "''cr0''" and sent = "\<lambda>r. fst r = ''efer''"]) simp_all

text \<open>
  The correction makes two registers read the same bytes: with cr0 advertised twelve bytes after
  fs_base (the layout that the module's comments describe) and twelve bytes missing, the trace field
  fs_base holds the value of cr0.
\<close>

theorem anchored_base_is_cr0:
  assumes "map_of (rl_offset l) ''fs_base'' = Some 76" "map_of (rl_nbits l) ''fs_base'' = Some 32"
    and "map_of (rl_offset l) ''cr0'' = Some 88" "map_of (rl_nbits l) ''cr0'' = Some 32"
    and "map_of (rl_offset l) ''st0'' = Some 112" "int (length raw) = rl_total l - 12"
  shows "map_of (sysregs_from_raw (anchor_tail l (int (length raw))) raw) ''fs_base'' =
    map_of (sysregs_from_raw (anchor_tail l (int (length raw))) raw) ''cr0''"
proof -
  define L where "L = anchor_tail l (int (length raw))"
  have L: "L = l\<lparr> rl_tail_delta := - 12, rl_tail_from := Some 88 \<rparr>"
    using assms by (simp add: L_def anchor_tail_def)
  have has: "has L ''fs_base''" "has L ''cr0''" using assms by (simp_all add: L has_def)
  have "slice L raw ''fs_base'' = slice L raw ''cr0''" using assms by (simp add: L slice_def)
  then have same: "get0 L raw ''fs_base'' = get0 L raw ''cr0''" by (simp add: get0_def)
  have "map_of (map (\<lambda>k. (k, f k)) ks) k = (if k \<in> set ks then Some (f k) else None)" for f :: "string \<Rightarrow> int" and ks k
    by (induction ks) auto
  moreover have "''cr0'' \<in> set (filter (has L) SYS_CR)" "''fs_base'' \<notin> set (filter (has L) SYS_CR)"
    "''fs_base'' \<in> set (filter (has L) (map (\<lambda>s. s @ ''_base'') SEG_KEYS))"
    using has by (simp_all add: SYS_CR_def SEG_KEYS_def)
  ultimately show ?thesis
    using has same unfolding L_def [symmetric] by (simp add: sysregs_from_raw_def map_add_def)
qed

definition sample_layout :: reg_layout where
  "sample_layout = mk_layout [(''lead'', 608), (''fs_base'', 32), (''gs_base'', 32), (''k_gs_base'', 32), (''cr0'', 32), (''crx'', 160), (''st0'', 80)]"

theorem anchored_base_is_cr0_witness:
  "map_of (sysregs_from_raw (anchor_tail sample_layout (int (length (replicate 110 (7 :: int))))) (replicate 110 7)) ''fs_base'' =
    map_of (sysregs_from_raw (anchor_tail sample_layout (int (length (replicate 110 (7 :: int))))) (replicate 110 7)) ''cr0''"
  by (rule anchored_base_is_cr0) (simp_all add: sample_layout_def mk_layout_def add_reg_def)

end
