(* ===== verification/Py_IO.thy ===== *)
theory Py_IO
  imports Py_Base
begin

text \<open>
  Effects of the modelled programs: a computation takes the state of its surroundings, may raise an
  exception, and may never return (\<open>None\<close>). Loops are \<open>partial_function (option)\<close> over the bind.
\<close>

type_synonym ('e, 's, 'a) eio = "'s \<Rightarrow> (('e + 'a) \<times> 's) option"

definition retIO :: "'a \<Rightarrow> ('e, 's, 'a) eio" where "retIO x s = Some (Inr x, s)"
definition failIO :: "'e \<Rightarrow> ('e, 's, 'a) eio" where "failIO e s = Some (Inl e, s)"

definition bindIO :: "('e, 's, 'a) eio \<Rightarrow> ('a \<Rightarrow> ('e, 's, 'b) eio) \<Rightarrow> ('e, 's, 'b) eio" where
  "bindIO m f s = Option.bind (m s) (\<lambda>(r, s). case r of Inl e \<Rightarrow> Some (Inl e, s) | Inr x \<Rightarrow> f x s)"

lemma bindIO_ret [simp]: "m s = Some (Inr x, s') \<Longrightarrow> bindIO m f s = f x s'"
  by (simp add: bindIO_def)

lemma bindIO_fail [simp]: "m s = Some (Inl e, s') \<Longrightarrow> bindIO m f s = Some (Inl e, s')"
  by (simp add: bindIO_def)

lemma retIO_apply [simp]: "retIO x s = Some (Inr x, s)" by (simp add: retIO_def)
lemma failIO_apply [simp]: "failIO e s = Some (Inl e, s)" by (simp add: failIO_def)

lemma bindIO_mono [partial_function_mono]:
  assumes "mono_option (\<lambda>f. B f s)" "\<And>x s. mono_option (\<lambda>f. C x f s)"
  shows "mono_option (\<lambda>f. bindIO (B f) (\<lambda>x. C x f) s)"
proof -
  have "mono_option (\<lambda>f. case y of (r, s) \<Rightarrow> case r of Inl e \<Rightarrow> Some (Inl e, s) | Inr x \<Rightarrow> C x f s)" for y
    using assms(2) by (auto simp: monotone_def flat_ord_def split: prod.split sum.split)
  then show ?thesis unfolding bindIO_def by (intro bind_mono assms(1))
qed

lemma bindIO_cases:
  assumes "bindIO m f s = Some (r, s')"
  obtains e t where "m s = Some (Inl e, t)" "r = Inl e" "s' = t" | x t where "m s = Some (Inr x, t)" "f x t = Some (r, s')"
  using assms unfolding bindIO_def by (cases "m s") (auto split: sum.splits)

lemma bindIO_eq: "m s = Some (Inr x, s') \<Longrightarrow> f x s' = y \<Longrightarrow> bindIO m f s = y"
  by simp

text \<open>Operations whose only exceptions are Python's own.\<close>

type_synonym ('s, 'a) pio = "(py_error, 's, 'a) eio"

definition ofE :: "'a result \<Rightarrow> ('s, 'a) pio" where
  "ofE r s = Some (r, s)"

lemma ofE_simps [simp]: "ofE r s = Some (r, s)" by (simp add: ofE_def)

end
