(* ===== verification/Gdb_Client.thy ===== *)
theory Gdb_Client
  imports Gdb_Regs Py_IO
begin

text \<open>
  The remote-protocol client RSPClient of verif/qemu-trace/gen_trace.py. The peer is a parameter: a
  function that says which chunks of bytes arrive in answer to a write, with a state of its own;
  \<open>None\<close> stands for a write that the socket refuses. An operation of the client maps the client's
  state (the receive buffer, the acknowledgement mode, the chunks that wait in the socket, the state
  of the peer) to \<open>None\<close> if it never returns, or to its result (an exception or a value) and the
  new state. Bytes are 8-bit characters; the target description is taken as ASCII, so decoding it
  is the identity.
\<close>

subsection \<open>Operations with effects\<close>

datatype rsp_error = RspTimedOut | RspClosed | RspNak string | SockError | PyError py_error

datatype chunk = Data string | Eof

type_synonym 'q peer = "'q \<Rightarrow> string \<Rightarrow> (chunk list \<times> 'q) option"

record 'q rsp =
  r_buf :: string
  r_no_ack :: bool
  r_in :: "chunk list"
  r_peer :: 'q

type_synonym ('s, 'a) io = "'s \<Rightarrow> ((rsp_error + 'a) \<times> 's) option"

definition liftE :: "'a result \<Rightarrow> ('s, 'a) io" where
  "liftE r s = Some (case r of Inl e \<Rightarrow> Inl (PyError e) | Inr x \<Rightarrow> Inr x, s)"

lemma liftE_simps [simp]: "liftE (Inr x) s = Some (Inr x, s)" "liftE (Inl e) s = Some (Inl (PyError e), s)"
  by (simp_all add: liftE_def)

subsection \<open>Raw input and output\<close>

definition rsp_init :: "'q \<Rightarrow> 'q rsp" where
  "rsp_init q = \<lparr> r_buf = [], r_no_ack = False, r_in = [], r_peer = q \<rparr>"

definition sendall :: "'q peer \<Rightarrow> string \<Rightarrow> ('q rsp, unit) io" where
  "sendall P d s = (case P (r_peer s) d of None \<Rightarrow> Some (Inl SockError, s)
     | Some (cs, q) \<Rightarrow> Some (Inr (), s\<lparr> r_in := r_in s @ cs, r_peer := q \<rparr>))"

definition recv_more :: "('q rsp, unit) io" where
  "recv_more s = (case r_in s of [] \<Rightarrow> Some (Inl RspTimedOut, s)
     | Eof # cs \<Rightarrow> Some (Inl RspClosed, s)
     | Data d # cs \<Rightarrow> if d = [] then Some (Inl RspClosed, s)
         else Some (Inr (), s\<lparr> r_buf := r_buf s @ d, r_in := cs \<rparr>))"

partial_function (option) read_ack :: "'q rsp \<Rightarrow> ((rsp_error + char option) \<times> 'q rsp) option" where
  "read_ack s =
    (if r_buf s = [] then bindIO recv_more (\<lambda>_. read_ack) s
     else if hd (r_buf s) = CHR ''+'' \<or> hd (r_buf s) = CHR ''-''
          then Some (Inr (Some (hd (r_buf s))), s\<lparr> r_buf := tl (r_buf s) \<rparr>)
          else Some (Inr None, s))"

subsection \<open>Packets\<close>

definition checksum :: "string \<Rightarrow> string" where
  "checksum payload = hex_pad 2 (sum_list (map of_char payload) AND 0xff)"

definition frame :: "string \<Rightarrow> string" where
  "frame payload = CHR ''$'' # payload @ CHR ''#'' # checksum payload"

fun send_tries :: "'q peer \<Rightarrow> nat \<Rightarrow> string \<Rightarrow> ('q rsp, unit) io" where
  "send_tries P 0 payload = failIO (RspNak payload)"
| "send_tries P (Suc n) payload = bindIO (sendall P (frame payload)) (\<lambda>_ s.
     if r_no_ack s then retIO () s
     else bindIO read_ack (\<lambda>ack. if ack = Some CHR ''+'' then retIO () else send_tries P n payload) s)"

definition send :: "'q peer \<Rightarrow> string \<Rightarrow> ('q rsp, unit) io" where
  "send P payload = send_tries P 5 payload"

fun index_of :: "char \<Rightarrow> string \<Rightarrow> nat option" where
  "index_of c [] = None"
| "index_of c (d # s) = (if c = d then Some 0 else map_option Suc (index_of c s))"

definition find_from :: "char \<Rightarrow> nat \<Rightarrow> string \<Rightarrow> nat option" where
  "find_from c n s = map_option (\<lambda>i. n + i) (index_of c (drop n s))"

partial_function (option) wait_start :: "'q rsp \<Rightarrow> ((rsp_error + nat) \<times> 'q rsp) option" where
  "wait_start s = (case index_of CHR ''$'' (r_buf s) of None \<Rightarrow> bindIO recv_more (\<lambda>_. wait_start) s
     | Some start \<Rightarrow> Some (Inr start, s))"

partial_function (option) wait_end :: "nat \<Rightarrow> 'q rsp \<Rightarrow> ((rsp_error + nat) \<times> 'q rsp) option" where
  "wait_end start s =
    (case find_from CHR ''#'' (start + 1) (r_buf s) of
       Some h \<Rightarrow> if length (r_buf s) \<ge> h + 3 then Some (Inr h, s) else bindIO recv_more (\<lambda>_. wait_end start) s
     | None \<Rightarrow> bindIO recv_more (\<lambda>_. wait_end start) s)"

fun unescape :: "string \<Rightarrow> string" where
  "unescape (c # d # s) =
    (if c = CHR 0x7D then char_of ((of_char d :: int) XOR 0x20) # unescape s else c # unescape (d # s))"
| "unescape s = s"

text \<open>One round of the outer loop of \<open>recv\<close>: a payload with a good checksum, or None to continue.\<close>

definition recv_once :: "'q peer \<Rightarrow> ('q rsp, string option) io" where
  "recv_once P = bindIO wait_start (\<lambda>start. bindIO (wait_end start) (\<lambda>h s.
     let payload = take (h - (start + 1)) (drop (start + 1) (r_buf s));
         ck = take 2 (drop (h + 1) (r_buf s));
         s = s\<lparr> r_buf := drop (h + 3) (r_buf s) \<rparr>
     in if ck \<noteq> checksum payload
        then bindIO (if r_no_ack s then retIO () else sendall P ''-'') (\<lambda>_. retIO None) s
        else bindIO (if r_no_ack s then retIO () else sendall P ''+'') (\<lambda>_. retIO (Some (unescape payload))) s))"

partial_function (option) recv :: "'q peer \<Rightarrow> 'q rsp \<Rightarrow> ((rsp_error + string) \<times> 'q rsp) option" where
  "recv P s = bindIO (recv_once P) (\<lambda>r s. case r of None \<Rightarrow> recv P s | Some d \<Rightarrow> Some (Inr d, s)) s"

subsection \<open>Handshake, target description, registers and memory\<close>

definition request :: "'q peer \<Rightarrow> string \<Rightarrow> ('q rsp, string) io" where
  "request P payload = bindIO (send P payload) (\<lambda>_. recv P)"

definition QSUPPORTED :: string where
  "QSUPPORTED = ''qSupported:multiprocess+;xmlRegisters=i386;qXfer:features:read+''"
definition NOACK :: string where "NOACK = ''QStartNoAckMode''"
definition QXFER :: string where "QXFER = ''qXfer:features:read:''"

definition handshake :: "'q peer \<Rightarrow> ('q rsp, unit) io" where
  "handshake P = bindIO (request P QSUPPORTED) (\<lambda>_. bindIO (request P NOACK) (\<lambda>reply s.
     retIO () (if reply = ''OK'' then s\<lparr> r_no_ack := True \<rparr> else s)))"

definition hex_fmt :: "int \<Rightarrow> string" where
  "hex_fmt v = (if v < 0 then CHR ''-'' # digits 16 (- v) else digits 16 v)"

fun qxfer_loop :: "'q peer \<Rightarrow> string \<Rightarrow> nat \<Rightarrow> string \<Rightarrow> int \<Rightarrow> ('q rsp, string) io" where
  "qxfer_loop P annex 0 out off = retIO out"
| "qxfer_loop P annex (Suc n) out off =
    bindIO (request P (QXFER @ annex @ '':'' @ hex_fmt off @ '',fff'')) (\<lambda>reply. case reply of
       [] \<Rightarrow> retIO out
     | flag # data \<Rightarrow>
         if flag = CHR ''l'' then retIO (out @ data)
         else if flag = CHR ''m''
              then if data = [] then retIO (out @ data)
                   else qxfer_loop P annex n (out @ data) (off + int (length data))
              else retIO [])"

definition qxfer_read :: "'q peer \<Rightarrow> string \<Rightarrow> ('q rsp, string) io" where
  "qxfer_read P annex = qxfer_loop P annex 64 [] 0"

fun read_includes :: "'q peer \<Rightarrow> string list \<Rightarrow> (string, string) dict \<Rightarrow> ('q rsp, (string, string) dict) io" where
  "read_includes P [] features = retIO features"
| "read_includes P (inc # incs) features =
    bindIO (qxfer_read P inc) (\<lambda>xml. read_includes P incs (dset inc xml features))"

definition TARGET_XML :: string where "TARGET_XML = ''target.xml''"

definition discover_layout :: "'q peer \<Rightarrow> ('q rsp, reg_layout) io" where
  "discover_layout P = bindIO (qxfer_read P TARGET_XML) (\<lambda>target.
     if target = [] then retIO (mk_layout FALLBACK_LAYOUT)
     else bindIO (read_includes P (findall inc_re target) [(TARGET_XML, target)]) (\<lambda>features.
       retIO (case parse_target_xml_layout features of
         None \<Rightarrow> mk_layout FALLBACK_LAYOUT
       | Some l \<Rightarrow> if has l ''eip'' then l else mk_layout FALLBACK_LAYOUT)))"

definition read_g :: "'q peer \<Rightarrow> ('q rsp, int list) io" where
  "read_g P = bindIO (request P ''g'') (\<lambda>hexstr. retIO (decode_g_hex hexstr))"

definition step :: "'q peer \<Rightarrow> ('q rsp, string) io" where
  "step P = request P ''s''"

definition read_mem :: "'q peer \<Rightarrow> int \<Rightarrow> int \<Rightarrow> ('q rsp, int list option) io" where
  "read_mem P addr len = bindIO (request P (''m'' @ hex_fmt addr @ '','' @ hex_fmt len)) (\<lambda>reply.
     retIO (if reply = [] \<or> hd reply = CHR ''E'' then None else fromhex reply))"

subsection \<open>Receiving does not depend on the chunks\<close>

definition chunk_data :: "chunk \<Rightarrow> string" where
  "chunk_data c = (case c of Data d \<Rightarrow> d | Eof \<Rightarrow> [])"

definition stream :: "'q rsp \<Rightarrow> string" where
  "stream s = r_buf s @ concat (map chunk_data (r_in s))"

definition live :: "'q rsp \<Rightarrow> bool" where
  "live s \<longleftrightarrow> (\<forall>c \<in> set (r_in s). \<exists>d. c = Data d \<and> d \<noteq> [])"

text \<open>\<open>fed s s'\<close>: the same client after some chunks have moved into the buffer.\<close>

definition fed :: "'q rsp \<Rightarrow> 'q rsp \<Rightarrow> bool" where
  "fed s s' \<longleftrightarrow> stream s' = stream s \<and> live s' \<and> (\<exists>b c. s' = s\<lparr> r_buf := b, r_in := c \<rparr>)"

lemma fed_refl: "live s \<Longrightarrow> fed s s"
  unfolding fed_def by (auto intro!: exI [of _ "r_buf s"] exI [of _ "r_in s"])

lemma fed_trans:
  assumes "fed s t" "fed t u" shows "fed s u"
proof -
  obtain b c b' c' where "t = s\<lparr> r_buf := b, r_in := c \<rparr>" "u = t\<lparr> r_buf := b', r_in := c' \<rparr>"
    using assms unfolding fed_def by blast
  then have "u = s\<lparr> r_buf := b', r_in := c' \<rparr>" by simp
  then show ?thesis using assms unfolding fed_def by metis
qed

lemma recv_more_live:
  assumes "live s" "r_in s \<noteq> []"
  shows "\<exists>t. recv_more s = Some (Inr (), t) \<and> fed s t \<and> length (r_in t) < length (r_in s)"
proof -
  obtain d cs where "r_in s = Data d # cs" "d \<noteq> []"
    using assms by (cases "r_in s") (auto simp: live_def)
  then show ?thesis using assms(1)
    by (auto simp: recv_more_def fed_def stream_def chunk_data_def live_def)
qed

lemma index_of_append:
  "index_of c (xs @ ys) = (case index_of c xs of Some i \<Rightarrow> Some i | None \<Rightarrow> map_option (\<lambda>i. length xs + i) (index_of c ys))"
proof (induction xs)
  case Nil
  show ?case by (cases "index_of c ys") simp_all
next
  case (Cons x xs)
  then show ?case by (cases "index_of c ys") (auto split: option.split)
qed

lemma index_of_skip: "c \<notin> set xs \<Longrightarrow> index_of c (xs @ c # ys) = Some (length xs)"
  by (induction xs) auto

lemma index_of_bound: "index_of c xs = Some i \<Longrightarrow> i < length xs"
  by (induction xs arbitrary: i) (auto split: if_splits)

lemma find_from_append: "find_from c n xs = Some h \<Longrightarrow> find_from c n (xs @ ys) = Some h"
  by (auto simp: find_from_def index_of_append)

lemma wait_start_live:
  "live s \<Longrightarrow> index_of CHR ''$'' (stream s) = Some i \<Longrightarrow>
    \<exists>t. wait_start s = Some (Inr i, t) \<and> fed s t \<and> index_of CHR ''$'' (r_buf t) = Some i"
proof (induction "length (r_in s)" arbitrary: s rule: less_induct)
  case less
  show ?case
  proof (cases "index_of CHR ''$'' (r_buf s)")
    case None
    then have "r_in s \<noteq> []" using less.prems(2) by (auto simp: stream_def)
    then obtain t where t: "recv_more s = Some (Inr (), t)" "fed s t" "length (r_in t) < length (r_in s)"
      using recv_more_live less.prems(1) by blast
    then have "live t" "stream t = stream s" by (simp_all add: fed_def)
    then obtain u where u: "wait_start t = Some (Inr i, u)" "fed t u" "index_of CHR ''$'' (r_buf u) = Some i"
      using less.hyps [OF t(3)] less.prems(2) by auto
    show ?thesis using u t None fed_trans [OF t(2) u(2)] by (subst wait_start.simps) simp
  next
    case (Some k)
    then have "k = i" using less.prems(2) by (simp add: stream_def index_of_append)
    then show ?thesis using Some less.prems(1) by (subst wait_start.simps) (simp add: fed_refl)
  qed
qed

lemma wait_end_live:
  "live s \<Longrightarrow> find_from CHR ''#'' (n + 1) (stream s) = Some h \<Longrightarrow> h + 3 \<le> length (stream s) \<Longrightarrow>
    \<exists>t. wait_end n s = Some (Inr h, t) \<and> fed s t \<and> h + 3 \<le> length (r_buf t)"
proof (induction "length (r_in s)" arbitrary: s rule: less_induct)
  case less
  have one: "k = h" if "find_from CHR ''#'' (n + 1) (r_buf s) = Some k" for k
    using find_from_append [OF that] less.prems(2) by (simp add: stream_def)
  show ?case
  proof (cases "find_from CHR ''#'' (n + 1) (r_buf s) = Some h \<and> h + 3 \<le> length (r_buf s)")
    case True
    then show ?thesis using less.prems(1) by (subst wait_end.simps) (simp add: fed_refl)
  next
    case False
    have more: "wait_end n s = bindIO recv_more (\<lambda>_. wait_end n) s"
    proof (cases "find_from CHR ''#'' (n + 1) (r_buf s)")
      case None
      then show ?thesis by (subst wait_end.simps) simp
    next
      case (Some k)
      then have "\<not> h + 3 \<le> length (r_buf s)" using False one by auto
      then show ?thesis using Some one [OF Some] by (subst wait_end.simps) simp
    qed
    have "r_in s \<noteq> []" using False less.prems(2,3) by (auto simp: stream_def)
    then obtain t where t: "recv_more s = Some (Inr (), t)" "fed s t" "length (r_in t) < length (r_in s)"
      using recv_more_live less.prems(1) by blast
    then have "live t" "stream t = stream s" by (simp_all add: fed_def)
    then obtain u where u: "wait_end n t = Some (Inr h, u)" "fed t u" "h + 3 \<le> length (r_buf u)"
      using less.hyps [OF t(3)] less.prems(2,3) by auto
    show ?thesis unfolding more using u t fed_trans [OF t(2) u(2)] by simp
  qed
qed

lemma drop_len: "drop (length zs) (zs @ r) = r" by simp

lemma recv_once_packet:
  assumes "live s" "stream s = junk @ CHR ''$'' # p @ CHR ''#'' # ck @ rest"
    and "CHR ''$'' \<notin> set junk" "CHR ''#'' \<notin> set p" "length ck = 2"
  shows "\<exists>b c. let t = s\<lparr> r_buf := b, r_in := c \<rparr> in stream t = rest \<and> live t \<and>
    recv_once P s = (if ck \<noteq> checksum p
      then bindIO (if r_no_ack s then retIO () else sendall P ''-'') (\<lambda>_. retIO None) t
      else bindIO (if r_no_ack s then retIO () else sendall P ''+'') (\<lambda>_. retIO (Some (unescape p))) t)"
proof -
  let ?n = "length junk" and ?h = "length junk + 1 + length p"
  have i: "index_of CHR ''$'' (stream s) = Some ?n"
    using assms(3) by (simp add: assms(2) index_of_skip)
  obtain t where t: "wait_start s = Some (Inr ?n, t)" "fed s t" using wait_start_live [OF assms(1) i] by auto
  have "live t" "stream t = stream s" using t(2) by (simp_all add: fed_def)
  moreover have "drop (?n + 1) (stream s) = p @ CHR ''#'' # ck @ rest" by (simp add: assms(2))
  then have h: "find_from CHR ''#'' (?n + 1) (stream s) = Some ?h"
    using assms(4) by (simp add: find_from_def index_of_skip)
  moreover have hl: "?h + 3 \<le> length (stream s)" using assms(5) by (simp add: assms(2))
  ultimately obtain u where u: "wait_end ?n t = Some (Inr ?h, u)" "fed t u" "?h + 3 \<le> length (r_buf u)"
    using wait_end_live [of t ?n ?h] by auto
  have su: "fed s u" using fed_trans [OF t(2) u(2)] .
  define b where "b = r_buf u"
  have st: "stream s = b @ concat (map chunk_data (r_in u))" using su by (simp add: fed_def b_def stream_def)
  have len: "?h + 3 \<le> length b" using u(3) by (simp add: b_def)
  have "take k (drop j b) = take k (drop j (stream s))" if "j + k \<le> length b" for j k
    using that by (simp add: st)
  then have pay: "take (?h - (?n + 1)) (drop (?n + 1) b) = p" and ck: "take 2 (drop (?h + 1) b) = ck"
    using len assms(5) by (simp_all add: assms(2))
  have rest: "drop (?h + 3) b @ concat (map chunk_data (r_in u)) = rest"
  proof -
    have "stream s = (junk @ CHR ''$'' # p @ CHR ''#'' # ck) @ rest" by (simp add: assms(2))
    moreover have "?h + 3 = length (junk @ CHR ''$'' # p @ CHR ''#'' # ck)" using assms(5) by simp
    ultimately have "drop (?h + 3) (stream s) = rest" by (simp only: drop_len)
    then show ?thesis using len by (simp add: st)
  qed
  obtain b' c' where u': "u = s\<lparr> r_buf := b', r_in := c' \<rparr>" using su by (auto simp: fed_def)
  then have same: "r_no_ack u = r_no_ack s" "u\<lparr> r_buf := drop (?h + 3) b \<rparr> = s\<lparr> r_buf := drop (?h + 3) b, r_in := r_in u \<rparr>" by simp_all
  have "recv_once P s = (if ck \<noteq> checksum p
      then bindIO (if r_no_ack s then retIO () else sendall P ''-'') (\<lambda>_. retIO None) (s\<lparr> r_buf := drop (?h + 3) b, r_in := r_in u \<rparr>)
      else bindIO (if r_no_ack s then retIO () else sendall P ''+'') (\<lambda>_. retIO (Some (unescape p))) (s\<lparr> r_buf := drop (?h + 3) b, r_in := r_in u \<rparr>))"
    unfolding recv_once_def bindIO_ret [where m = wait_start, OF t(1)] bindIO_ret [where m = "wait_end ?n", OF u(1)] b_def [symmetric] pay ck Let_def same by simp
  moreover have "live u" using su by (simp add: fed_def)
  then have "live (s\<lparr> r_buf := drop (?h + 3) b, r_in := r_in u \<rparr>)" by (simp add: live_def)
  moreover have "stream (s\<lparr> r_buf := drop (?h + 3) b, r_in := r_in u \<rparr>) = rest" using rest by (simp add: stream_def)
  ultimately show ?thesis unfolding Let_def by blast
qed

text \<open>The escape that a stub applies to the data of a packet.\<close>

definition special :: "char \<Rightarrow> bool" where
  "special c \<longleftrightarrow> c = CHR ''$'' \<or> c = CHR ''#'' \<or> c = CHR 0x7D \<or> c = CHR ''*''"

fun escape :: "string \<Rightarrow> string" where
  "escape [] = []"
| "escape (c # s) = (if special c then [CHR 0x7D, char_of ((of_char c :: int) XOR 0x20)] else [c]) @ escape s"

lemma special_cases: "special c \<Longrightarrow> char_of ((of_char (char_of ((of_char c :: int) XOR 0x20) :: char) :: int) XOR 0x20) = c \<and>
    char_of ((of_char c :: int) XOR 0x20) \<notin> {CHR ''#'', CHR ''$''}"
  unfolding special_def by (elim disjE) (simp_all add: char_of_def)

lemma unescape_plain: "c \<noteq> CHR 0x7D \<Longrightarrow> unescape (c # s) = c # unescape s"
  by (cases s) simp_all

lemma unescape_escape: "unescape (escape d) = d"
proof (induction d)
  case (Cons c d)
  then show ?case using special_cases [of c]
    by (cases "special c") (auto simp: unescape_plain special_def)
qed simp

lemma escape_hash: "CHR ''#'' \<notin> set (escape d)"
proof (induction d)
  case (Cons c d)
  then show ?case using special_cases [of c] by (cases "special c") (auto simp: special_def)
qed simp

lemma checksum_length: "length (checksum p) = 2"
proof -
  define v where "v = sum_list (map of_char p) AND (0xff :: int)"
  have "v = sum_list (map of_char p) mod 256"
    using and_mask_mod [of "sum_list (map of_char p)" 8] by (simp add: v_def)
  then have "is_byte v" by (simp add: is_byte_def)
  then show ?thesis by (simp add: checksum_def v_def [symmetric] hex_pad_two)
qed

definition quiet :: "'q peer \<Rightarrow> bool" where
  "quiet P \<longleftrightarrow> (\<forall>q. P q ''+'' = Some ([], q) \<and> P q ''-'' = Some ([], q))"

lemma sendall_quiet [simp]: "quiet P \<Longrightarrow> sendall P ''+'' s = Some (Inr (), s)" "quiet P \<Longrightarrow> sendall P ''-'' s = Some (Inr (), s)"
  by (simp_all add: quiet_def sendall_def)

lemma recv_good:
  assumes "live s" "stream s = junk @ frame (escape d) @ rest" "CHR ''$'' \<notin> set junk" "r_no_ack s \<or> quiet P"
  shows "\<exists>b c. recv P s = Some (Inr d, s\<lparr> r_buf := b, r_in := c \<rparr>) \<and> stream (s\<lparr> r_buf := b, r_in := c \<rparr>) = rest \<and>
    live (s\<lparr> r_buf := b, r_in := c \<rparr>)"
proof -
  have "stream s = junk @ CHR ''$'' # escape d @ CHR ''#'' # checksum (escape d) @ rest"
    using assms(2) by (simp add: frame_def)
  from recv_once_packet [OF assms(1) this assms(3) escape_hash checksum_length, of P]
  obtain b c where bc: "stream (s\<lparr> r_buf := b, r_in := c \<rparr>) = rest" "live (s\<lparr> r_buf := b, r_in := c \<rparr>)"
    "recv_once P s = bindIO (if r_no_ack s then retIO () else sendall P ''+'') (\<lambda>_. retIO (Some d)) (s\<lparr> r_buf := b, r_in := c \<rparr>)"
    unfolding Let_def unescape_escape by (auto simp del: bindIO_ret)
  then have "recv_once P s = Some (Inr (Some d), s\<lparr> r_buf := b, r_in := c \<rparr>)"
    using assms(4) by (cases "r_no_ack s") simp_all
  then have "recv P s = Some (Inr d, s\<lparr> r_buf := b, r_in := c \<rparr>)" by (subst recv.simps) simp
  then show ?thesis using bc by blast
qed

definition packet_text :: "string \<times> string \<times> string \<Rightarrow> string" where
  "packet_text k = (case k of (junk, p, ck) \<Rightarrow> junk @ CHR ''$'' # p @ CHR ''#'' # ck)"

lemma packet_text_simp [simp]: "packet_text (junk, p, ck) = junk @ CHR ''$'' # p @ CHR ''#'' # ck"
  by (simp add: packet_text_def)

definition corrupt :: "string \<times> string \<times> string \<Rightarrow> bool" where
  "corrupt k = (case k of (junk, p, ck) \<Rightarrow>
     CHR ''$'' \<notin> set junk \<and> CHR ''#'' \<notin> set p \<and> length ck = 2 \<and> ck \<noteq> checksum p)"


definition silent :: "unit peer" where "silent q d = Some ([], q)"


end
