(* ===== verification/Gdb_Stub.thy ===== *)
theory Gdb_Stub
  imports Gdb_Client
begin

text \<open>
  The contract between the client and its peer. A \<open>machine\<close> is what a program under a gdbstub looks
  like from outside; the locale \<open>gdb_session\<close> states what the client's operations do while they are
  in step with such a machine; \<open>stub_peer\<close> is the reference peer that follows the documented
  protocol over an arbitrary machine and cuts its answers into arbitrary chunks, and it meets the
  contract. The users of the client are proved against the locale.
\<close>

subsection \<open>Machines and sessions\<close>

text \<open>
  A step answers with a stop reply, or with nothing when the program ends the stub's process.
\<close>

record 'm machine =
  mc_image :: "'m \<Rightarrow> int list"
  mc_step :: "'m \<Rightarrow> string option \<times> 'm"
  mc_mem :: "'m \<Rightarrow> int \<Rightarrow> int \<Rightarrow> int list option"
  mc_docs :: "string \<Rightarrow> string"

definition image_view :: "'m machine \<Rightarrow> 'm \<Rightarrow> int list" where
  "image_view M m = map (\<lambda>b. b mod 256) (mc_image M m)"

definition mem_view :: "'m machine \<Rightarrow> 'm \<Rightarrow> int \<Rightarrow> int \<Rightarrow> int list option" where
  "mem_view M m a n = (case mc_mem M m a n of None \<Rightarrow> None | Some bs \<Rightarrow>
     if bs = [] then None else Some (map (\<lambda>b. b mod 256) bs))"

definition described_layout :: "'m machine \<Rightarrow> reg_layout" where
  "described_layout M = (let target = mc_docs M TARGET_XML
     in if target = [] then mk_layout FALLBACK_LAYOUT
        else case parse_target_xml_layout
            (foldl (\<lambda>f inc. dset inc (mc_docs M inc) f) [(TARGET_XML, target)] (findall inc_re target)) of
          None \<Rightarrow> mk_layout FALLBACK_LAYOUT
        | Some l \<Rightarrow> if has l ''eip'' then l else mk_layout FALLBACK_LAYOUT)"

text \<open>Documents that the bounded reader can fetch, with names that the request can carry.\<close>

definition readable :: "'m machine \<Rightarrow> string \<Rightarrow> bool" where
  "readable M a \<longleftrightarrow> CHR '':'' \<notin> set a \<and> length (mc_docs M a) \<le> 64 * 0xfff"

definition docs_ok :: "'m machine \<Rightarrow> bool" where
  "docs_ok M \<longleftrightarrow> readable M TARGET_XML \<and> (\<forall>a \<in> set (findall inc_re (mc_docs M TARGET_XML)). readable M a)"

locale gdb_session =
  fixes P :: "'q peer" and M :: "'m machine" and sync :: "'m \<Rightarrow> 'q rsp \<Rightarrow> bool"
  assumes handshake_ok: "sync m s \<Longrightarrow> \<exists>t. handshake P s = Some (Inr (), t) \<and> sync m t"
    and qxfer_ok: "sync m s \<Longrightarrow> readable M a \<Longrightarrow> \<exists>t. qxfer_read P a s = Some (Inr (mc_docs M a), t) \<and> sync m t"
    and read_g_ok: "sync m s \<Longrightarrow> \<exists>t. read_g P s = Some (Inr (image_view M m), t) \<and> sync m t"
    and step_ok: "sync m s \<Longrightarrow> mc_step M m = (Some r, m') \<Longrightarrow> \<exists>t. step P s = Some (Inr r, t) \<and> sync m' t"
    and step_closed: "sync m s \<Longrightarrow> mc_step M m = (None, m') \<Longrightarrow> \<exists>t. step P s = Some (Inl RspClosed, t)"
    and read_mem_ok: "sync m s \<Longrightarrow> 0 \<le> addr \<Longrightarrow> 0 \<le> len \<Longrightarrow> \<exists>t. read_mem P addr len s = Some (Inr (mem_view M m addr len), t) \<and> sync m t"
begin

lemma includes_ok:
  "sync m s \<Longrightarrow> \<forall>a \<in> set incs. readable M a \<Longrightarrow>
    \<exists>t. read_includes P incs f s = Some (Inr (foldl (\<lambda>f inc. dset inc (mc_docs M inc) f) f incs), t) \<and> sync m t"
proof (induction incs arbitrary: f s)
  case (Cons inc incs)
  then obtain t where t: "qxfer_read P inc s = Some (Inr (mc_docs M inc), t)" "sync m t" using qxfer_ok by force
  then show ?case using Cons.IH [OF t(2)] Cons.prems by simp
qed simp

lemma discover_ok:
  assumes "sync m s" "docs_ok M"
  shows "\<exists>t. discover_layout P s = Some (Inr (described_layout M), t) \<and> sync m t"
proof -
  obtain t where t: "qxfer_read P TARGET_XML s = Some (Inr (mc_docs M TARGET_XML), t)" "sync m t"
    using qxfer_ok assms unfolding docs_ok_def by blast
  show ?thesis
  proof (cases "mc_docs M TARGET_XML = []")
    case True
    then show ?thesis using t by (simp add: discover_layout_def described_layout_def)
  next
    case False
    moreover obtain u where "read_includes P (findall inc_re (mc_docs M TARGET_XML)) [(TARGET_XML, mc_docs M TARGET_XML)] t =
      Some (Inr (foldl (\<lambda>f inc. dset inc (mc_docs M inc) f) [(TARGET_XML, mc_docs M TARGET_XML)] (findall inc_re (mc_docs M TARGET_XML))), u)"
      "sync m u"
      using includes_ok [OF t(2)] assms(2) unfolding docs_ok_def by blast
    ultimately show ?thesis using t by (simp add: discover_layout_def described_layout_def Let_def)
  qed
qed

end

subsection \<open>The reference stub\<close>

fun pieces :: "nat list \<Rightarrow> string \<Rightarrow> string list" where
  "pieces ks [] = []"
| "pieces [] s = [s]"
| "pieces (k # ks) s = take (Suc k) s # pieces ks (drop (Suc k) s)"

lemma concat_pieces: "concat (pieces ks s) = s"
  by (induction ks s rule: pieces.induct) simp_all

lemma pieces_nonempty: "[] \<notin> set (pieces ks s)"
  by (induction ks s rule: pieces.induct) auto

definition doc_chunk :: "string \<Rightarrow> int \<Rightarrow> string" where
  "doc_chunk doc off = (if doc = [] then ''E00''
     else (if int (length doc) > off + 0xfff then CHR ''m'' else CHR ''l'') # take 0xfff (drop (nat off) doc))"

definition stub_answer :: "'m machine \<Rightarrow> 'm \<Rightarrow> string \<Rightarrow> string option \<times> 'm" where
  "stub_answer M m p =
    (if p = ''g'' then (Some (bytes_hex (image_view M m)), m)
     else if p = ''s'' then mc_step M m
     else case lit ''m'' p of
       Some r \<Rightarrow> (Some (case do { (a, r) \<leftarrow> hexs r; r \<leftarrow> lit '','' r; (n, r) \<leftarrow> hexs r; Some (a, n) } of
           None \<Rightarrow> ''E22''
         | Some (a, n) \<Rightarrow> (case mem_view M m a n of None \<Rightarrow> ''E14'' | Some bs \<Rightarrow> bytes_hex bs)), m)
     | None \<Rightarrow> (case lit QXFER p of
         Some r \<Rightarrow> (Some (case do { r \<leftarrow> lit '':'' (dropWhile (\<lambda>c. c \<noteq> CHR '':'') r); (off, r) \<leftarrow> hexs r; Some off } of
             None \<Rightarrow> ''E00''
           | Some off \<Rightarrow> doc_chunk (mc_docs M (takeWhile (\<lambda>c. c \<noteq> CHR '':'') r)) off), m)
       | None \<Rightarrow> (Some (if p = NOACK then ''OK'' else []), m)))"

record 'm stub =
  sb_mach :: 'm
  sb_no_ack :: bool
  sb_count :: nat

definition stub_peer :: "'m machine \<Rightarrow> (nat \<Rightarrow> nat list) \<Rightarrow> 'm stub peer" where
  "stub_peer M cuts q d =
    (if d = ''+'' \<or> d = ''-'' then Some ([], q)
     else let p = take (length d - 4) (drop 1 d)
       in if d \<noteq> frame p then Some ([Data ''-''], q)
          else case stub_answer M (sb_mach q) p of
            (None, m) \<Rightarrow> Some ([Eof], q\<lparr> sb_mach := m \<rparr>)
          | (Some reply, m) \<Rightarrow>
              Some (map Data (pieces (cuts (sb_count q)) ((if sb_no_ack q then [] else ''+'') @ frame (escape reply))),
                \<lparr> sb_mach = m, sb_no_ack = (sb_no_ack q \<or> p = NOACK), sb_count = Suc (sb_count q) \<rparr>))"

definition stub_sync :: "'m \<Rightarrow> 'm stub rsp \<Rightarrow> bool" where
  "stub_sync m s \<longleftrightarrow> r_buf s = [] \<and> r_in s = [] \<and> sb_mach (r_peer s) = m \<and> sb_no_ack (r_peer s) = r_no_ack s"

subsection \<open>The stub meets the contract\<close>

lemma frame_payload: "take (length (frame p) - 4) (drop 1 (frame p)) = p"
  by (simp add: frame_def checksum_length)

lemma frame_not_ack: "frame p \<noteq> ''+''" "frame p \<noteq> ''-''"
  by (simp_all add: frame_def)

lemma stub_peer_frame:
  "stub_peer M cuts q (frame p) = (case stub_answer M (sb_mach q) p of
     (None, m) \<Rightarrow> Some ([Eof], q\<lparr> sb_mach := m \<rparr>)
   | (Some reply, m) \<Rightarrow>
       Some (map Data (pieces (cuts (sb_count q)) ((if sb_no_ack q then [] else ''+'') @ frame (escape reply))),
         \<lparr> sb_mach = m, sb_no_ack = (sb_no_ack q \<or> p = NOACK), sb_count = Suc (sb_count q) \<rparr>))"
  unfolding stub_peer_def Let_def frame_payload using frame_not_ack by simp

lemma quiet_stub: "quiet (stub_peer M cuts)"
  by (simp add: quiet_def stub_peer_def)

lemma live_pieces: "r_in s = map Data (pieces ks x) \<Longrightarrow> live s"
  using pieces_nonempty [of ks x] by (auto simp: live_def)

lemma stream_pieces: "r_in s = map Data (pieces ks x) \<Longrightarrow> stream s = r_buf s @ x"
proof -
  assume "r_in s = map Data (pieces ks x)"
  moreover have "map chunk_data (map Data xs) = xs" for xs by (induction xs) (simp_all add: chunk_data_def)
  ultimately show ?thesis by (simp only: stream_def concat_pieces)
qed

lemma live_empty: "live s \<Longrightarrow> stream s = [] \<Longrightarrow> r_buf s = [] \<and> r_in s = []"
  by (cases "r_in s") (auto simp: live_def stream_def chunk_data_def)

text \<open>A pending acknowledgement is read however it was cut.\<close>

lemma read_ack_plus:
  assumes "r_buf s = []" "live s" "stream s = CHR ''+'' # x"
  shows "\<exists>t. read_ack s = Some (Inr (Some CHR ''+''), t) \<and> stream t = x \<and> live t \<and> r_no_ack t = r_no_ack s \<and> r_peer t = r_peer s"
proof -
  have "r_in s \<noteq> []" using assms by (auto simp: stream_def)
  then obtain d cs where d: "r_in s = Data d # cs" "d \<noteq> []" using assms(2) by (cases "r_in s") (auto simp: live_def)
  then obtain d' where d': "d = CHR ''+'' # d'" using assms(1,3) by (cases d) (auto simp: stream_def chunk_data_def)
  define t where "t = s\<lparr> r_buf := d, r_in := cs \<rparr>"
  have "recv_more s = Some (Inr (), t)" using d assms(1) by (simp add: recv_more_def t_def)
  moreover have "read_ack t = Some (Inr (Some CHR ''+''), t\<lparr> r_buf := d' \<rparr>)"
    using d' by (subst read_ack.simps) (simp add: t_def)
  ultimately have "read_ack s = Some (Inr (Some CHR ''+''), t\<lparr> r_buf := d' \<rparr>)"
    using assms(1) by (subst read_ack.simps) simp
  then show ?thesis using assms d d' by (auto simp: t_def stream_def chunk_data_def live_def)
qed

lemma stub_request:
  assumes s: "r_buf s = []" "r_in s = []" "sb_no_ack (r_peer s) = r_no_ack s"
    and answer: "stub_answer M (sb_mach (r_peer s)) p = (Some reply, m')"
  shows "\<exists>t. request (stub_peer M cuts) p s = Some (Inr reply, t) \<and> r_buf t = [] \<and> r_in t = [] \<and> r_no_ack t = r_no_ack s \<and>
    sb_mach (r_peer t) = m' \<and> sb_no_ack (r_peer t) = (r_no_ack s \<or> p = NOACK)"
proof -
  let ?P = "stub_peer M cuts" and ?text = "(if r_no_ack s then [] else ''+'') @ frame (escape reply)"
  define q where "q = \<lparr> sb_mach = m', sb_no_ack = (r_no_ack s \<or> p = NOACK), sb_count = Suc (sb_count (r_peer s)) \<rparr>"
  define t where "t = s\<lparr> r_in := map Data (pieces (cuts (sb_count (r_peer s))) ?text), r_peer := q \<rparr>"
  have send: "sendall ?P (frame p) s = Some (Inr (), t)"
    using s answer by (simp add: sendall_def stub_peer_frame t_def q_def)
  have t: "live t" "stream t = ?text" "r_buf t = []" "r_no_ack t = r_no_ack s" "r_peer t = q"
    using s live_pieces [of t] stream_pieces [of t] by (simp_all add: t_def)
  have "\<exists>u. send ?P p s = Some (Inr (), u) \<and> live u \<and> stream u = frame (escape reply) \<and> r_no_ack u = r_no_ack s \<and> r_peer u = q"
  proof (cases "r_no_ack s")
    case True
    then show ?thesis using t send by (simp add: send_def numeral_eq_Suc)
  next
    case False
    then obtain u where "read_ack t = Some (Inr (Some CHR ''+''), u)" "stream u = frame (escape reply)" "live u"
      "r_no_ack u = r_no_ack t" "r_peer u = r_peer t"
      using read_ack_plus [OF t(3,1), of "frame (escape reply)"] t by auto
    then show ?thesis using t send False by (simp add: send_def numeral_eq_Suc)
  qed
  then obtain u where u: "send ?P p s = Some (Inr (), u)" "live u" "stream u = [] @ frame (escape reply) @ []"
    "r_no_ack u = r_no_ack s" "r_peer u = q" by auto
  obtain b c where bc: "recv ?P u = Some (Inr reply, u\<lparr> r_buf := b, r_in := c \<rparr>)" "stream (u\<lparr> r_buf := b, r_in := c \<rparr>) = []"
    "live (u\<lparr> r_buf := b, r_in := c \<rparr>)"
    using recv_good [OF u(2,3), of ?P] quiet_stub by auto
  have "b = []" "c = []" using live_empty [OF bc(3,2)] by simp_all
  then show ?thesis using u bc(1) by (auto simp: request_def q_def)
qed

lemma sync_request:
  assumes "stub_sync m s" "stub_answer M m p = (Some reply, m')" "p \<noteq> NOACK"
  shows "\<exists>t. request (stub_peer M cuts) p s = Some (Inr reply, t) \<and> stub_sync m' t"
  using stub_request [of s M p reply m' cuts] assms by (auto simp: stub_sync_def)

lemma int_bytes_pad: "is_byte b \<Longrightarrow> int_bytes (hex_pad 2 b) = Some b"
proof -
  assume b: "is_byte b"
  define x y where "x = b div 16" and "y = b mod 16"
  have k: "0 \<le> x" "x < 16" "0 \<le> y" "y < 16" "b = 16 * x + y"
    using b by (auto simp: x_def y_def is_byte_def pos_imp_zdiv_nonneg_iff)
  have ascii: "\<not> ((of_char (digit_char j) :: nat) \<ge> 128 \<or> (28 \<le> (of_char (digit_char j) :: nat) \<and> (of_char (digit_char j) :: nat) \<le> 31))"
    if "0 \<le> j" "j < 16" for j
    using nibble_cases [OF that] by (elim disjE; simp add: digit_char_def)
  note c = digit_char_plain [OF k(1,2)] digit_char_plain [OF k(3,4)]
  have "py_int 16 [digit_char x, digit_char y] = Some b"
    using c k by (simp add: py_int_def strip_plain scan_unsigned_def lower_def digit_val_char)
  moreover have "hex_pad 2 b = [digit_char x, digit_char y]" using b by (simp add: hex_pad_two x_def y_def)
  ultimately show ?thesis using ascii [OF k(1,2)] ascii [OF k(3,4)] by (auto simp: int_bytes_def)
qed

lemma decode_bytes_hex: "\<forall>b \<in> set bs. is_byte b \<Longrightarrow> decode_g_hex (bytes_hex bs) = bs"
proof (induction bs)
  case (Cons b bs)
  have two: "hex_pad 2 b = [digit_char (b div 16), digit_char (b mod 16)]" using Cons.prems by (simp add: hex_pad_two)
  have "int_bytes [digit_char (b div 16), digit_char (b mod 16)] = Some b"
    using int_bytes_pad [of b] Cons.prems by (simp add: two)
  then show ?case using Cons by (simp add: bytes_hex_def two is_byte_def)
qed (simp add: bytes_hex_def)

lemma view_bytes: "\<forall>b \<in> set (image_view M m). is_byte b" "mem_view M m a n = Some bs \<Longrightarrow> \<forall>b \<in> set bs. is_byte b"
  by (auto simp: image_view_def mem_view_def is_byte_def split: option.splits if_splits)

lemma stub_handshake:
  assumes "stub_sync m s" shows "\<exists>t. handshake (stub_peer M cuts) s = Some (Inr (), t) \<and> stub_sync m t"
proof -
  have "stub_answer M m QSUPPORTED = (Some [], m)" "QSUPPORTED \<noteq> NOACK"
    by (simp_all add: stub_answer_def QSUPPORTED_def QXFER_def NOACK_def)
  then obtain t where t: "request (stub_peer M cuts) QSUPPORTED s = Some (Inr [], t)" "stub_sync m t"
    using sync_request [OF assms] by blast
  have "stub_answer M m NOACK = (Some ''OK'', m)"
    by (simp add: stub_answer_def QXFER_def NOACK_def)
  then obtain u where u: "request (stub_peer M cuts) NOACK t = Some (Inr ''OK'', u)" "r_buf u = []" "r_in u = []"
    "sb_mach (r_peer u) = m" "sb_no_ack (r_peer u)"
    using stub_request [of t M NOACK "''OK''" m cuts] t(2) by (auto simp: stub_sync_def)
  then have "handshake (stub_peer M cuts) s = Some (Inr (), u\<lparr> r_no_ack := True \<rparr>)"
    using t by (simp add: handshake_def)
  then show ?thesis using u by (auto simp: stub_sync_def)
qed

lemma stub_read_g:
  assumes "stub_sync m s"
  shows "\<exists>t. read_g (stub_peer M cuts) s = Some (Inr (image_view M m), t) \<and> stub_sync m t"
proof -
  obtain t where "request (stub_peer M cuts) ''g'' s = Some (Inr (bytes_hex (image_view M m)), t)" "stub_sync m t"
    using sync_request [OF assms, of M "''g''"] by (auto simp: stub_answer_def NOACK_def)
  then show ?thesis by (auto simp: read_g_def decode_bytes_hex view_bytes)
qed

lemma stub_step:
  assumes "stub_sync m s" "mc_step M m = (Some r, m')"
  shows "\<exists>t. step (stub_peer M cuts) s = Some (Inr r, t) \<and> stub_sync m' t"
  unfolding step_def using sync_request [OF assms(1), of M "''s''"] assms(2) by (auto simp: stub_answer_def NOACK_def)

lemma stub_closed:
  assumes "stub_sync m s" "mc_step M m = (None, m')"
  shows "\<exists>t. step (stub_peer M cuts) s = Some (Inl RspClosed, t)"
proof -
  let ?P = "stub_peer M cuts"
  define t where "t = s\<lparr> r_in := [Eof], r_peer := (r_peer s)\<lparr> sb_mach := m' \<rparr> \<rparr>"
  have "stub_answer M (sb_mach (r_peer s)) ''s'' = (None, m')" using assms by (simp add: stub_answer_def stub_sync_def)
  then have send: "sendall ?P (frame ''s'') s = Some (Inr (), t)"
    using assms(1) by (simp add: sendall_def stub_peer_frame t_def stub_sync_def)
  have more: "recv_more t = Some (Inl RspClosed, t)" by (simp add: recv_more_def t_def)
  have t: "r_buf t = []" "r_no_ack t = r_no_ack s" using assms(1) by (simp_all add: t_def stub_sync_def)
  have "read_ack t = Some (Inl RspClosed, t)" using more t by (subst read_ack.simps) simp
  moreover have "wait_start t = Some (Inl RspClosed, t)" using more t by (subst wait_start.simps) simp
  then have "recv_once ?P t = Some (Inl RspClosed, t)" by (simp add: recv_once_def)
  then have "recv ?P t = Some (Inl RspClosed, t)" by (subst recv.simps) simp
  ultimately show ?thesis using send t
    by (cases "r_no_ack s") (simp_all add: step_def request_def send_def numeral_eq_Suc)
qed

lemma digit_char_lower: "0 \<le> k \<Longrightarrow> k < 16 \<Longrightarrow> digit_char k \<noteq> CHR ''E''"
  by (drule (1) nibble_cases) (elim disjE; simp add: digit_char_def)

lemma stub_read_mem:
  assumes "stub_sync m s" "0 \<le> a" "0 \<le> n"
  shows "\<exists>t. read_mem (stub_peer M cuts) a n s = Some (Inr (mem_view M m a n), t) \<and> stub_sync m t"
proof -
  let ?p = "''m'' @ hex_fmt a @ '','' @ hex_fmt n"
  let ?r = "case mem_view M m a n of None \<Rightarrow> ''E14'' | Some bs \<Rightarrow> bytes_hex bs"
  have comma: "\<not> is_hex CHR '',''" by (simp add: is_hex_def hexval_def digit_val_def)
  have n: "hexs (digits 16 n) = Some (n, [])" using hexs_digits [of n "[]"] assms(3) by simp
  have "hex_fmt a \<noteq> []" using assms(2) by (simp add: hex_fmt_def digits_not_nil)
  then have "stub_answer M m ?p = (Some ?r, m)"
    using assms hexs_digits [of a "CHR '','' # digits 16 n"] comma n by (simp add: stub_answer_def hex_fmt_def)
  moreover have "?p \<noteq> NOACK" by (simp add: NOACK_def)
  ultimately obtain t where t: "request (stub_peer M cuts) ?p s = Some (Inr ?r, t)" "stub_sync m t"
    using sync_request [OF assms(1)] by blast
  have "(if ?r = [] \<or> hd ?r = CHR ''E'' then None else fromhex ?r) = mem_view M m a n"
  proof (cases "mem_view M m a n")
    case (Some bs)
    then obtain b bs' where bs: "bs = b # bs'" by (cases bs) (auto simp: mem_view_def split: option.splits if_splits)
    have byte: "\<forall>b \<in> set bs. is_byte b" using view_bytes(2) [OF Some] .
    then have "0 \<le> b div 16" "b div 16 < 16" by (auto simp: bs is_byte_def pos_imp_zdiv_nonneg_iff)
    then have "digit_char (b div 16) \<noteq> CHR ''E''" by (rule digit_char_lower)
    moreover have "bytes_hex bs = digit_char (b div 16) # digit_char (b mod 16) # bytes_hex bs'"
      using byte by (simp add: bs bytes_hex_def hex_pad_two)
    ultimately show ?thesis using Some fromhex_bytes_hex [OF byte] by simp
  qed simp
  then show ?thesis using t by (simp add: read_mem_def)
qed

lemma stub_qxfer_step:
  assumes "stub_sync m s" "CHR '':'' \<notin> set a"
  shows "\<exists>t. request (stub_peer M cuts) (QXFER @ a @ '':'' @ hex_fmt (int off) @ '',fff'') s =
      Some (Inr (doc_chunk (mc_docs M a) (int off)), t) \<and> stub_sync m t"
proof -
  let ?rest = "a @ CHR '':'' # digits 16 (int off) @ '',fff''"
  let ?p = "QXFER @ a @ '':'' @ hex_fmt (int off) @ '',fff''"
  have p: "?p = QXFER @ ?rest" by (simp add: hex_fmt_def)
  have comma: "\<not> is_hex CHR '',''" by (simp add: is_hex_def hexval_def digit_val_def)
  have a: "takeWhile (\<lambda>c. c \<noteq> CHR '':'') ?rest = a" "dropWhile (\<lambda>c. c \<noteq> CHR '':'') ?rest = CHR '':'' # digits 16 (int off) @ '',fff''"
    using assms(2) by (induction a) auto
  have not: "QXFER @ ?rest \<noteq> ''g''" "QXFER @ ?rest \<noteq> ''s''" "lit ''m'' (QXFER @ ?rest) = None" "QXFER @ ?rest \<noteq> NOACK"
    by (simp_all add: QXFER_def NOACK_def)
  have "hexs (digits 16 (int off) @ '',fff'') = Some (int off, '',fff'')" using comma by (intro hexs_digits) simp_all
  then have "stub_answer M m ?p = (Some (doc_chunk (mc_docs M a) (int off)), m)"
    unfolding stub_answer_def p using not a by simp
  then show ?thesis using sync_request [OF assms(1)] not(4) unfolding p by blast
qed

lemma stub_qxfer_loop:
  assumes "stub_sync m s" "CHR '':'' \<notin> set a" "off \<le> length (mc_docs M a)" "length (mc_docs M a) \<le> off + Suc n * 0xfff"
  shows "\<exists>t. qxfer_loop (stub_peer M cuts) a (Suc n) (take off (mc_docs M a)) (int off) s = Some (Inr (mc_docs M a), t) \<and> stub_sync m t"
  using assms
proof (induction n arbitrary: off s)
  case (0 off s)
  let ?doc = "mc_docs M a"
  obtain t where t: "request (stub_peer M cuts) (QXFER @ a @ '':'' @ hex_fmt (int off) @ '',fff'') s = Some (Inr (doc_chunk ?doc (int off)), t)"
    "stub_sync m t" using stub_qxfer_step [OF "0.prems"(1,2), of M cuts off] by blast
  show ?case
  proof (cases "?doc = []")
    case False
    then have "doc_chunk ?doc (int off) = CHR ''l'' # drop off ?doc" using "0.prems" by (simp add: doc_chunk_def)
    then show ?thesis using t by simp
  qed (use t in \<open>simp add: doc_chunk_def\<close>)
next
  case (Suc n off s)
  let ?doc = "mc_docs M a"
  obtain t where t: "request (stub_peer M cuts) (QXFER @ a @ '':'' @ hex_fmt (int off) @ '',fff'') s = Some (Inr (doc_chunk ?doc (int off)), t)"
    "stub_sync m t" using stub_qxfer_step [OF Suc.prems(1,2), of M cuts off] by blast
  consider "?doc = []" | "?doc \<noteq> []" "length ?doc \<le> off + 0xfff" | "?doc \<noteq> []" "length ?doc > off + 0xfff" by linarith
  then show ?case
  proof cases
    case 1
    then show ?thesis using t by (simp add: doc_chunk_def)
  next
    case 2
    then have "doc_chunk ?doc (int off) = CHR ''l'' # drop off ?doc" by (simp add: doc_chunk_def)
    then show ?thesis using t by simp
  next
    case 3
    let ?data = "take 0xfff (drop off ?doc)"
    have chunk: "doc_chunk ?doc (int off) = CHR ''m'' # ?data" using 3 by (simp add: doc_chunk_def)
    have data: "?data \<noteq> []" "length ?data = 0xfff" "take off ?doc @ ?data = take (off + 0xfff) ?doc"
      using 3 by (simp_all add: take_add)
    obtain u where u: "qxfer_loop (stub_peer M cuts) a (Suc n) (take (off + 0xfff) ?doc) (int (off + 0xfff)) t = Some (Inr ?doc, u)" "stub_sync m u"
      using Suc.IH [OF t(2) Suc.prems(2), of "off + 0xfff"] Suc.prems(4) 3 by auto
    have "qxfer_loop (stub_peer M cuts) a (Suc (Suc n)) (take off ?doc) (int off) s =
        qxfer_loop (stub_peer M cuts) a (Suc n) (take off ?doc @ ?data) (int off + int (length ?data)) t"
      using t(1) chunk data(1) by (subst qxfer_loop.simps) simp
    then show ?thesis using u unfolding data(2,3) by simp
  qed
qed

lemma stub_qxfer_read:
  "stub_sync m s \<Longrightarrow> readable M a \<Longrightarrow> \<exists>t. qxfer_read (stub_peer M cuts) a s = Some (Inr (mc_docs M a), t) \<and> stub_sync m t"
  using stub_qxfer_loop [of m s a 0 M 63 cuts] by (simp add: readable_def qxfer_read_def)

text \<open>The reference stub over any machine, cutting its answers in any way, is a session.\<close>

interpretation stub: gdb_session "stub_peer M cuts" M stub_sync for M :: "'m machine" and cuts :: "nat \<Rightarrow> nat list"
  by unfold_locales
    (rule stub_handshake stub_qxfer_read stub_read_g stub_step stub_closed stub_read_mem; assumption)+

end
