(* ===== verification/Gen_Trace.thy ===== *)
theory Gen_Trace
  imports Gdb_Stub
begin

text \<open>
  The user-mode producer \<open>generate\<close> of verif/qemu-trace/gen_trace.py and the vocabulary it shares with
  the other single-stepping producers. They start from a connected client; launching and reaping QEMU
  is left out. The world they run in is the client together with the lines written to the trace file.
\<close>

subsection \<open>The world of a producer\<close>

record 'q world =
  w_rsp :: "'q rsp"
  w_out :: "string list"
  w_image :: "string list"

definition onRsp :: "('q rsp, 'a) io \<Rightarrow> ('q world, 'a) io" where
  "onRsp m w = map_option (\<lambda>(r, s). (r, w\<lparr> w_rsp := s \<rparr>)) (m (w_rsp w))"

definition write_line :: "json \<Rightarrow> ('q world, unit) io" where
  "write_line j w = Some (Inr (), w\<lparr> w_out := w_out w @ [dumps j @ [CHR 0x0A]] \<rparr>)"

text \<open>The \<open>finally\<close> block: a best-effort kill request whose exceptions are dropped.\<close>

definition finally_kill :: "'q peer \<Rightarrow> ('q world, 'a) io \<Rightarrow> ('q world, 'a) io" where
  "finally_kill P m w = Option.bind (m w) (\<lambda>(r, w).
     map_option (\<lambda>(_, s). (r, w\<lparr> w_rsp := s \<rparr>)) (send P ''k'' (w_rsp w)))"

definition basename :: "string \<Rightarrow> string" where
  "basename p = rev (takeWhile (\<lambda>c. c \<noteq> CHR ''/'') (rev p))"

definition args_note :: "string list \<Rightarrow> string" where
  "args_note extra = (if extra = [] then [] else '' args='' @ join '' '' extra)"

record gen_args =
  ga_path :: string
  ga_extra :: "string list"
  ga_max :: "int option"
  ga_stop :: "int option"
  ga_x87 :: bool
  ga_bytes :: bool

definition limit_reached :: "gen_args \<Rightarrow> int \<Rightarrow> bool" where
  "limit_reached a n = (case ga_max a of None \<Rightarrow> False | Some m \<Rightarrow> n \<ge> m)"

definition fetch_hex :: "'q peer \<Rightarrow> bool \<Rightarrow> int \<Rightarrow> ('q world, string option) io" where
  "fetch_hex P want addr =
    (if want then bindIO (onRsp (read_mem P addr 15)) (\<lambda>mem.
       retIO (case mem of None \<Rightarrow> None | Some bs \<Rightarrow> if bs = [] then None else Some (bytes_hex bs)))
     else retIO None)"

text \<open>The stop reply of a step; after console output the real one is read.\<close>

definition settle :: "'q peer \<Rightarrow> stop_reply \<Rightarrow> ('q world, stop_reply) io" where
  "settle P stop = (if sr_kind stop = Output then bindIO (onRsp (recv P)) (\<lambda>r. retIO (mk_stop r)) else retIO stop)"

definition finished :: "stop_reply \<Rightarrow> bool" where
  "finished stop \<longleftrightarrow> sr_kind stop = Exited \<or> sr_kind stop = Term"

subsection \<open>User mode\<close>

definition user_opts :: "string option \<Rightarrow> bool \<Rightarrow> arch \<Rightarrow> func_opts" where
  "user_opts bytes emit_x87 f = no_opts\<lparr> fo_bytes := map_option HexText bytes,
     fo_x87 := (if emit_x87 then ar_x87 f else None) \<rparr>"

definition user_record :: "bool \<Rightarrow> reg_layout \<Rightarrow> int \<Rightarrow> int list \<Rightarrow> string option \<Rightarrow> int list \<Rightarrow> jdict result" where
  "user_record emit_x87 l n raw bytes raw' =
    (let f = regs_to_fields l raw'
     in func_record n (ar_eip (regs_to_fields l raw)) (ar_eflags f) (ar_gpr f) (ar_seg f) (user_opts bytes emit_x87 f))"

partial_function (option) gen_loop ::
  "'q peer \<Rightarrow> gen_args \<Rightarrow> reg_layout \<Rightarrow> bool \<Rightarrow> int \<Rightarrow> int list \<Rightarrow> 'q world \<Rightarrow>
    ((rsp_error + int \<times> stop_reply option) \<times> 'q world) option" where
  "gen_loop P a l emit_x87 n raw w =
    (let pc = ar_eip (regs_to_fields l raw)
     in if limit_reached a n \<or> ga_stop a = Some pc then Some (Inr (n, None), w)
        else bindIO (fetch_hex P (ga_bytes a) pc) (\<lambda>bytes.
          bindIO (onRsp (step P)) (\<lambda>reply.
            bindIO (if finished (mk_stop reply) then retIO (mk_stop reply) else settle P (mk_stop reply)) (\<lambda>stop w.
              if finished stop then Some (Inr (n, Some stop), w)
              else bindIO (onRsp (read_g P)) (\<lambda>raw'.
                bindIO (liftE (user_record emit_x87 l n raw bytes raw')) (\<lambda>rec.
                  bindIO (write_line (JDict rec)) (\<lambda>_. gen_loop P a l emit_x87 (n + 1) raw'))) w))) w)"

definition user_note :: "gen_args \<Rightarrow> string" where
  "user_note a = ''elf='' @ basename (ga_path a) @ '' qemu=-one-insn-per-tb'' @ args_note (ga_extra a)"

definition user_header :: "gen_args \<Rightarrow> bool \<Rightarrow> jdict result" where
  "user_header a x87 = header ''qemu-gdbstub'' ''func'' x87 False (user_note a)"

definition generate :: "'q peer \<Rightarrow> gen_args \<Rightarrow> ('q world, int \<times> stop_reply option) io" where
  "generate P a = finally_kill P (bindIO (onRsp (handshake P)) (\<lambda>_.
     bindIO (onRsp (discover_layout P)) (\<lambda>l.
       let emit_x87 = ga_x87 a \<and> has l ''st0''
       in bindIO (liftE (user_header a emit_x87)) (\<lambda>h. bindIO (write_line (JDict h)) (\<lambda>_.
            bindIO (onRsp (read_g P)) (\<lambda>raw.
              gen_loop P a (anchor_tail l (int (length raw))) emit_x87 0 raw))))))"

subsection \<open>Effects on the world\<close>

lemma onRsp_some [simp]: "m (w_rsp w) = Some (r, s) \<Longrightarrow> onRsp m w = Some (r, w\<lparr> w_rsp := s \<rparr>)"
  by (simp add: onRsp_def)

text \<open>Sending always comes back: the acknowledgement loop receives at most once.\<close>

lemma read_ack_returns: "read_ack s \<noteq> None"
proof (cases "r_buf s = []")
  case True
  show ?thesis
  proof (cases "recv_more s")
    case None
    then show ?thesis by (auto simp: recv_more_def split: list.splits chunk.splits if_splits)
  next
    case (Some rs)
    obtain r s' where rs: "rs = (r, s')" by (cases rs)
    show ?thesis
    proof (cases r)
      case (Inl e)
      then show ?thesis using True Some rs by (subst read_ack.simps) simp
    next
      case (Inr u)
      then have "r_buf s' \<noteq> []" using Some rs by (auto simp: recv_more_def split: list.splits chunk.splits if_splits)
      then have "read_ack s' \<noteq> None" by (subst read_ack.simps) simp
      then show ?thesis using True Some rs Inr by (subst read_ack.simps) simp
    qed
  qed
qed (subst read_ack.simps, simp)

lemma bindIO_not_none: "m s \<noteq> None \<Longrightarrow> (\<And>x t. f x t \<noteq> None) \<Longrightarrow> bindIO m f s \<noteq> None"
  by (auto simp: bindIO_def split: sum.split prod.split)

lemma send_returns: "send P p s \<noteq> None"
proof -
  have "send_tries P n p s \<noteq> None" for n
  proof (induction n arbitrary: s)
    case (Suc n)
    have "sendall P d s \<noteq> None" for d and s :: "'a rsp" by (simp add: sendall_def split: option.split prod.split)
    then show ?case unfolding send_tries.simps
    proof (rule bindIO_not_none)
      fix x and t :: "'a rsp"
      have "(if ack = Some CHR ''+'' then retIO () else send_tries P n p) u \<noteq> None" for ack and u :: "'a rsp"
        using Suc.IH by simp
      then have "bindIO read_ack (\<lambda>ack. if ack = Some CHR ''+'' then retIO () else send_tries P n p) t \<noteq> None"
        by (intro bindIO_not_none read_ack_returns)
      then show "(if r_no_ack t then retIO () t
          else bindIO read_ack (\<lambda>ack. if ack = Some CHR ''+'' then retIO () else send_tries P n p) t) \<noteq> None" by simp
    qed
  qed simp
  then show ?thesis by (simp add: send_def)
qed

lemma finally_kill_some:
  assumes "m w = Some (r, w')"
  shows "\<exists>s. finally_kill P m w = Some (r, w'\<lparr> w_rsp := s \<rparr>)"
  using assms send_returns [of P "''k''" "w_rsp w'"] by (auto simp: finally_kill_def)

subsection \<open>The trace of a machine\<close>

definition after :: "'m machine \<Rightarrow> nat \<Rightarrow> 'm \<Rightarrow> 'm" where
  "after M i m = ((\<lambda>m. snd (mc_step M m)) ^^ i) m"

lemma after_simps [simp]: "after M 0 m = m" "after M (Suc i) m = snd (mc_step M (after M i m))"
  by (simp_all add: after_def)

lemma after_first: "after M (Suc i) m = after M i (snd (mc_step M m))"
  by (induction i) simp_all

definition pc_at :: "'m machine \<Rightarrow> reg_layout \<Rightarrow> 'm \<Rightarrow> int" where
  "pc_at M l m = ar_eip (regs_to_fields l (image_view M m))"

definition bytes_at :: "'m machine \<Rightarrow> bool \<Rightarrow> 'm \<Rightarrow> int \<Rightarrow> string option" where
  "bytes_at M want m addr = (if want then map_option bytes_hex (mem_view M m addr 15) else None)"

text \<open>The step out of a state is traced: no limit, no stop address, and the stub reports neither an
  exit nor console output.\<close>

definition traced :: "'m machine \<Rightarrow> gen_args \<Rightarrow> reg_layout \<Rightarrow> int \<Rightarrow> 'm \<Rightarrow> bool" where
  "traced M a l n m \<longleftrightarrow> \<not> limit_reached a n \<and> ga_stop a \<noteq> Some (pc_at M l m) \<and>
     (\<exists>r. fst (mc_step M m) = Some r \<and> sr_kind (mk_stop r) \<notin> {Output, Exited, Term})"

lemma traced_shift:
  assumes "\<forall>i < Suc k. traced M a l (n + int i) (after M i m)"
  shows "\<forall>i < k. traced M a l (n + 1 + int i) (after M i (snd (mc_step M m)))"
proof (intro allI impI)
  fix i assume "i < k"
  then have "traced M a l (n + int (Suc i)) (after M (Suc i) m)" using assms by blast
  then show "traced M a l (n + 1 + int i) (after M i (snd (mc_step M m)))" by (simp only: after_first) (simp add: algebra_simps)
qed

definition user_rec :: "'m machine \<Rightarrow> gen_args \<Rightarrow> reg_layout \<Rightarrow> bool \<Rightarrow> int \<Rightarrow> 'm \<Rightarrow> jdict result" where
  "user_rec M a l x87 n m = user_record x87 l n (image_view M m) (bytes_at M (ga_bytes a) m (pc_at M l m))
     (image_view M (snd (mc_step M m)))"

definition line_of :: "jdict \<Rightarrow> string" where "line_of r = dumps (JDict r) @ [CHR 0x0A]"

lemma write_line_simp [simp]: "write_line (JDict r) w = Some (Inr (), w\<lparr> w_out := w_out w @ [line_of r] \<rparr>)"
  by (simp add: write_line_def line_of_def)

lemma fields_present:
  "set GPR_KEYS \<subseteq> fst ` set (ar_gpr (regs_to_fields l raw))" "set SEG_KEYS \<subseteq> fst ` set (ar_seg (regs_to_fields l raw))"
  "ar_x87 (regs_to_fields l raw) = Some x87 \<Longrightarrow> set X87_REGS \<union> set X87_CTL \<subseteq> fst ` set x87"
  by (auto simp: regs_to_fields_def image_image image_Un split: if_splits)

lemma user_record_exists: "\<exists>r. user_record x87 l n raw bytes raw' = Inr r \<and> map_of r ''n'' = Some (JInt n)"
proof -
  let ?f = "regs_to_fields l raw'"
  have "\<exists>r. user_record x87 l n raw bytes raw' = Inr r"
    using func_record_holds [where gpr = "ar_gpr ?f" and seg = "ar_seg ?f" and opts = "user_opts bytes x87 ?f"]
      fields_present [of l raw'] unfolding user_record_def Let_def by (force simp: user_opts_def split: if_splits)
  then show ?thesis using func_record_n by (auto simp: user_record_def Let_def)
qed

lemma from_le_nonneg: "\<forall>b \<in> set bs. 0 \<le> b \<Longrightarrow> 0 \<le> from_le bs"
  by (induction bs) auto

lemma get0_nonneg: "0 \<le> get0 l (image_view M m) k"
proof -
  have nn: "0 \<le> from_le (take i (drop j (image_view M m)))" for i j
    by (rule from_le_nonneg) (auto simp: image_view_def dest!: in_set_takeD in_set_dropD)
  have "v \<ge> 0" if "slice l (image_view M m) k = Some v" for v
    using that nn unfolding slice_def Let_def by (auto split: option.splits if_splits)
  then show ?thesis by (simp add: get0_def split: option.split)
qed

lemma pc_nonneg: "0 \<le> pc_at M l m"
  by (simp add: pc_at_def regs_to_fields_def get0_nonneg)

lemma mem_view_not_nil: "mem_view M m addr n \<noteq> Some []"
  by (simp add: mem_view_def split: option.split)

text \<open>The run ends in a state: by the limit, by the stop address, or because the step is the exit.\<close>

definition ends_with :: "'m machine \<Rightarrow> gen_args \<Rightarrow> reg_layout \<Rightarrow> int \<Rightarrow> 'm \<Rightarrow> stop_reply option \<Rightarrow> bool" where
  "ends_with M a l n m out \<longleftrightarrow>
    (if limit_reached a n \<or> ga_stop a = Some (pc_at M l m) then out = None
     else \<exists>r. fst (mc_step M m) = Some r \<and> finished (mk_stop r) \<and> out = Some (mk_stop r))"

text \<open>The records of \<open>k\<close> steps from a state.\<close>

primrec recs :: "(int \<Rightarrow> 'm \<Rightarrow> jdict result) \<Rightarrow> 'm machine \<Rightarrow> int \<Rightarrow> 'm \<Rightarrow> nat \<Rightarrow> jdict list result" where
  "recs f M n m 0 = Inr []"
| "recs f M n m (Suc k) = bindE (f n m) (\<lambda>r. bindE (recs f M (n + 1) (snd (mc_step M m)) k) (\<lambda>rs. Inr (r # rs)))"

lemma recs_exist:
  assumes "\<And>n m. \<exists>r. f n m = Inr r \<and> map_of r ''n'' = Some (JInt n)"
  shows "\<exists>rs. recs f M n m k = Inr rs \<and> length rs = k \<and> (\<forall>i < k. map_of (rs ! i) ''n'' = Some (JInt (n + int i)))"
proof (induction k arbitrary: n m)
  case (Suc k)
  obtain r where r: "f n m = Inr r" "map_of r ''n'' = Some (JInt n)" using assms by blast
  obtain rs where rs: "recs f M (n + 1) (snd (mc_step M m)) k = Inr rs" "length rs = k"
    "\<forall>i < k. map_of (rs ! i) ''n'' = Some (JInt (n + 1 + int i))" using Suc by blast
  have "map_of ((r # rs) ! i) ''n'' = Some (JInt (n + int i))" if "i < Suc k" for i
    using that r(2) rs(3) by (cases i) (auto simp: algebra_simps)
  then show ?case using r(1) rs by auto
qed simp

context gdb_session
begin

lemma fetch_ok:
  assumes "sync m (w_rsp w)" "0 \<le> addr"
  shows "\<exists>s. fetch_hex P want addr w = Some (Inr (bytes_at M want m addr), w\<lparr> w_rsp := s \<rparr>) \<and> sync m s"
proof (cases want)
  case True
  obtain s where s: "read_mem P addr 15 (w_rsp w) = Some (Inr (mem_view M m addr 15), s)" "sync m s"
    using read_mem_ok [OF assms, of 15] by auto
  then show ?thesis using True mem_view_not_nil [of M m addr 15]
    by (auto simp: fetch_hex_def bytes_at_def split: option.split)
qed (use assms in \<open>auto simp: fetch_hex_def bytes_at_def intro!: exI [of _ "w_rsp w"]\<close>)

lemma onRsp_step:
  assumes "sync m (w_rsp w)" "fst (mc_step M m) = Some r"
  shows "\<exists>s. onRsp (step P) w = Some (Inr r, w\<lparr> w_rsp := s \<rparr>) \<and> sync (snd (mc_step M m)) s"
  using step_ok [OF assms(1), of r "snd (mc_step M m)"] assms(2) by (cases "mc_step M m") auto

lemma onRsp_read_g:
  "sync m (w_rsp w) \<Longrightarrow> \<exists>s. onRsp (read_g P) w = Some (Inr (image_view M m), w\<lparr> w_rsp := s \<rparr>) \<and> sync m s"
  using read_g_ok by fastforce

lemma gen_loop_traced:
  assumes "sync m (w_rsp w)" "traced M a l n m" "user_rec M a l x87 n m = Inr r"
  shows "\<exists>s. gen_loop P a l x87 n (image_view M m) w =
      gen_loop P a l x87 (n + 1) (image_view M (snd (mc_step M m))) (w\<lparr> w_rsp := s, w_out := w_out w @ [line_of r] \<rparr>) \<and>
    sync (snd (mc_step M m)) s"
proof -
  let ?m = "snd (mc_step M m)" and ?pc = "pc_at M l m"
  obtain s1 where fetch: "fetch_hex P (ga_bytes a) ?pc w = Some (Inr (bytes_at M (ga_bytes a) m ?pc), w\<lparr> w_rsp := s1 \<rparr>)" "sync m s1"
    using fetch_ok [OF assms(1) pc_nonneg [of M l m]] by blast
  obtain reply where reply: "fst (mc_step M m) = Some reply" "sr_kind (mk_stop reply) \<notin> {Output, Exited, Term}"
    using assms(2) by (auto simp: traced_def)
  obtain s2 where stp: "onRsp (step P) (w\<lparr> w_rsp := s1 \<rparr>) = Some (Inr reply, w\<lparr> w_rsp := s2 \<rparr>)" "sync ?m s2"
    using onRsp_step [of m "w\<lparr> w_rsp := s1 \<rparr>", OF _ reply(1)] fetch(2) by auto
  obtain s3 where g: "onRsp (read_g P) (w\<lparr> w_rsp := s2 \<rparr>) = Some (Inr (image_view M ?m), w\<lparr> w_rsp := s3 \<rparr>)" "sync ?m s3"
    using onRsp_read_g [of ?m "w\<lparr> w_rsp := s2 \<rparr>"] stp(2) by auto
  have "gen_loop P a l x87 n (image_view M m) w =
      gen_loop P a l x87 (n + 1) (image_view M ?m) (w\<lparr> w_rsp := s3, w_out := w_out w @ [line_of r] \<rparr>)"
    using assms(2,3) fetch(1) stp(1) reply(2) g(1)
    by (subst gen_loop.simps) (simp add: traced_def pc_at_def [symmetric] finished_def settle_def user_rec_def Let_def)
  then show ?thesis using g(2) by blast
qed

lemma gen_loop_ends:
  assumes "sync m (w_rsp w)" "ends_with M a l n m out"
  shows "\<exists>s. gen_loop P a l x87 n (image_view M m) w = Some (Inr (n, out), w\<lparr> w_rsp := s \<rparr>)"
proof (cases "limit_reached a n \<or> ga_stop a = Some (pc_at M l m)")
  case True
  then show ?thesis using assms(2)
    by (subst gen_loop.simps) (auto simp: ends_with_def pc_at_def Let_def intro!: exI [of _ "w_rsp w"])
next
  case False
  let ?pc = "pc_at M l m"
  obtain r where r: "fst (mc_step M m) = Some r" "finished (mk_stop r)" "out = Some (mk_stop r)"
    using assms(2) False by (auto simp: ends_with_def)
  obtain s1 where fetch: "fetch_hex P (ga_bytes a) ?pc w = Some (Inr (bytes_at M (ga_bytes a) m ?pc), w\<lparr> w_rsp := s1 \<rparr>)" "sync m s1"
    using fetch_ok [OF assms(1) pc_nonneg [of M l m]] by blast
  obtain s2 where "onRsp (step P) (w\<lparr> w_rsp := s1 \<rparr>) = Some (Inr r, w\<lparr> w_rsp := s2 \<rparr>)"
    using onRsp_step [of m "w\<lparr> w_rsp := s1 \<rparr>", OF _ r(1)] fetch(2) by auto
  then show ?thesis using False fetch(1) r
    by (subst gen_loop.simps) (auto simp: pc_at_def [symmetric] Let_def)
qed

lemma gen_loop_run:
  assumes "sync m (w_rsp w)" "\<forall>i < k. traced M a l (n + int i) (after M i m)"
    and "ends_with M a l (n + int k) (after M k m) out" "recs (user_rec M a l x87) M n m k = Inr rs"
  shows "\<exists>s. gen_loop P a l x87 n (image_view M m) w =
    Some (Inr (n + int k, out), w\<lparr> w_rsp := s, w_out := w_out w @ map line_of rs \<rparr>)"
  using assms
proof (induction k arbitrary: n m w rs)
  case 0
  then show ?case using gen_loop_ends [of m w a l n out] by auto
next
  case (Suc k)
  let ?m = "snd (mc_step M m)"
  obtain r rs' where r: "user_rec M a l x87 n m = Inr r" "recs (user_rec M a l x87) M (n + 1) ?m k = Inr rs'" "rs = r # rs'"
    using Suc.prems(4) by (auto simp: bindE_eq_Inr)
  have "traced M a l n m" using Suc.prems(2) by force
  then obtain s where s: "gen_loop P a l x87 n (image_view M m) w =
      gen_loop P a l x87 (n + 1) (image_view M ?m) (w\<lparr> w_rsp := s, w_out := w_out w @ [line_of r] \<rparr>)" "sync ?m s"
    using gen_loop_traced [OF Suc.prems(1) _ r(1)] by blast
  have "\<forall>i < k. traced M a l (n + 1 + int i) (after M i ?m)" using Suc.prems(2) by (rule traced_shift)
  moreover have "ends_with M a l (n + 1 + int k) (after M k ?m) out"
    using Suc.prems(3) by (simp only: after_first) (simp add: algebra_simps)
  ultimately show ?case
    using Suc.IH [of ?m "w\<lparr> w_rsp := s, w_out := w_out w @ [line_of r] \<rparr>" "n + 1" rs'] s r by (auto simp: algebra_simps)
qed

text \<open>The whole producer: header, first stop, loop, and the kill request at the end.\<close>

lemma generate_run:
  assumes "sync m (w_rsp w)" "docs_ok M" "user_header a x87 = Inr h"
    and "x87 = (ga_x87 a \<and> has (described_layout M) ''st0'')"
    and "l = anchor_tail (described_layout M) (int (length (mc_image M m)))"
    and "\<forall>i < k. traced M a l (int i) (after M i m)"
    and "ends_with M a l (int k) (after M k m) out" "recs (user_rec M a l x87) M 0 m k = Inr rs"
  shows "\<exists>w'. generate P a w = Some (Inr (int k, out), w') \<and> w_out w' = w_out w @ map line_of (h # rs)"
proof -
  obtain s1 where s1: "handshake P (w_rsp w) = Some (Inr (), s1)" "sync m s1" using handshake_ok [OF assms(1)] by blast
  obtain s2 where s2: "discover_layout P s1 = Some (Inr (described_layout M), s2)" "sync m s2"
    using discover_ok [OF s1(2) assms(2)] by blast
  obtain s3 where s3: "read_g P s2 = Some (Inr (image_view M m), s3)" "sync m s3" using read_g_ok [OF s2(2)] by blast
  let ?w = "w\<lparr> w_out := w_out w @ [line_of h], w_rsp := s3 \<rparr>"
  have len: "length (image_view M m) = length (mc_image M m)" by (simp add: image_view_def)
  obtain s where s: "gen_loop P a l x87 0 (image_view M m) ?w = Some (Inr (int k, out), ?w\<lparr> w_rsp := s, w_out := w_out ?w @ map line_of rs \<rparr>)"
    using gen_loop_run [of m ?w k a l 0 out x87 rs] s3(2) assms(6-8) by auto
  have "\<exists>s'. generate P a w = Some (Inr (int k, out), (?w\<lparr> w_rsp := s, w_out := w_out ?w @ map line_of rs \<rparr>)\<lparr> w_rsp := s' \<rparr>)"
    unfolding generate_def
    by (rule finally_kill_some) (use s1(1) s2(1) s3(1) s assms(3-5) len in \<open>simp add: Let_def\<close>)
  then show ?thesis by auto
qed

end

lemma header_ok: "\<exists>h. user_header a x87 = Inr h"
  by (simp add: user_header_def header_def Let_def)


definition counter :: "nat machine" where
  "counter = \<lparr> mc_image = (\<lambda>m. replicate 64 (int m)), mc_step = (\<lambda>m. (Some (if m < 2 then ''T05'' else ''W07''), Suc m)),
     mc_mem = (\<lambda>m a n. Some [0x90]), mc_docs = (\<lambda>a. []) \<rparr>"

definition plain_gen :: gen_args where
  "plain_gen = \<lparr> ga_path = ''bin/a'', ga_extra = [], ga_max = None, ga_stop = None, ga_x87 = False, ga_bytes = True \<rparr>"

definition fresh_world :: "'m \<Rightarrow> 'm stub world" where
  "fresh_world m = \<lparr> w_rsp = rsp_init \<lparr> sb_mach = m, sb_no_ack = False, sb_count = 0 \<rparr>, w_out = [], w_image = [] \<rparr>"

lemma sample_stops:
  "mk_stop ''T05'' = \<lparr> sr_raw = ''T05'', sr_kind = Stop, sr_signal = Some 5, sr_exit_code = None \<rparr>"
  "mk_stop ''W07'' = \<lparr> sr_raw = ''W07'', sr_kind = Exited, sr_signal = None, sr_exit_code = Some 7 \<rparr>"
  by (simp_all add: mk_stop_def Let_def is_hex_def hexval_def digit_val_def number_def hex2_def int_bytes_def py_int_def
      strip_def lstrip_def is_ws_def scan_unsigned_def lower_def lower_char_def)

lemma docs_counter: "docs_ok counter"
  by (simp add: docs_ok_def counter_def readable_def TARGET_XML_def findall_def)

lemma sync_fresh: "stub_sync m (w_rsp (fresh_world m))"
  by (simp add: stub_sync_def fresh_world_def rsp_init_def)

lemma counter_step: "mc_step counter m = (Some (if m < 2 then ''T05'' else ''W07''), Suc m)"
  by (simp add: counter_def)

lemma after_counter: "after counter i m = i + m"
  by (induction i) (simp_all add: counter_step)


subsection \<open>Any peer\<close>

text \<open>What the loop leaves in the file, whether it returns or raises.\<close>

definition numbered :: "int \<Rightarrow> jdict list \<Rightarrow> bool" where
  "numbered n rs \<longleftrightarrow> (\<forall>i < length rs. map_of (rs ! i) ''n'' = Some (JInt (n + int i)))"

lemma numbered_Cons: "map_of r ''n'' = Some (JInt n) \<Longrightarrow> numbered (n + 1) rs \<Longrightarrow> numbered n (r # rs)"
  by (auto simp: numbered_def nth_Cons algebra_simps split: nat.split)

definition loop_result :: "gen_args \<Rightarrow> int \<Rightarrow> 'q world \<Rightarrow> (rsp_error + int \<times> stop_reply option) \<Rightarrow> 'q world \<Rightarrow> bool" where
  "loop_result a n w r w' \<longleftrightarrow> (\<exists>rs. w_out w' = w_out w @ map line_of rs \<and> numbered n rs \<and>
     (\<forall>k. ga_max a = Some k \<longrightarrow> n + int (length rs) \<le> max n k) \<and>
     (case r of Inl _ \<Rightarrow> True | Inr (n', _) \<Rightarrow> n' = n + int (length rs)))"

lemma loop_result_none: "w_out w' = w_out w \<Longrightarrow> (case r of Inl _ \<Rightarrow> True | Inr (n', _) \<Rightarrow> n' = n) \<Longrightarrow> loop_result a n w r w'"
  unfolding loop_result_def by (intro exI [of _ "[]"]) (auto simp: numbered_def split: sum.splits)

lemma loop_result_step:
  assumes "loop_result a (n + 1) w1 r w'" "w_out w1 = w_out w @ [line_of rec]" "map_of rec ''n'' = Some (JInt n)" "\<not> limit_reached a n"
  shows "loop_result a n w r w'"
proof -
  obtain rs where rs: "w_out w' = w_out w1 @ map line_of rs" "numbered (n + 1) rs"
    "\<forall>k. ga_max a = Some k \<longrightarrow> n + 1 + int (length rs) \<le> max (n + 1) k"
    "case r of Inl _ \<Rightarrow> True | Inr (n', _) \<Rightarrow> n' = n + 1 + int (length rs)"
    using assms(1) unfolding loop_result_def by blast
  have "\<forall>k. ga_max a = Some k \<longrightarrow> n + int (length (rec # rs)) \<le> max n k"
    using rs(3) assms(4) by (auto simp: limit_reached_def)
  moreover have "case r of Inl _ \<Rightarrow> True | Inr (n', _) \<Rightarrow> n' = n + int (length (rec # rs))"
    using rs(4) by (auto split: sum.splits)
  ultimately show ?thesis
    unfolding loop_result_def using rs(1,2) assms(2,3) numbered_Cons by (intro exI [of _ "rec # rs"]) simp
qed

lemma bindIO_some:
  assumes "bindIO m f s = Some (r, t)"
  obtains e where "m s = Some (Inl e, t)" "r = Inl e" | x u where "m s = Some (Inr x, u)" "f x u = Some (r, t)"
  using assms by (cases "m s") (auto simp: bindIO_def split: sum.splits)

lemma onRsp_out: "onRsp m w = Some (r, w') \<Longrightarrow> w_out w' = w_out w"
  by (auto simp: onRsp_def)

lemma fetch_out: "fetch_hex P want addr w = Some (r, w') \<Longrightarrow> w_out w' = w_out w"
  by (auto simp: fetch_hex_def split: if_splits elim!: bindIO_some dest!: onRsp_out)

lemma settle_out: "settle P st w = Some (r, w') \<Longrightarrow> w_out w' = w_out w"
  by (auto simp: settle_def split: if_splits elim!: bindIO_some dest!: onRsp_out)

text \<open>The end of a round: read the registers, build the record, write it, go on with \<open>K\<close>.\<close>

lemma round_cases:
  assumes "bindIO (onRsp (read_g P)) (\<lambda>raw'. bindIO (liftE (mk raw')) (\<lambda>rec. bindIO (write_line (JDict rec)) (\<lambda>_. K raw'))) w = Some (r, w')"
    and "\<And>raw' rec. mk raw' = Inr rec \<Longrightarrow> map_of rec ''n'' = Some (JInt n)"
  obtains e where "r = Inl e" "w_out w' = w_out w"
  | raw' rec w1 where "K raw' w1 = Some (r, w')" "w_out w1 = w_out w @ [line_of rec]" "map_of rec ''n'' = Some (JInt n)"
proof -
  consider e where "onRsp (read_g P) w = Some (Inl e, w')" "r = Inl e"
    | raw' u where "onRsp (read_g P) w = Some (Inr raw', u)"
        "bindIO (liftE (mk raw')) (\<lambda>rec. bindIO (write_line (JDict rec)) (\<lambda>_. K raw')) u = Some (r, w')"
    using assms(1) by (rule bindIO_some)
  then show thesis
  proof cases
    case (1 e)
    then show thesis using that(1) onRsp_out by blast
  next
    case (2 raw' u)
    then have u: "w_out u = w_out w" using onRsp_out by blast
    show thesis
    proof (cases "mk raw'")
      case (Inl e)
      then show thesis using 2(2) u that(1) by auto
    next
      case (Inr rec)
      then show thesis using 2(2) u that(2) [of raw' "u\<lparr> w_out := w_out u @ [line_of rec] \<rparr>" rec] assms(2) by auto
    qed
  qed
qed

lemma user_record_n: "user_record x87 l n raw bytes raw' = Inr rec \<Longrightarrow> map_of rec ''n'' = Some (JInt n)"
  using user_record_exists [of x87 l n raw bytes raw'] by auto

lemma bindIO_keeps:
  assumes "bindIO m f w = Some (r, w')" "\<And>r w'. m w = Some (r, w') \<Longrightarrow> w_out w' = w_out w"
  obtains e where "r = Inl e" "w_out w' = w_out w" | x u where "f x u = Some (r, w')" "w_out u = w_out w"
  using assms by (elim bindIO_some) auto

lemma stop_out: "(if finished st then retIO st else settle P st) w = Some (r, w') \<Longrightarrow> w_out w' = w_out w"
  by (auto split: if_splits dest: settle_out)

lemma bind_fetch:
  assumes "bindIO (fetch_hex P want addr) f w = Some (r, w')"
  obtains e where "r = Inl e" "w_out w' = w_out w" | x u where "f x u = Some (r, w')" "w_out u = w_out w"
  using assms by (rule bindIO_keeps) (erule fetch_out)

lemma bind_onRsp:
  assumes "bindIO (onRsp m) f w = Some (r, w')"
  obtains e where "r = Inl e" "w_out w' = w_out w" | x u where "f x u = Some (r, w')" "w_out u = w_out w"
  using assms by (rule bindIO_keeps) (erule onRsp_out)

lemma bind_stop:
  assumes "bindIO (if finished st then retIO st else settle P st) f w = Some (r, w')"
  obtains e where "r = Inl e" "w_out w' = w_out w" | x u where "f x u = Some (r, w')" "w_out u = w_out w"
  using assms by (rule bindIO_keeps) (erule stop_out)

lemma user_round:
  assumes "bindIO (fetch_hex P want addr) (\<lambda>bytes. bindIO (onRsp (step P)) (\<lambda>reply.
      bindIO (if finished (mk_stop reply) then retIO (mk_stop reply) else settle P (mk_stop reply)) (\<lambda>stop w.
        if finished stop then Some (Inr (n, Some stop), w)
        else bindIO (onRsp (read_g P)) (\<lambda>raw'. bindIO (liftE (user_record x87 l n raw bytes raw')) (\<lambda>rec.
          bindIO (write_line (JDict rec)) (\<lambda>_. K raw'))) w))) w = Some (r, w')"
  obtains "w_out w' = w_out w" "case r of Inl _ \<Rightarrow> True | Inr (n', _) \<Rightarrow> n' = n"
  | raw' rec w1 where "K raw' w1 = Some (r, w')" "w_out w1 = w_out w @ [line_of rec]" "map_of rec ''n'' = Some (JInt n)"
  using assms
proof (elim bind_fetch bind_onRsp bind_stop, goal_cases)
  case (4 bytes u reply v stop x)
  have out: "w_out x = w_out w" using 4(3,4,6) by simp
  show ?case
  proof (cases "finished stop")
    case True
    have "r = Inr (n, Some stop)" "w' = x" using 4(5) [unfolded if_P [OF True]] by simp_all
    then show ?thesis using 4(1) out by simp
  next
    case False
    from 4(5) [unfolded if_not_P [OF False]] show ?thesis
    proof (rule round_cases)
      show "map_of rec ''n'' = Some (JInt n)" if "user_record x87 l n raw bytes raw' = Inr rec" for raw' rec
        using that by (rule user_record_n)
    next
      fix e assume "r = Inl e" "w_out w' = w_out x"
      then show ?thesis using 4(1) out by simp
    next
      fix raw' rec w1
      assume "K raw' w1 = Some (r, w')" "w_out w1 = w_out x @ [line_of rec]" "map_of rec ''n'' = Some (JInt n)"
      then show ?thesis using 4(2) out by simp
    qed
  qed
qed simp_all

lemma gen_loop_result:
  assumes "gen_loop P a l x87 n raw w = Some y"
  shows "loop_result a n w (fst y) (snd y)"
proof -
  let ?Q = "\<lambda>((((((P :: 'q peer, a), l), x87), n), raw), w) y. loop_result a n w (fst y) (snd y)"
  have "?Q ((((((P, a), l), x87), n), raw), w) y"
  proof (rule gen_loop.raw_induct [where Pa = ?Q, OF _ assms], goal_cases)
    case (1 f P a l x87 n raw w y)
    obtain r w' where y: "y = (r, w')" by (cases y)
    note body = 1(2) [unfolded y Let_def]
    have "loop_result a n w r w'"
    proof (cases "limit_reached a n \<or> ga_stop a = Some (ar_eip (regs_to_fields l raw))")
      case True
      then show ?thesis using body by (auto intro!: loop_result_none)
    next
      case False
      from body [unfolded if_not_P [OF False]] show ?thesis
      proof (rule user_round)
        fix raw' rec w1
        assume more: "f P a l x87 (n + 1) raw' w1 = Some (r, w')" "w_out w1 = w_out w @ [line_of rec]" "map_of rec ''n'' = Some (JInt n)"
        have "loop_result a (n + 1) w1 r w'" using 1(1) [OF more(1)] by simp
        then show ?thesis using loop_result_step more(2,3) False by blast
      qed (rule loop_result_none)
    qed
    then show ?case using y by simp
  qed
  then show ?thesis by simp
qed

lemma finally_kill_elim:
  assumes "finally_kill P m w = Some (r, w')"
  obtains w1 where "m w = Some (r, w1)" "w_out w' = w_out w1"
  using assms by (cases "m w") (auto simp: finally_kill_def)

text \<open>
  No peer can make the user-mode producer write a wrong file: whatever bytes arrive, if it comes
  back, normally or with an exception, it has written nothing, or the header and then records
  numbered 0, 1, 2 and so on, never more than the limit; and the count it returns is their number.
\<close>

theorem generate_numbered:
  assumes "generate P a w = Some (r, w')"
  shows "w_out w' = w_out w \<or> (\<exists>x87 h rs. user_header a x87 = Inr h \<and> w_out w' = w_out w @ map line_of (h # rs) \<and>
    numbered 0 rs \<and> (\<forall>k. ga_max a = Some k \<longrightarrow> int (length rs) \<le> max 0 k) \<and>
    (case r of Inl _ \<Rightarrow> True | Inr (n, _) \<Rightarrow> n = int (length rs)))"
proof -
  from assms [unfolded generate_def] obtain w1 where run: "bindIO (onRsp (handshake P)) (\<lambda>_. bindIO (onRsp (discover_layout P)) (\<lambda>l.
       let emit_x87 = ga_x87 a \<and> has l ''st0''
       in bindIO (liftE (user_header a emit_x87)) (\<lambda>h. bindIO (write_line (JDict h)) (\<lambda>_.
            bindIO (onRsp (read_g P)) (\<lambda>raw.
              gen_loop P a (anchor_tail l (int (length raw))) emit_x87 0 raw))))) w = Some (r, w1)"
    and out: "w_out w' = w_out w1"
    by (rule finally_kill_elim)
  from run show ?thesis
  proof (rule bind_onRsp)
    fix x u assume u: "bindIO (onRsp (discover_layout P)) (\<lambda>l.
       let emit_x87 = ga_x87 a \<and> has l ''st0''
       in bindIO (liftE (user_header a emit_x87)) (\<lambda>h. bindIO (write_line (JDict h)) (\<lambda>_.
            bindIO (onRsp (read_g P)) (\<lambda>raw.
              gen_loop P a (anchor_tail l (int (length raw))) emit_x87 0 raw)))) u = Some (r, w1)" "w_out u = w_out w"
    from u(1) show ?thesis
    proof (rule bind_onRsp)
      fix l v assume v: "(let emit_x87 = ga_x87 a \<and> has l ''st0''
         in bindIO (liftE (user_header a emit_x87)) (\<lambda>h. bindIO (write_line (JDict h)) (\<lambda>_.
            bindIO (onRsp (read_g P)) (\<lambda>raw.
              gen_loop P a (anchor_tail l (int (length raw))) emit_x87 0 raw)))) v = Some (r, w1)" "w_out v = w_out u"
      define x87 where "x87 = (ga_x87 a \<and> has l ''st0'')"
      obtain h where h: "user_header a x87 = Inr h" using header_ok by blast
      let ?v = "v\<lparr> w_out := w_out v @ [line_of h] \<rparr>"
      have "bindIO (onRsp (read_g P)) (\<lambda>raw. gen_loop P a (anchor_tail l (int (length raw))) x87 0 raw) ?v = Some (r, w1)"
        using v(1) unfolding Let_def x87_def [symmetric] h by simp
      then show ?thesis
      proof (rule bind_onRsp)
        fix e assume "r = Inl e" "w_out w1 = w_out ?v"
        then show ?thesis using h out u(2) v(2) by (intro disjI2 exI [of _ x87] exI [of _ h] exI [of _ "[]"]) (simp add: numbered_def)
      next
        fix raw y assume loop: "gen_loop P a (anchor_tail l (int (length raw))) x87 0 raw y = Some (r, w1)" "w_out y = w_out ?v"
        obtain rs where rs: "w_out w1 = w_out y @ map line_of rs" "numbered 0 rs"
          "\<forall>k. ga_max a = Some k \<longrightarrow> 0 + int (length rs) \<le> max 0 k"
          "case r of Inl _ \<Rightarrow> True | Inr (n', _) \<Rightarrow> n' = 0 + int (length rs)"
          using gen_loop_result [OF loop(1)] unfolding loop_result_def fst_conv snd_conv by blast
        have "case r of Inl _ \<Rightarrow> True | Inr (n', _) \<Rightarrow> n' = int (length rs)" using rs(4) by (cases r) auto
        then show ?thesis using h out u(2) v(2) loop(2) rs(1-3)
          by (intro disjI2 exI [of _ x87] exI [of _ h] exI [of _ rs]) simp
      qed
    qed (use out u(2) in simp)
  qed (use out in simp)
qed

theorem generate_numbered_witness:
  "\<exists>w'. generate silent plain_gen \<lparr> w_rsp = rsp_init (), w_out = [], w_image = [] \<rparr> = Some (Inl RspTimedOut, w') \<and>
    (w_out w' = [] \<or> (\<exists>x87 h rs. user_header plain_gen x87 = Inr h \<and> w_out w' = [] @ map line_of (h # rs) \<and>
      numbered 0 rs \<and> (\<forall>k. ga_max plain_gen = Some k \<longrightarrow> int (length rs) \<le> max 0 k) \<and>
      (case Inl RspTimedOut :: rsp_error + int \<times> stop_reply option of Inl _ \<Rightarrow> True | Inr (n, _) \<Rightarrow> n = int (length rs))))"
proof -
  let ?w = "\<lparr> w_rsp = rsp_init (), w_out = [], w_image = [] \<rparr>"
  have "send_tries silent 5 QSUPPORTED (rsp_init ()) = Some (Inl RspTimedOut, rsp_init ())"
  proof -
    have "read_ack (rsp_init ()) = Some (Inl RspTimedOut, rsp_init ())"
      by (subst read_ack.simps) (simp add: rsp_init_def recv_more_def)
    moreover have "sendall silent d (rsp_init ()) = Some (Inr (), rsp_init ())" for d
      by (simp add: sendall_def silent_def rsp_init_def)
    moreover have "\<not> r_no_ack (rsp_init ())" by (simp add: rsp_init_def)
    ultimately show ?thesis by (simp add: numeral_eq_Suc)
  qed
  then have "handshake silent (rsp_init ()) = Some (Inl RspTimedOut, rsp_init ())"
    by (simp add: handshake_def request_def send_def)
  then have "\<exists>s. generate silent plain_gen ?w = Some (Inl RspTimedOut, (?w\<lparr> w_rsp := rsp_init () \<rparr>)\<lparr> w_rsp := s \<rparr>)"
    unfolding generate_def by (intro finally_kill_some) simp
  then obtain w' where w': "generate silent plain_gen ?w = Some (Inl RspTimedOut, w')" by blast
  from generate_numbered [OF w'] w' show ?thesis by (intro exI [of _ w']) simp
qed

end
