(* ===== verification/Gen_System.thy ===== *)
theory Gen_System
  imports Gen_Trace
begin

text \<open>
  The system-mode producer \<open>generate_system\<close> of verif/qemu-trace/gen_trace.py: records with system
  registers and fault signals, instruction bytes at a linear address, and the exit by a closed
  connection.
\<close>

definition code_address :: "reg_layout \<Rightarrow> int list \<Rightarrow> int" where
  "code_address l raw =
    (let f = regs_to_fields l raw
     in (case map_of (sysregs_from_raw l raw) ''cs_base'' of
           None \<Rightarrow> push_bit 4 (the (map_of (ar_seg f) ''cs'')) + ar_eip f
         | Some cs_base \<Rightarrow> cs_base + ar_eip f) AND 0xFFFFFFFF)"

definition fault_of :: "stop_reply \<Rightarrow> int option" where
  "fault_of stop = (if sr_kind stop = Stop \<and> sr_signal stop \<noteq> None \<and> sr_signal stop \<noteq> Some 5
     then map_option signal_to_vector (sr_signal stop) else None)"

definition system_record :: "bool \<Rightarrow> bool \<Rightarrow> reg_layout \<Rightarrow> int \<Rightarrow> int list \<Rightarrow> string option \<Rightarrow> stop_reply \<Rightarrow> int list \<Rightarrow> jdict result" where
  "system_record emit_x87 emit_sys l n raw bytes stop raw' =
    (let f = regs_to_fields l raw'
     in func_record n (ar_eip (regs_to_fields l raw)) (ar_eflags f) (ar_gpr f) (ar_seg f)
          ((user_opts bytes emit_x87 f)\<lparr> fo_exc := fault_of stop,
             fo_sysregs := (if emit_sys then Some (sysregs_from_raw l raw') else None) \<rparr>))"

text \<open>A connection that QEMU closes during the step is the program's exit.\<close>

definition try_step :: "'q peer \<Rightarrow> ('q world, string option) io" where
  "try_step P w = map_option (\<lambda>(r, w). (case r of Inl RspClosed \<Rightarrow> Inr None | Inl e \<Rightarrow> Inl e | Inr x \<Rightarrow> Inr (Some x), w))
     (onRsp (step P) w)"

partial_function (option) sys_loop ::
  "'q peer \<Rightarrow> gen_args \<Rightarrow> reg_layout \<Rightarrow> bool \<Rightarrow> bool \<Rightarrow> int \<Rightarrow> int list \<Rightarrow> 'q world \<Rightarrow>
    ((rsp_error + int \<times> stop_reply option) \<times> 'q world) option" where
  "sys_loop P a l emit_x87 emit_sys n raw w =
    (if limit_reached a n \<or> ga_stop a = Some (ar_eip (regs_to_fields l raw)) then Some (Inr (n, None), w)
     else bindIO (fetch_hex P (ga_bytes a) (code_address l raw)) (\<lambda>bytes.
       bindIO (try_step P) (\<lambda>reply. case reply of
         None \<Rightarrow> retIO (n, Some (mk_stop ''W00''))
       | Some reply \<Rightarrow>
           bindIO (if finished (mk_stop reply) then retIO (mk_stop reply) else settle P (mk_stop reply)) (\<lambda>stop w.
             if finished stop then Some (Inr (n, Some stop), w)
             else bindIO (onRsp (read_g P)) (\<lambda>raw'.
               bindIO (liftE (system_record emit_x87 emit_sys l n raw bytes stop raw')) (\<lambda>rec.
                 bindIO (write_line (JDict rec)) (\<lambda>_. sys_loop P a l emit_x87 emit_sys (n + 1) raw'))) w))) w)"

definition system_header :: "gen_args \<Rightarrow> string \<Rightarrow> bool \<Rightarrow> bool \<Rightarrow> jdict result" where
  "system_header a mode x87 sys = header ''qemu-gdbstub'' ''func'' x87 sys
     (''image='' @ basename (ga_path a) @ '' mode='' @ mode @ '' qemu=-S -machine pc isa-debug-exit'' @ args_note (ga_extra a))"

definition generate_system :: "'q peer \<Rightarrow> gen_args \<Rightarrow> string \<Rightarrow> ('q world, int \<times> stop_reply option) io" where
  "generate_system P a mode = finally_kill P (bindIO (onRsp (handshake P)) (\<lambda>_.
     bindIO (onRsp (discover_layout P)) (\<lambda>l.
       let emit_x87 = ga_x87 a \<and> has l ''st0''; emit_sys = has l ''cr0''
       in bindIO (liftE (system_header a mode emit_x87 emit_sys)) (\<lambda>h. bindIO (write_line (JDict h)) (\<lambda>_.
            bindIO (onRsp (read_g P)) (\<lambda>raw.
              sys_loop P a (anchor_tail l (int (length raw))) emit_x87 emit_sys 0 raw))))))"

subsection \<open>The trace of a machine\<close>

definition sys_ends :: "'m machine \<Rightarrow> gen_args \<Rightarrow> reg_layout \<Rightarrow> int \<Rightarrow> 'm \<Rightarrow> stop_reply option \<Rightarrow> bool" where
  "sys_ends M a l n m out \<longleftrightarrow>
    (if limit_reached a n \<or> ga_stop a = Some (pc_at M l m) then out = None
     else case fst (mc_step M m) of None \<Rightarrow> out = Some (mk_stop ''W00'')
       | Some r \<Rightarrow> finished (mk_stop r) \<and> out = Some (mk_stop r))"

definition sys_rec :: "'m machine \<Rightarrow> gen_args \<Rightarrow> reg_layout \<Rightarrow> bool \<Rightarrow> bool \<Rightarrow> int \<Rightarrow> 'm \<Rightarrow> jdict result" where
  "sys_rec M a l x87 sys n m = system_record x87 sys l n (image_view M m)
     (bytes_at M (ga_bytes a) m (code_address l (image_view M m)))
     (mk_stop (the (fst (mc_step M m)))) (image_view M (snd (mc_step M m)))"

lemma system_record_exists: "\<exists>r. system_record x87 sys l n raw bytes stop raw' = Inr r \<and> map_of r ''n'' = Some (JInt n)"
proof -
  let ?f = "regs_to_fields l raw'"
  let ?o = "(user_opts bytes x87 ?f)\<lparr> fo_exc := fault_of stop, fo_sysregs := (if sys then Some (sysregs_from_raw l raw') else None) \<rparr>"
  have x: "set X87_REGS \<union> set X87_CTL \<subseteq> fst ` set y" if "fo_x87 ?o = Some y" for y
    using that fields_present(3) [of l raw' y] by (simp add: user_opts_def split: if_splits)
  have "\<exists>r. system_record x87 sys l n raw bytes stop raw' = Inr r"
    using func_record_holds [where gpr = "ar_gpr ?f" and seg = "ar_seg ?f" and opts = ?o, OF fields_present(1,2) x]
    unfolding system_record_def Let_def by blast
  then show ?thesis using func_record_n by (auto simp: system_record_def Let_def)
qed

lemma code_address_nonneg: "0 \<le> code_address l raw"
  by (simp add: code_address_def Let_def)

context gdb_session
begin

lemma try_step_reply:
  assumes "sync m (w_rsp w)" "fst (mc_step M m) = Some r"
  shows "\<exists>s. try_step P w = Some (Inr (Some r), w\<lparr> w_rsp := s \<rparr>) \<and> sync (snd (mc_step M m)) s"
  using onRsp_step [OF assms] by (auto simp: try_step_def)

lemma try_step_closed:
  assumes "sync m (w_rsp w)" "fst (mc_step M m) = None"
  shows "\<exists>s. try_step P w = Some (Inr None, w\<lparr> w_rsp := s \<rparr>)"
  using step_closed [OF assms(1), of "snd (mc_step M m)"] assms(2) by (cases "mc_step M m") (auto simp: try_step_def)

lemma sys_loop_traced:
  assumes "sync m (w_rsp w)" "traced M a l n m" "sys_rec M a l x87 sys n m = Inr r"
  shows "\<exists>s. sys_loop P a l x87 sys n (image_view M m) w =
      sys_loop P a l x87 sys (n + 1) (image_view M (snd (mc_step M m))) (w\<lparr> w_rsp := s, w_out := w_out w @ [line_of r] \<rparr>) \<and>
    sync (snd (mc_step M m)) s"
proof -
  let ?m = "snd (mc_step M m)" and ?addr = "code_address l (image_view M m)"
  obtain s1 where fetch: "fetch_hex P (ga_bytes a) ?addr w = Some (Inr (bytes_at M (ga_bytes a) m ?addr), w\<lparr> w_rsp := s1 \<rparr>)" "sync m s1"
    using fetch_ok [OF assms(1) code_address_nonneg] by blast
  obtain reply where reply: "fst (mc_step M m) = Some reply" "sr_kind (mk_stop reply) \<notin> {Output, Exited, Term}"
    using assms(2) by (auto simp: traced_def)
  obtain s2 where stp: "try_step P (w\<lparr> w_rsp := s1 \<rparr>) = Some (Inr (Some reply), w\<lparr> w_rsp := s2 \<rparr>)" "sync ?m s2"
    using try_step_reply [of m "w\<lparr> w_rsp := s1 \<rparr>", OF _ reply(1)] fetch(2) by auto
  obtain s3 where g: "onRsp (read_g P) (w\<lparr> w_rsp := s2 \<rparr>) = Some (Inr (image_view M ?m), w\<lparr> w_rsp := s3 \<rparr>)" "sync ?m s3"
    using onRsp_read_g [of ?m "w\<lparr> w_rsp := s2 \<rparr>"] stp(2) by auto
  have "sys_loop P a l x87 sys n (image_view M m) w =
      sys_loop P a l x87 sys (n + 1) (image_view M ?m) (w\<lparr> w_rsp := s3, w_out := w_out w @ [line_of r] \<rparr>)"
    using assms(2,3) fetch(1) stp(1) reply g(1)
    by (subst sys_loop.simps) (simp add: traced_def pc_at_def [symmetric] finished_def settle_def sys_rec_def)
  then show ?thesis using g(2) by blast
qed

lemma sys_loop_ends:
  assumes "sync m (w_rsp w)" "sys_ends M a l n m out"
  shows "\<exists>s. sys_loop P a l x87 sys n (image_view M m) w = Some (Inr (n, out), w\<lparr> w_rsp := s \<rparr>)"
proof (cases "limit_reached a n \<or> ga_stop a = Some (pc_at M l m)")
  case True
  then show ?thesis using assms(2)
    by (subst sys_loop.simps) (auto simp: sys_ends_def pc_at_def intro!: exI [of _ "w_rsp w"])
next
  case False
  let ?addr = "code_address l (image_view M m)"
  obtain s1 where fetch: "fetch_hex P (ga_bytes a) ?addr w = Some (Inr (bytes_at M (ga_bytes a) m ?addr), w\<lparr> w_rsp := s1 \<rparr>)" "sync m s1"
    using fetch_ok [OF assms(1) code_address_nonneg] by blast
  show ?thesis
  proof (cases "fst (mc_step M m)")
    case None
    then obtain s2 where "try_step P (w\<lparr> w_rsp := s1 \<rparr>) = Some (Inr None, w\<lparr> w_rsp := s2 \<rparr>)"
      using try_step_closed [of m "w\<lparr> w_rsp := s1 \<rparr>"] fetch(2) by auto
    then show ?thesis using False fetch(1) None assms(2)
      by (subst sys_loop.simps) (auto simp: pc_at_def [symmetric] sys_ends_def)
  next
    case (Some r)
    then obtain s2 where "try_step P (w\<lparr> w_rsp := s1 \<rparr>) = Some (Inr (Some r), w\<lparr> w_rsp := s2 \<rparr>)"
      using try_step_reply [of m "w\<lparr> w_rsp := s1 \<rparr>"] fetch(2) by auto
    then show ?thesis using False fetch(1) Some assms(2)
      by (subst sys_loop.simps) (auto simp: pc_at_def [symmetric] sys_ends_def)
  qed
qed

lemma sys_loop_run:
  assumes "sync m (w_rsp w)" "\<forall>i < k. traced M a l (n + int i) (after M i m)"
    and "sys_ends M a l (n + int k) (after M k m) out" "recs (sys_rec M a l x87 sys) M n m k = Inr rs"
  shows "\<exists>s. sys_loop P a l x87 sys n (image_view M m) w =
    Some (Inr (n + int k, out), w\<lparr> w_rsp := s, w_out := w_out w @ map line_of rs \<rparr>)"
  using assms
proof (induction k arbitrary: n m w rs)
  case 0
  then show ?case using sys_loop_ends [of m w a l n out] by auto
next
  case (Suc k)
  let ?m = "snd (mc_step M m)"
  obtain r rs' where r: "sys_rec M a l x87 sys n m = Inr r" "recs (sys_rec M a l x87 sys) M (n + 1) ?m k = Inr rs'" "rs = r # rs'"
    using Suc.prems(4) by (auto simp: bindE_eq_Inr)
  have "traced M a l n m" using Suc.prems(2) by force
  then obtain s where s: "sys_loop P a l x87 sys n (image_view M m) w =
      sys_loop P a l x87 sys (n + 1) (image_view M ?m) (w\<lparr> w_rsp := s, w_out := w_out w @ [line_of r] \<rparr>)" "sync ?m s"
    using sys_loop_traced [OF Suc.prems(1) _ r(1)] by blast
  have "\<forall>i < k. traced M a l (n + 1 + int i) (after M i ?m)" using Suc.prems(2) by (rule traced_shift)
  moreover have "sys_ends M a l (n + 1 + int k) (after M k ?m) out"
    using Suc.prems(3) by (simp only: after_first) (simp add: algebra_simps)
  ultimately show ?case
    using Suc.IH [of ?m "w\<lparr> w_rsp := s, w_out := w_out w @ [line_of r] \<rparr>" "n + 1" rs'] s r by (auto simp: algebra_simps)
qed

lemma generate_system_run:
  assumes "sync m (w_rsp w)" "docs_ok M" "system_header a mode x87 sys = Inr h"
    and "x87 = (ga_x87 a \<and> has (described_layout M) ''st0'')" "sys = has (described_layout M) ''cr0''"
    and "l = anchor_tail (described_layout M) (int (length (mc_image M m)))"
    and "\<forall>i < k. traced M a l (int i) (after M i m)"
    and "sys_ends M a l (int k) (after M k m) out" "recs (sys_rec M a l x87 sys) M 0 m k = Inr rs"
  shows "\<exists>w'. generate_system P a mode w = Some (Inr (int k, out), w') \<and> w_out w' = w_out w @ map line_of (h # rs)"
proof -
  obtain s1 where s1: "handshake P (w_rsp w) = Some (Inr (), s1)" "sync m s1" using handshake_ok [OF assms(1)] by blast
  obtain s2 where s2: "discover_layout P s1 = Some (Inr (described_layout M), s2)" "sync m s2"
    using discover_ok [OF s1(2) assms(2)] by blast
  obtain s3 where s3: "read_g P s2 = Some (Inr (image_view M m), s3)" "sync m s3" using read_g_ok [OF s2(2)] by blast
  let ?w = "w\<lparr> w_out := w_out w @ [line_of h], w_rsp := s3 \<rparr>"
  have len: "length (image_view M m) = length (mc_image M m)" by (simp add: image_view_def)
  obtain s where s: "sys_loop P a l x87 sys 0 (image_view M m) ?w = Some (Inr (int k, out), ?w\<lparr> w_rsp := s, w_out := w_out ?w @ map line_of rs \<rparr>)"
    using sys_loop_run [of m ?w k a l 0 out x87 sys rs] s3(2) assms(7-9) by auto
  have "\<exists>s'. generate_system P a mode w = Some (Inr (int k, out), (?w\<lparr> w_rsp := s, w_out := w_out ?w @ map line_of rs \<rparr>)\<lparr> w_rsp := s' \<rparr>)"
    unfolding generate_system_def
    by (rule finally_kill_some) (use s1(1) s2(1) s3(1) s assms(3-6) len in \<open>simp add: Let_def\<close>)
  then show ?thesis by auto
qed

end

lemma sys_header_ok: "\<exists>h. system_header a mode x87 sys = Inr h"
  by (simp add: system_header_def header_def Let_def)

lemma sys_recs_exist: "\<exists>rs. recs (sys_rec M a l x87 sys) M n m k = Inr rs \<and> length rs = k \<and>
    (\<forall>i < k. map_of (rs ! i) ''n'' = Some (JInt (n + int i)))"
  by (rule recs_exist) (simp add: sys_rec_def system_record_exists)


definition closing :: "nat machine" where
  "closing = counter\<lparr> mc_step := (\<lambda>m. (if m < 2 then Some ''T05'' else None, Suc m)) \<rparr>"

lemma closing_step: "mc_step closing m = (if m < 2 then Some ''T05'' else None, Suc m)"
  by (simp add: closing_def)

lemma after_closing: "after closing i m = i + m"
  by (induction i) (simp_all add: closing_step)

lemma docs_closing: "docs_ok closing"
  by (simp add: docs_ok_def closing_def counter_def readable_def TARGET_XML_def findall_def)



definition capped_gen :: gen_args where "capped_gen = plain_gen\<lparr> ga_max := Some 5 \<rparr>"


text \<open>
  Instruction bytes are read at the real-mode address whatever the mode: when the description has
  no cs_base register (the 32-bit description has none, as the module says), a nonzero code
  selector moves the read away from eip even if the machine is in flat protected mode.
\<close>

theorem code_address_real_mode:
  assumes "\<not> has l ''cs_base''" "get0 l raw ''cs'' mod 2 ^ 16 \<noteq> 0" "0 \<le> get0 l raw ''eip''" "get0 l raw ''eip'' < 2 ^ 32"
  shows "code_address l raw = (16 * (get0 l raw ''cs'' mod 2 ^ 16) + get0 l raw ''eip'') mod 2 ^ 32 \<and>
    code_address l raw \<noteq> get0 l raw ''eip''"
proof -
  define cs where "cs = get0 l raw ''cs'' mod 2 ^ 16"
  define eip where "eip = get0 l raw ''eip''"
  have none: "map_of (sysregs_from_raw l raw) ''cs_base'' = None"
    using assms(1) by (auto simp: sysregs_from_raw_def map_of_eq_None_iff SYS_CR_def)
  have seg: "map_of (ar_seg (regs_to_fields l raw)) ''cs'' = Some cs"
    using and_mask_mod [of "get0 l raw ''cs''" 16] by (simp add: regs_to_fields_def SEG_KEYS_def cs_def)
  have eq: "code_address l raw = (16 * cs + eip) mod 2 ^ 32"
    using and_mask_mod [of "16 * cs + eip" 32] none seg
    by (simp add: code_address_def Let_def push_bit_eq_mult eip_def regs_to_fields_def algebra_simps)
  have "0 \<le> cs" "cs < 2 ^ 16" by (simp_all add: cs_def)
  then have cs: "0 < cs" "cs < 2 ^ 16" using assms(2) unfolding cs_def [symmetric] by linarith+
  have "(16 * cs + eip) mod 2 ^ 32 \<noteq> eip"
  proof
    assume "(16 * cs + eip) mod 2 ^ 32 = eip"
    moreover have "eip mod 2 ^ 32 = eip" using assms(3,4) by (simp add: eip_def)
    ultimately have "2 ^ 32 dvd 16 * cs" by (metis add_diff_cancel_right' mod_eq_dvd_iff)
    then have "2 ^ 32 \<le> 16 * cs" using cs(1) by (intro zdvd_imp_le) simp_all
    then show False using cs(2) by simp
  qed
  then show ?thesis using eq by (simp add: cs_def eip_def)
qed

theorem code_address_real_mode_witness:
  "code_address (mk_layout [(''eip'', 32), (''cs'', 32)]) [0, 1, 0, 0, 8, 0, 0, 0] = (16 * (8 mod 2 ^ 16) + 256) mod 2 ^ 32 \<and>
    code_address (mk_layout [(''eip'', 32), (''cs'', 32)]) [0, 1, 0, 0, 8, 0, 0, 0] \<noteq> 256"
proof -
  let ?l = "mk_layout [(''eip'', 32), (''cs'', 32)]" and ?raw = "[0, 1, 0, 0, 8, 0, 0, 0] :: int list"
  have l: "\<not> has ?l ''cs_base''" by (simp add: has_def mk_layout_def add_reg_def)
  have v: "get0 ?l ?raw ''cs'' = 8" "get0 ?l ?raw ''eip'' = 256"
    by (simp_all add: get0_def slice_def mk_layout_def add_reg_def)
  show ?thesis using code_address_real_mode [OF l, of ?raw] by (simp add: v)
qed

end
