(* ===== verification/Gen_Syscall.thy ===== *)
theory Gen_Syscall
  imports Gen_Trace
begin

text \<open>
  The syscall-capturing producer of verif/qemu-trace/gen_trace.py: the table of syscall effects, the
  initial process image (ELF program headers, memory regions, stack walk), and the loop of
  \<open>generate_syscall_proxy\<close> with its tracking of the program break.
\<close>

subsection \<open>Syscall effects\<close>

definition NR :: "(string \<times> int) list" where
  "NR = [(''read'', 3), (''write'', 4), (''open'', 5), (''close'', 6), (''brk'', 45), (''ioctl'', 54),
    (''readv'', 145), (''writev'', 146), (''mmap2'', 192), (''stat64'', 195), (''fstat64'', 197),
    (''lstat64'', 196), (''uname'', 122), (''gettimeofday'', 78), (''clock_gettime'', 265),
    (''clock_gettime64'', 403), (''set_thread_area'', 243), (''set_tid_address'', 258),
    (''rt_sigaction'', 174), (''rt_sigprocmask'', 175), (''getrandom'', 355),
    (''recvfrom'', 371), (''recv'', 371), (''socketcall'', 102), (''openat'', 295), (''statx'', 383),
    (''mprotect'', 125), (''munmap'', 91), (''access'', 33), (''fcntl64'', 221),
    (''_llseek'', 140), (''lseek'', 19), (''getpid'', 20), (''exit_group'', 252),
    (''clock_getres'', 266), (''clock_getres_time64'', 406), (''time'', 13)]"

definition nr_of :: "string \<Rightarrow> int" where "nr_of k = the (map_of NR k)"

definition u32 :: "int \<Rightarrow> int" where "u32 x = x AND 0xFFFFFFFF"

definition read_user_desc_base :: "'q peer \<Rightarrow> int \<Rightarrow> ('q rsp, int option) io" where
  "read_user_desc_base P ebx = bindIO (read_mem P ebx 16) (\<lambda>m. retIO (case m of None \<Rightarrow> None
     | Some bs \<Rightarrow> if length bs < 8 then None else Some (from_le (take 4 (drop 4 bs)))))"

definition grab :: "'q peer \<Rightarrow> int \<Rightarrow> int \<Rightarrow> ('q rsp, sys_write list) io" where
  "grab P addr len =
    (if len \<le> 0 then retIO []
     else bindIO (read_mem P (u32 addr) len) (\<lambda>data. retIO (case data of None \<Rightarrow> []
       | Some bs \<Rightarrow> if bs = [] then [] else [BytesAt (u32 addr) (RawBytes bs)])))"

text \<open>The loop over an iovec array: \<open>i\<close> entries are done and \<open>n\<close> are left.\<close>

fun iovec_loop :: "'q peer \<Rightarrow> int \<Rightarrow> int \<Rightarrow> nat \<Rightarrow> int \<Rightarrow> sys_write list \<Rightarrow> ('q rsp, sys_write list) io" where
  "iovec_loop P iov i 0 remaining ws = retIO ws"
| "iovec_loop P iov i (Suc n) remaining ws = bindIO (read_mem P (u32 (iov + i * 8)) 8) (\<lambda>ent. case ent of
     None \<Rightarrow> retIO ws
   | Some e \<Rightarrow> if length e < 8 then retIO ws
       else let base = from_le (take 4 e); ln = from_le (take 4 (drop 4 e)); tk = min ln remaining
         in bindIO (if tk > 0 then grab P base tk else retIO []) (\<lambda>w.
              let remaining = (if tk > 0 then remaining - tk else remaining)
              in if remaining \<le> 0 then retIO (ws @ w) else iovec_loop P iov (i + 1) n remaining (ws @ w)))"

definition grab_iovec :: "'q peer \<Rightarrow> int \<Rightarrow> int \<Rightarrow> int \<Rightarrow> ('q rsp, sys_write list) io" where
  "grab_iovec P iov_addr iovcnt got = iovec_loop P iov_addr 0 (nat iovcnt) got []"

record sys_args =
  sy_ebx :: int
  sy_ecx :: int
  sy_edx :: int
  sy_esi :: int
  sy_edi :: int
  sy_ebp :: int

definition signed32 :: "int \<Rightarrow> int" where
  "signed32 ret = (if ret < 0x80000000 then ret else ret - 2 ^ 32)"

definition only_writes :: "('q rsp, sys_write list) io \<Rightarrow> ('q rsp, sys_write list \<times> int option) io" where
  "only_writes m = bindIO m (\<lambda>ws. retIO (ws, None))"

definition grab_if :: "bool \<Rightarrow> 'q peer \<Rightarrow> int \<Rightarrow> int \<Rightarrow> ('q rsp, sys_write list) io" where
  "grab_if c P addr len = (if c then grab P addr len else retIO [])"

definition syscall_effect :: "'q peer \<Rightarrow> int \<Rightarrow> sys_args \<Rightarrow> int \<Rightarrow> ('q rsp, sys_write list \<times> int option) io" where
  "syscall_effect P nr a ret =
    (let ebx = sy_ebx a; ecx = sy_ecx a; edx = sy_edx a; esi = sy_esi a; sret = signed32 ret
     in if nr = nr_of ''set_thread_area'' then
          bindIO (grab P ebx 16) (\<lambda>ws. bindIO (read_user_desc_base P ebx) (\<lambda>b. retIO (ws, b)))
        else only_writes (
          if nr = nr_of ''read'' then grab_if (sret > 0) P ecx sret
          else if nr = nr_of ''readv'' then (if sret > 0 then grab_iovec P ecx edx sret else retIO [])
          else if nr = nr_of ''recvfrom'' \<or> nr = nr_of ''recv'' then grab_if (sret > 0) P ecx sret
          else if nr = nr_of ''socketcall'' then
            (if (ebx = 10 \<or> ebx = 12) \<and> sret > 0
             then bindIO (read_mem P (u32 (ecx + 4)) 4) (\<lambda>m. case m of None \<Rightarrow> retIO []
                    | Some bs \<Rightarrow> if length bs \<ge> 4 then grab P (from_le (take 4 bs)) sret else retIO [])
             else retIO [])
          else if nr = nr_of ''clock_gettime64'' \<or> nr = nr_of ''clock_getres_time64'' then grab_if (sret = 0) P ecx 16
          else if nr = nr_of ''clock_gettime'' \<or> nr = nr_of ''clock_getres'' then grab_if (sret = 0) P ecx 8
          else if nr = nr_of ''gettimeofday'' then grab_if (sret = 0) P ebx 16
          else if nr = nr_of ''fstat64'' \<or> nr = nr_of ''stat64'' \<or> nr = nr_of ''lstat64'' then grab_if (sret = 0) P ecx 96
          else if nr = nr_of ''statx'' then grab_if (sret = 0) P esi 0x100
          else if nr = nr_of ''uname'' then grab_if (sret = 0) P ebx 390
          else if nr = nr_of ''getrandom'' then grab_if (sret > 0) P ebx sret
          else if nr = nr_of ''mmap2'' then
            (if sret \<ge> 0 \<and> ret \<noteq> u32 (- 1)
             then if esi AND 0x20 \<noteq> 0 then retIO [ZeroRegion (u32 ret) (u32 ecx)] else grab P ret (u32 ecx)
             else retIO [])
          else retIO []))"

subsection \<open>The initial process image\<close>

definition bytes_region :: "string \<Rightarrow> int \<Rightarrow> int list \<Rightarrow> json" where
  "bytes_region key addr bs = JDict [(key, JStr (h32 addr)), (''hex'', JStr (bytes_hex bs))]"

text \<open>
  The chunked reader; \<open>_append_mem_region\<close> and \<open>_append_phys_region\<close> differ in the key of the address.
\<close>

function append_region :: "'q peer \<Rightarrow> string \<Rightarrow> int \<Rightarrow> int \<Rightarrow> int \<Rightarrow> json list \<Rightarrow> ('q rsp, json list) io" where
  "append_region P key addr len off regions =
    (if off < len then
       let n = min 0x800 (len - off)
       in bindIO (read_mem P (u32 (addr + off)) n) (\<lambda>data.
            append_region P key addr len (off + n)
              (case data of None \<Rightarrow> regions | Some bs \<Rightarrow> if bs = [] then regions
                 else regions @ [bytes_region key (u32 (addr + off)) bs]))
     else retIO regions)"
  by pat_completeness auto
termination
  by (relation "measure (\<lambda>(P, key, addr, len, off, regions). nat (len - off))") auto

declare append_region.simps [simp del]

definition append_mem_region :: "'q peer \<Rightarrow> json list \<Rightarrow> int \<Rightarrow> int \<Rightarrow> ('q rsp, json list) io" where
  "append_mem_region P regions vaddr len = append_region P ''vaddr'' vaddr len 0 regions"

definition append_phys_region :: "'q peer \<Rightarrow> json list \<Rightarrow> int \<Rightarrow> int \<Rightarrow> ('q rsp, json list) io" where
  "append_phys_region P regions paddr len = append_region P ''paddr'' paddr len 0 regions"

text \<open>\<open>unpack_from\<close> of one little-endian field of \<open>n\<close> bytes.\<close>

definition unpack_le :: "nat \<Rightarrow> int list \<Rightarrow> int \<Rightarrow> int result" where
  "unpack_le n data off = (if off < 0 \<or> off + int n > int (length data) then Inl StructError
     else Inr (from_le (take n (drop (nat off) data))))"

type_synonym pt_load = "int \<times> int \<times> int \<times> int"

text \<open>The generator: the headers it yields, and the exception that ends it early, if any.\<close>

fun pt_loop :: "int list \<Rightarrow> int \<Rightarrow> int \<Rightarrow> int \<Rightarrow> nat \<Rightarrow> pt_load list \<times> py_error option" where
  "pt_loop data phoff phentsize i 0 = ([], None)"
| "pt_loop data phoff phentsize i (Suc n) =
    (let base = phoff + i * phentsize; fld = (\<lambda>k. from_le (take 4 (drop (nat (base + 4 * k)) data)))
     in case unpack_le 32 data base of Inl e \<Rightarrow> ([], Some e)
        | Inr _ \<Rightarrow> (let (ls, e) = pt_loop data phoff phentsize (i + 1) n
                    in (if fld 0 = 1 then ((fld 2, fld 4, fld 5, fld 6) # ls, e) else (ls, e))))"

definition elf_pt_loads :: "int list \<Rightarrow> pt_load list \<times> py_error option" where
  "elf_pt_loads data =
    (if take 4 data \<noteq> [0x7F, 0x45, 0x4C, 0x46] then ([], None)
     else if length data < 5 then ([], Some IndexError)
     else if data ! 4 \<noteq> 1 then ([], None)
     else case bindE (unpack_le 4 data 0x1C) (\<lambda>phoff. bindE (unpack_le 2 data 0x2A) (\<lambda>sz.
            bindE (unpack_le 2 data 0x2C) (\<lambda>num. Inr (phoff, sz, num)))) of
          Inl e \<Rightarrow> ([], Some e)
        | Inr (phoff, sz, num) \<Rightarrow> pt_loop data phoff sz 0 (nat num))"

fun load_regions :: "'q peer \<Rightarrow> json list \<Rightarrow> pt_load list \<Rightarrow> ('q rsp, json list) io" where
  "load_regions P regions [] = retIO regions"
| "load_regions P regions ((vaddr, filesz, memsz, flags) # ls) =
    bindIO (append_mem_region P regions vaddr filesz) (\<lambda>regions.
      load_regions P (if memsz > filesz
        then regions @ [JDict [(''vaddr'', JStr (h32 (vaddr + filesz))), (''len'', JInt (memsz - filesz)), (''zero'', JBool True)]]
        else regions) ls)"

fun stack_walk :: "'q peer \<Rightarrow> nat \<Rightarrow> int \<Rightarrow> json list \<Rightarrow> ('q rsp, json list) io" where
  "stack_walk P 0 page regions = retIO regions"
| "stack_walk P (Suc n) page regions = bindIO (read_mem P page 16) (\<lambda>m.
     if m = None then retIO regions
     else bindIO (append_mem_region P regions page 0x1000) (stack_walk P n (page + 0x1000)))"

definition initial_image :: "'q peer \<Rightarrow> reg_layout \<Rightarrow> int list \<Rightarrow> int list \<Rightarrow> ('q rsp, jdict) io" where
  "initial_image P l raw elf =
    (let g = get0 l raw;
         regs = map (\<lambda>k. (k, JStr (h32 (g k)))) (GPR_KEYS @ [''eip'', ''eflags'']);
         seg = map (\<lambda>k. (k, JStr (h16 (g k AND 0xFFFF)))) SEG_KEYS;
         seg_base = map (\<lambda>k. (k, JStr (h32 (g k)))) (filter (has l) (map (\<lambda>s. s @ ''_base'') SEG_KEYS));
         (loads, err) = elf_pt_loads elf
     in bindIO (load_regions P [] loads) (\<lambda>regions.
          case err of Some e \<Rightarrow> failIO (PyError e)
          | None \<Rightarrow> bindIO (stack_walk P 0x41 ((g ''esp'' AND NOT 0xFFF) - 0x1000) regions) (\<lambda>regions.
              retIO [(''regs'', JDict regs), (''seg'', JDict seg), (''seg_base'', JDict seg_base), (''regions'', JList regions)])))"

subsection \<open>The producer\<close>

record proxy_args = gen_args +
  pa_elf :: "int list"
  pa_image :: "string option"
  pa_cpu :: string
  pa_seed :: int

text \<open>The break tracking: the zero region that a successful call adds, and the break it leaves.\<close>

definition brk_step :: "int option \<Rightarrow> int \<Rightarrow> int \<Rightarrow> sys_write list \<times> int" where
  "brk_step cur req new_brk =
    (case cur of None \<Rightarrow> ([], new_brk)
     | Some b \<Rightarrow> if req \<noteq> 0 \<and> new_brk > b then ([ZeroRegion b (u32 (new_brk - b))], new_brk) else ([], b))"

record proxy_state =
  ps_n :: int
  ps_syscalls :: int
  ps_summary :: "(int \<times> int \<times> int) list"
  ps_brk :: "int option"

definition capture ::
  "'q peer \<Rightarrow> reg_layout \<Rightarrow> (int \<times> sys_args) option \<Rightarrow> int list \<Rightarrow> proxy_state \<Rightarrow> ('q world, jdict option \<times> proxy_state) io" where
  "capture P l call raw st = (case call of None \<Rightarrow> retIO (None, st)
   | Some (nr, a) \<Rightarrow>
       let ret = get0 l raw ''eax''
       in bindIO (onRsp (syscall_effect P nr a ret)) (\<lambda>(writes, gs_base).
            let (zeros, brk) = (if nr = nr_of ''brk'' then map_prod id Some (brk_step (ps_brk st) (sy_ebx a) ret) else ([], ps_brk st))
            in retIO (Some (sys_call_field nr ret (Some (writes @ zeros)) gs_base),
                 st\<lparr> ps_syscalls := ps_syscalls st + 1, ps_summary := ps_summary st @ [(ps_n st, nr, u32 ret)], ps_brk := brk \<rparr>)))"

definition call_site :: "reg_layout \<Rightarrow> int list \<Rightarrow> int list option \<Rightarrow> (int \<times> sys_args) option" where
  "call_site l raw site = (if site = Some [0xCD, 0x80]
     then Some (get0 l raw ''eax'', \<lparr> sy_ebx = get0 l raw ''ebx'', sy_ecx = get0 l raw ''ecx'', sy_edx = get0 l raw ''edx'',
       sy_esi = get0 l raw ''esi'', sy_edi = get0 l raw ''edi'', sy_ebp = get0 l raw ''ebp'' \<rparr>)
     else None)"

definition proxy_record :: "bool \<Rightarrow> reg_layout \<Rightarrow> int \<Rightarrow> int list \<Rightarrow> string option \<Rightarrow> jdict option \<Rightarrow> int list \<Rightarrow> jdict result" where
  "proxy_record emit_x87 l n raw bytes sys_call raw' =
    (let f = regs_to_fields l raw'
     in func_record n (ar_eip (regs_to_fields l raw)) (ar_eflags f) (ar_gpr f) (ar_seg f)
          ((user_opts bytes emit_x87 f)\<lparr> fo_sys_call := sys_call \<rparr>))"

partial_function (option) proxy_loop ::
  "'q peer \<Rightarrow> proxy_args \<Rightarrow> reg_layout \<Rightarrow> bool \<Rightarrow> proxy_state \<Rightarrow> int list \<Rightarrow> 'q world \<Rightarrow>
    ((rsp_error + proxy_state \<times> stop_reply option) \<times> 'q world) option" where
  "proxy_loop P a l emit_x87 st raw w =
    (let pc = ar_eip (regs_to_fields l raw)
     in if limit_reached (gen_args.truncate a) (ps_n st) \<or> ga_stop a = Some pc then Some (Inr (st, None), w)
        else bindIO (onRsp (read_mem P pc 2)) (\<lambda>site.
          bindIO (fetch_hex P (ga_bytes a) pc) (\<lambda>bytes.
            bindIO (onRsp (step P)) (\<lambda>reply.
              bindIO (if finished (mk_stop reply) then retIO (mk_stop reply) else settle P (mk_stop reply)) (\<lambda>stop w.
                if finished stop then Some (Inr (st, Some stop), w)
                else bindIO (onRsp (read_g P)) (\<lambda>raw'.
                  bindIO (capture P l (call_site l raw site) raw' st) (\<lambda>p.
                    bindIO (liftE (proxy_record emit_x87 l (ps_n st) raw bytes (fst p) raw')) (\<lambda>rec.
                      bindIO (write_line (JDict rec)) (\<lambda>_.
                        proxy_loop P a l emit_x87 ((snd p)\<lparr> ps_n := ps_n st + 1 \<rparr>) raw')))) w)))) w)"

definition image_meta :: "proxy_args \<Rightarrow> int \<Rightarrow> json" where
  "image_meta a eip = JDict [(''producer'', JStr ''qemu-gdbstub-syscall-proxy''), (''elf'', JStr (basename (ga_path a))),
     (''cpu'', JStr (pa_cpu a)), (''seed'', JInt (pa_seed a)), (''entry'', JStr (h32 eip)),
     (''note'', JStr (''M7.1 initial process image: load regions verbatim, set regs/seg, then run the .vtrace insn stream replaying ''
        @ ''sys_call effects at each int-0x80 record.''))]"

definition write_image :: "json \<Rightarrow> ('q world, unit) io" where
  "write_image j w = Some (Inr (), w\<lparr> w_image := [dumps j @ [CHR 0x0A]] \<rparr>)"

definition dump_image :: "'q peer \<Rightarrow> proxy_args \<Rightarrow> reg_layout \<Rightarrow> int list \<Rightarrow> ('q world, unit) io" where
  "dump_image P a l raw =
    (if pa_image a = None \<or> pa_image a = Some [] then retIO ()
     else bindIO (onRsp (initial_image P l raw (pa_elf a))) (\<lambda>image.
       write_image (JDict (image @ [(''meta'', image_meta a (ar_eip (regs_to_fields l raw)))]))))"

definition proxy_header :: "proxy_args \<Rightarrow> bool \<Rightarrow> jdict result" where
  "proxy_header a x87 = header ''qemu-gdbstub'' ''func'' x87 False
     (''elf='' @ basename (ga_path a) @ '' syscall-proxy cpu='' @ pa_cpu a @ '' seed='' @ dec (pa_seed a) @ '' -one-insn-per-tb''
      @ args_note (ga_extra a))"

definition proxy_init :: proxy_state where
  "proxy_init = \<lparr> ps_n = 0, ps_syscalls = 0, ps_summary = [], ps_brk = None \<rparr>"

definition generate_syscall_proxy :: "'q peer \<Rightarrow> proxy_args \<Rightarrow> ('q world, proxy_state \<times> stop_reply option) io" where
  "generate_syscall_proxy P a = finally_kill P (bindIO (onRsp (handshake P)) (\<lambda>_.
     bindIO (onRsp (discover_layout P)) (\<lambda>l.
       let emit_x87 = ga_x87 a \<and> has l ''st0''
       in bindIO (onRsp (read_g P)) (\<lambda>raw.
            let l = anchor_tail l (int (length raw))
            in bindIO (dump_image P a l raw) (\<lambda>_.
                 bindIO (liftE (proxy_header a emit_x87)) (\<lambda>h. bindIO (write_line (JDict h)) (\<lambda>_.
                   proxy_loop P a l emit_x87 proxy_init raw)))))))"

subsection \<open>Failed calls\<close>

lemma nr_values:
  "nr_of ''set_thread_area'' = 243" "nr_of ''readv'' = 145" "nr_of ''brk'' = 45" "nr_of ''read'' = 3" "nr_of ''mmap2'' = 192"
  by code_simp+

text \<open>
  A failed call has no memory effect: whenever the return value has its high bit set, no byte is
  read and no write is recorded, for every syscall number but set_thread_area. The same holds for an
  mmap2 that succeeds at an address in the upper half, which the test takes for a failure.
\<close>

theorem failed_syscall_no_writes:
  assumes "2 ^ 31 \<le> ret" "ret < 2 ^ 32" "nr \<noteq> nr_of ''set_thread_area''"
  shows "syscall_effect P nr a ret s = Some (Inr ([], None), s)"
proof -
  have neg: "\<not> signed32 ret > 0" "signed32 ret \<noteq> 0" "\<not> signed32 ret \<ge> 0"
    using assms(1,2) by (simp_all add: signed32_def)
  show ?thesis
    unfolding syscall_effect_def Let_def using neg assms(3)
    by (simp add: grab_if_def only_writes_def cong: if_cong)
qed

theorem failed_syscall_no_writes_witness:
  "syscall_effect silent 192 \<lparr> sy_ebx = 0, sy_ecx = 4096, sy_edx = 3, sy_esi = 0x22, sy_edi = 0, sy_ebp = 0 \<rparr> 0xB7F00000 (rsp_init ())
     = Some (Inr ([], None), rsp_init ())"
  by (rule failed_syscall_no_writes) (simp_all add: nr_values)

subsection \<open>The program break\<close>

fun brk_run :: "int option \<Rightarrow> (int \<times> int) list \<Rightarrow> sys_write list \<times> int option" where
  "brk_run cur [] = ([], cur)"
| "brk_run cur ((req, new_brk) # calls) =
    (let (ws, b) = brk_step cur req new_brk; (rest, final) = brk_run (Some b) calls in (ws @ rest, final))"

fun tiles :: "int \<Rightarrow> sys_write list \<Rightarrow> int \<Rightarrow> bool" where
  "tiles b [] e = (b = e)"
| "tiles b (ZeroRegion a n # ws) e = (a = b \<and> 0 < n \<and> tiles (a + n) ws e)"
| "tiles b (BytesAt a bs # ws) e = False"

lemma u32_small: "0 \<le> x \<Longrightarrow> x < 2 ^ 32 \<Longrightarrow> u32 x = x"
  using and_mask_mod [of x 32] by (simp add: u32_def)

lemma brk_run_tiles:
  assumes "0 \<le> b" "\<forall>(req, new_brk) \<in> set calls. 0 \<le> new_brk \<and> new_brk < 2 ^ 32"
  shows "\<exists>ws e. brk_run (Some b) calls = (ws, Some e) \<and> tiles b ws e \<and> b \<le> e"
  using assms
proof (induction calls arbitrary: b)
  case (Cons c calls)
  obtain req new_brk where c: "c = (req, new_brk)" by (cases c)
  show ?case
  proof (cases "req \<noteq> 0 \<and> new_brk > b")
    case True
    have "0 \<le> new_brk" "new_brk < 2 ^ 32" using Cons.prems(2) c by auto
    then obtain ws e where "brk_run (Some new_brk) calls = (ws, Some e)" "tiles new_brk ws e" "new_brk \<le> e"
      using Cons.IH [of new_brk] Cons.prems(2) by auto
    moreover have "u32 (new_brk - b) = new_brk - b" using Cons.prems(1) True \<open>new_brk < 2 ^ 32\<close> by (intro u32_small) linarith+
    ultimately show ?thesis using True by (simp add: c brk_step_def)
  next
    case False
    then show ?thesis using Cons by (auto simp: c brk_step_def)
  qed
qed simp



text \<open>
  A heap that shrinks and grows again is not cleared: the tracked break does not follow a shrink,
  so the second growth up to the old break emits no zero region although the kernel maps fresh pages.
\<close>

theorem brk_regrow_not_cleared:
  assumes "0 < low" "low < high"
  shows "brk_run (Some high) [(low, low), (high, high)] = ([], Some high)"
  using assms by (simp add: brk_step_def)

theorem brk_regrow_not_cleared_witness:
  "brk_run (Some 0x8070000) [(0x8060000, 0x8060000), (0x8070000, 0x8070000)] = ([], Some 0x8070000)"
  by (rule brk_regrow_not_cleared) simp_all

subsection \<open>Reading memory through a session\<close>

text \<open>A machine whose whole memory is readable and holds \<open>ram\<close>.\<close>

definition flat_ram :: "'m machine \<Rightarrow> 'm \<Rightarrow> (int \<Rightarrow> int) \<Rightarrow> bool" where
  "flat_ram M m ram \<longleftrightarrow> (\<forall>a n. 0 \<le> a \<longrightarrow> 0 < n \<longrightarrow> mem_view M m a n = Some (map ram [a .. a + n - 1]))"

fun contiguous :: "int \<Rightarrow> (int \<times> int list) list \<Rightarrow> bool" where
  "contiguous a [] = True"
| "contiguous a ((b, bs) # cs) = (b = a \<and> bs \<noteq> [] \<and> length bs \<le> 0x800 \<and> contiguous (a + int (length bs)) cs)"

lemma upto_split: "a \<le> b \<Longrightarrow> b \<le> c \<Longrightarrow> [a .. b - 1] @ [b .. c - 1] = [a .. c - 1 :: int]"
  by (cases "a < b"; cases "b < c") (use upto_split2 [of a "b - 1" "c - 1"] in simp_all)

definition word_at :: "(int \<Rightarrow> int) \<Rightarrow> int \<Rightarrow> int" where
  "word_at ram a = from_le (map ram [a .. a + 3])"

lemma word_at_nonneg: "\<forall>a. is_byte (ram a) \<Longrightarrow> 0 \<le> word_at ram a"
  unfolding word_at_def by (intro from_le_nonneg) (auto simp: is_byte_def)

definition iov_entries :: "(int \<Rightarrow> int) \<Rightarrow> int \<Rightarrow> int \<Rightarrow> nat \<Rightarrow> (int \<times> int) list" where
  "iov_entries ram iov i n = map (\<lambda>k. (word_at ram (u32 (iov + (i + int k) * 8)), word_at ram (u32 (iov + (i + int k) * 8) + 4))) [0..<n]"

lemma iov_entries_Suc: "iov_entries ram iov i (Suc n) =
    (word_at ram (u32 (iov + i * 8)), word_at ram (u32 (iov + i * 8) + 4)) # iov_entries ram iov (i + 1) n"
  unfolding iov_entries_def upt_conv_Cons [OF zero_less_Suc] by (simp add: map_Suc_upt [symmetric] algebra_simps del: upt_Suc)

text \<open>The spans that the kernel fills: entry after entry until \<open>r\<close> bytes are used up.\<close>

fun filled :: "(int \<times> int) list \<Rightarrow> int \<Rightarrow> (int \<times> int) list" where
  "filled [] r = []"
| "filled ((b, n) # es) r = (if min n r > 0 then (b, min n r) # (if r - min n r \<le> 0 then [] else filled es (r - min n r)) else filled es r)"

lemma filled_sum: "\<forall>(b, n) \<in> set es. 0 \<le> n \<Longrightarrow> 0 < r \<Longrightarrow> sum_list (map snd (filled es r)) = min r (sum_list (map snd es))"
proof (induction es arbitrary: r)
  case (Cons e es)
  obtain b n where e: "e = (b, n)" by (cases e)
  have n: "0 \<le> n" using Cons.prems e by auto
  have "0 \<le> sum_list (map snd es)" using Cons.prems by (intro sum_list_nonneg) auto
  then show ?case
    by (cases "n < r"; cases "n = 0") (use Cons n in \<open>auto simp: e\<close>)
qed simp

context gdb_session
begin

lemma read_ram:
  assumes "sync m s" "flat_ram M m ram" "0 \<le> a" "0 < n"
  shows "\<exists>t. read_mem P a n s = Some (Inr (Some (map ram [a .. a + n - 1])), t) \<and> sync m t"
  using read_mem_ok [OF assms(1,3), of n] assms by (simp add: flat_ram_def)

lemma append_region_reads:
  assumes "sync m s" "flat_ram M m ram" "0 \<le> addr" "0 \<le> off" "off \<le> len" "addr + len \<le> 2 ^ 32"
  shows "\<exists>t cs. append_region P key addr len off regions s = Some (Inr (regions @ map (\<lambda>(a, bs). bytes_region key a bs) cs), t) \<and> sync m t \<and>
    contiguous (addr + off) cs \<and> concat (map snd cs) = map ram [addr + off .. addr + len - 1]"
  using assms
proof (induction "nat (len - off)" arbitrary: off regions s rule: less_induct)
  case less
  show ?case
  proof (cases "off < len")
    case False
    then have "off = len" using less.prems by simp
    then show ?thesis using less.prems(1) by (subst append_region.simps) (auto intro!: exI [of _ "[]"])
  next
    case True
    define n where "n = min 0x800 (len - off)"
    have n: "0 < n" "n \<le> 0x800" "off + n \<le> len" using True by (auto simp: n_def)
    have addr: "u32 (addr + off) = addr + off" using less.prems True by (intro u32_small) linarith+
    let ?bs = "map ram [addr + off .. addr + off + n - 1]"
    obtain t where t: "read_mem P (addr + off) n s = Some (Inr (Some ?bs), t)" "sync m t"
      using read_ram [OF less.prems(1,2) _ n(1), of "addr + off"] less.prems by auto
    have bs: "?bs \<noteq> []" "length ?bs = nat n" using n by simp_all
    obtain u cs where u: "append_region P key addr len (off + n) (regions @ [bytes_region key (addr + off) ?bs]) t =
        Some (Inr ((regions @ [bytes_region key (addr + off) ?bs]) @ map (\<lambda>(a, bs). bytes_region key a bs) cs), u)" "sync m u"
      "contiguous (addr + (off + n)) cs" "concat (map snd cs) = map ram [addr + (off + n) .. addr + len - 1]"
      using less.hyps [of "off + n" t "regions @ [bytes_region key (addr + off) ?bs]"] less.prems t(2) n by auto
    have "append_region P key addr len off regions s = Some (Inr (regions @ map (\<lambda>(a, bs). bytes_region key a bs) ((addr + off, ?bs) # cs)), u)"
      using True t(1) u(1) bs(1) by (subst append_region.simps) (simp add: Let_def n_def [symmetric] addr)
    moreover have "contiguous (addr + off) ((addr + off, ?bs) # cs)" using u(3) bs n by (simp add: algebra_simps)
    moreover have "concat (map snd ((addr + off, ?bs) # cs)) = map ram [addr + off .. addr + len - 1]"
      using u(4) upto_split [of "addr + off" "addr + off + n" "addr + len"] n
      by (simp add: algebra_simps flip: map_append)
    ultimately show ?thesis using u(2) by blast
  qed
qed

lemma grab_ram:
  assumes "sync m s" "flat_ram M m ram" "0 < n"
  shows "\<exists>t. grab P b n s = Some (Inr [BytesAt (u32 b) (RawBytes (map ram [u32 b .. u32 b + n - 1]))], t) \<and> sync m t"
proof -
  have "0 \<le> u32 b" by (simp add: u32_def)
  then show ?thesis using read_ram [OF assms(1,2) _ assms(3), of "u32 b"] assms(3) by (auto simp: grab_def)
qed

lemma iovec_loop_fills:
  assumes "sync m s" "flat_ram M m ram" "0 < r"
  shows "\<exists>t. iovec_loop P iov i n r ws s = Some (Inr (ws @ map (\<lambda>(b, k). BytesAt (u32 b) (RawBytes (map ram [u32 b .. u32 b + k - 1])))
      (filled (iov_entries ram iov i n) r)), t) \<and> sync m t"
  using assms
proof (induction n arbitrary: i r ws s)
  case 0
  then show ?case by (simp add: iov_entries_def)
next
  case (Suc n)
  let ?a = "u32 (iov + i * 8)"
  have a: "0 \<le> ?a" by (simp add: u32_def)
  obtain t where t: "read_mem P ?a 8 s = Some (Inr (Some (map ram [?a .. ?a + 8 - 1])), t)" "sync m t"
    using read_ram [OF Suc.prems(1,2) a, of 8] by auto
  let ?e = "map ram [?a .. ?a + 8 - 1]" and ?b = "word_at ram ?a" and ?n = "word_at ram (?a + 4)"
  have split: "[?a .. ?a + 8 - 1] = [?a .. ?a + 3] @ [?a + 4 .. ?a + 4 + 3]"
    using upto_split [of ?a "?a + 4" "?a + 8"] by (simp add: algebra_simps)
  have e: "\<not> length ?e < 8" "from_le (take 4 ?e) = ?b" "from_le (take 4 (drop 4 ?e)) = ?n"
    unfolding split by (simp_all add: word_at_def)
  define k where "k = min ?n r"
  show ?case
  proof (cases "k > 0")
    case True
    then have pos: "0 < ?n" "0 < r" by (auto simp: k_def)
    obtain u where u: "grab P ?b k t = Some (Inr [BytesAt (u32 ?b) (RawBytes (map ram [u32 ?b .. u32 ?b + k - 1]))], u)" "sync m u"
      using grab_ram [OF t(2) Suc.prems(2) True] by blast
    show ?thesis
    proof (cases "r - k \<le> 0")
      case True
      then show ?thesis using t u pos \<open>k > 0\<close> e by (simp add: iov_entries_Suc Let_def k_def [symmetric])
    next
      case False
      then have pos': "0 < r - k" by simp
      show ?thesis using Suc.IH [OF u(2) Suc.prems(2) pos', where i = "i + 1"
            and ws = "ws @ [BytesAt (u32 ?b) (RawBytes (map ram [u32 ?b .. u32 ?b + k - 1]))]"] t u pos pos' \<open>k > 0\<close> e
        by (simp add: iov_entries_Suc Let_def k_def [symmetric])
    qed
  next
    case False
    then have neg: "\<not> 0 < ?n" using Suc.prems(3) by (auto simp: k_def)
    then show ?thesis using Suc.IH [OF t(2) Suc.prems(2,3)] t e neg Suc.prems(3)
      by (simp add: iov_entries_Suc Let_def)
  qed
qed

end

text \<open>
  C19. An ELF segment or a stack is captured completely and in order: for any region below 4 GiB, the
  chunked reader appends regions whose addresses are contiguous from the start of the region and
  whose bytes concatenate to the memory of the machine, through any fragmentation of the stub.
\<close>

theorem append_region_covers:
  assumes "stub_sync m s" "flat_ram M m ram" "0 \<le> addr" "0 \<le> len" "addr + len \<le> 2 ^ 32"
  shows "\<exists>t cs. append_region (stub_peer M cuts) key addr len 0 [] s =
      Some (Inr (map (\<lambda>(a, bs). bytes_region key a bs) cs), t) \<and>
    contiguous addr cs \<and> concat (map snd cs) = map ram [addr .. addr + len - 1]"
  using stub.append_region_reads [OF assms(1-3) order_refl assms(4-5), where key = key and regions = "[]" and cuts = cuts]
  by auto

definition ramp :: "nat machine" where
  "ramp = counter\<lparr> mc_mem := (\<lambda>m a n. Some (map (\<lambda>x. x mod 251) [a .. a + n - 1])) \<rparr>"

lemma flat_ramp: "flat_ram ramp m (\<lambda>x. x mod 251)"
  by (auto simp: flat_ram_def ramp_def mem_view_def)

theorem append_region_covers_witness:
  "\<exists>t cs. append_region (stub_peer ramp (\<lambda>i. [i, 3])) ''vaddr'' 0x8048000 0x1234 0 [] (w_rsp (fresh_world 0)) =
      Some (Inr (map (\<lambda>(a, bs). bytes_region ''vaddr'' a bs) cs), t) \<and>
    contiguous 0x8048000 cs \<and> concat (map snd cs) = map (\<lambda>x. x mod 251) [0x8048000 .. 0x8048000 + 0x1234 - 1]"
  by (rule append_region_covers [OF sync_fresh flat_ramp]) simp_all

text \<open>
  A readv of \<open>got\<close> bytes is recorded as exactly the bytes that the kernel filled: entry after
  entry of the iovec array in guest memory, each one up to its length and to what is left, and the
  recorded spans add up to \<open>got\<close> or to the capacity of the array, whichever is less.
\<close>

theorem grab_iovec_captures:
  assumes "stub_sync m s" "flat_ram M m ram" "0 < got" "\<forall>a. is_byte (ram a)"
  shows "\<exists>t es. es = iov_entries ram iov 0 (nat cnt) \<and>
    grab_iovec (stub_peer M cuts) iov cnt got s =
      Some (Inr (map (\<lambda>(b, k). BytesAt (u32 b) (RawBytes (map ram [u32 b .. u32 b + k - 1]))) (filled es got)), t) \<and>
    sum_list (map snd (filled es got)) = min got (sum_list (map snd es))"
proof -
  have "\<forall>(b, n) \<in> set (iov_entries ram iov 0 (nat cnt)). 0 \<le> n"
    using assms(4) by (auto simp: iov_entries_def intro: word_at_nonneg)
  then show ?thesis
    using stub.iovec_loop_fills [OF assms(1-3), where ws = "[]" and cuts = cuts] assms(3) filled_sum unfolding grab_iovec_def by force
qed

theorem grab_iovec_captures_witness:
  "\<exists>t es. es = iov_entries (\<lambda>x. x mod 251) 0x1000 0 (nat 2) \<and>
    grab_iovec (stub_peer ramp (\<lambda>i. [i, 3])) 0x1000 2 5 (w_rsp (fresh_world 0)) =
      Some (Inr (map (\<lambda>(b, k). BytesAt (u32 b) (RawBytes (map (\<lambda>x. x mod 251) [u32 b .. u32 b + k - 1]))) (filled es 5)), t) \<and>
    sum_list (map snd (filled es 5)) = min 5 (sum_list (map snd es))"
proof (rule grab_iovec_captures [OF sync_fresh flat_ramp])
  have "x mod 251 < 256" for x :: int using pos_mod_bound [of 251 x] by linarith
  then show "\<forall>a. is_byte (a mod 251)" by (simp add: is_byte_def)
qed simp

end
