(* ===== verification/Replay_Log.thy ===== *)
theory Replay_Log
  imports Py_Regex
begin

text \<open>
  The alignment engine of verif/qemu-trace/replaylog.py: the regular expressions as matchers that
  return the group values, the parsing of one register dump, and the generator that turns the
  combined QEMU log into per-instruction records. A line is text without its newline; the generator
  is the list of the records it yields.
\<close>

subsection \<open>The expressions\<close>

definition four_hex :: "string \<Rightarrow> string \<Rightarrow> string \<Rightarrow> string \<Rightarrow> string \<Rightarrow> (int \<times> int \<times> int \<times> int) option" where
  "four_hex k1 k2 k3 k4 s = do {
     s \<leftarrow> lit k1 s; (a, s) \<leftarrow> hexn 8 0 s; s \<leftarrow> lit k2 s; (b, s) \<leftarrow> hexn 8 0 s;
     s \<leftarrow> lit k3 s; (c, s) \<leftarrow> hexn 8 0 s; s \<leftarrow> lit k4 s; (d, s) \<leftarrow> hexn 8 0 s; Some (a, b, c, d) }"

definition RE_EAX :: "string \<Rightarrow> (int \<times> int \<times> int \<times> int) option" where
  "RE_EAX = four_hex ''EAX='' '' EBX='' '' ECX='' '' EDX=''"
definition RE_ESI :: "string \<Rightarrow> (int \<times> int \<times> int \<times> int) option" where
  "RE_ESI = four_hex ''ESI='' '' EDI='' '' EBP='' '' ESP=''"
definition RE_CR :: "string \<Rightarrow> (int \<times> int \<times> int \<times> int) option" where
  "RE_CR = four_hex ''CR0='' '' CR2='' '' CR3='' '' CR4=''"

definition RE_EIP :: "string \<Rightarrow> (int \<times> int \<times> int \<times> int) option" where
  "RE_EIP s = do {
     s \<leftarrow> lit ''EIP='' s; (eip, s) \<leftarrow> hexn 8 0 s; s \<leftarrow> lit '' EFL='' s; (efl, s) \<leftarrow> hexn 8 0 s;
     s \<leftarrow> lit '' ['' s; s \<leftarrow> lit '']'' (snd (span (\<lambda>c. c \<noteq> CHR '']'') s));
     s \<leftarrow> lit '' CPL='' s; (cpl, s) \<leftarrow> decs s; s \<leftarrow> lit '' II='' s; (ii, s) \<leftarrow> decs s;
     s \<leftarrow> lit '' A20='' s; (a20, s) \<leftarrow> decs s; Some (eip, efl, cpl, a20) }"

definition RE_SEG :: "string \<Rightarrow> (string \<times> int \<times> int \<times> int \<times> int) option" where
  "RE_SEG s =
    (let name = take 2 s; r = drop 2 s;
         r = (case r of [] \<Rightarrow> [] | c # t \<Rightarrow> if c = CHR '' '' then t else c # t)
     in if name \<in> {''ES'', ''CS'', ''SS'', ''DS'', ''FS'', ''GS''} then do {
          s \<leftarrow> lit ''='' r; (sel, s) \<leftarrow> hexn 4 0 s; s \<leftarrow> lit '' '' s; (base, s) \<leftarrow> hexn 8 0 s;
          s \<leftarrow> lit '' '' s; (limit, s) \<leftarrow> hexn 8 0 s; s \<leftarrow> lit '' '' s; (attr, s) \<leftarrow> hexn 8 0 s;
          Some (name, sel, base, limit, attr) }
        else None)"

definition hwint_at :: "char option \<Rightarrow> string \<Rightarrow> int option" where
  "hwint_at prev s = do { s \<leftarrow> lit ''Servicing hardware INT=0x'' s; (v, s) \<leftarrow> hexs s; Some v }"

definition seg_off :: "string \<Rightarrow> (string \<times> string) option" where
  "seg_off s = do { (a, s) \<leftarrow> plus is_hex s; s \<leftarrow> lit '':'' s; (b, s) \<leftarrow> plus is_hex s; Some (a @ '':'' @ b, s) }"

record vec_line =
  vl_vec :: int
  vl_err :: int
  vl_i :: int
  vl_cpl :: int
  vl_ip :: string
  vl_sp :: string

text \<open>
  The soft flag compares the text of the \<open>i=\<close> group with ''1''; its value tells the same but for
  leading zeros, which \<open>vl_i\<close> keeps apart by being 1 only for that text.
\<close>

definition vec_at :: "char option \<Rightarrow> string \<Rightarrow> vec_line option" where
  "vec_at prev s =
    (if (case prev of None \<Rightarrow> False | Some c \<Rightarrow> is_word c) then None else do {
       s \<leftarrow> lit ''v='' s; (v, s) \<leftarrow> hexs s; s \<leftarrow> blanks s; s \<leftarrow> lit ''e='' s; (e, s) \<leftarrow> hexs s; s \<leftarrow> blanks s;
       s \<leftarrow> lit ''i='' s; (i, s) \<leftarrow> plus is_dec s; s \<leftarrow> blanks s; s \<leftarrow> lit ''cpl='' s; (cpl, s) \<leftarrow> decs s;
       s \<leftarrow> blanks s; s \<leftarrow> lit ''IP='' s; (ip, s) \<leftarrow> seg_off s; s \<leftarrow> blanks s; s \<leftarrow> lit ''pc='' s;
       (pc, s) \<leftarrow> hexs s; s \<leftarrow> blanks s; s \<leftarrow> lit ''SP='' s; (sp, s) \<leftarrow> seg_off s;
       Some \<lparr> vl_vec = v, vl_err = e, vl_i = (if i = ''1'' then 1 else 0), vl_cpl = cpl, vl_ip = ip, vl_sp = sp \<rparr> })"

record access =
  ac_addr :: int
  ac_val :: int
  ac_size :: int
  ac_region :: string

definition opt_minus :: "string \<Rightarrow> string" where
  "opt_minus s = (case lit ''-'' s of None \<Rightarrow> s | Some r \<Rightarrow> r)"

definition mro_at :: "char option \<Rightarrow> string \<Rightarrow> (bool \<times> access) option" where
  "mro_at prev s = do {
     s \<leftarrow> lit ''memory_region_ops_'' s;
     (rd, s) \<leftarrow> (case lit ''read'' s of Some s \<Rightarrow> Some (True, s) | None \<Rightarrow> map_option (Pair False) (lit ''write'' s));
     s \<leftarrow> blanks s; s \<leftarrow> lit ''cpu'' s; s \<leftarrow> blanks s; (cpu, s) \<leftarrow> decs (opt_minus s);
     s \<leftarrow> blanks s; s \<leftarrow> lit ''mr'' s; s \<leftarrow> blanks s; s \<leftarrow> lit ''0x'' s; (mr, s) \<leftarrow> hexs s;
     s \<leftarrow> blanks s; s \<leftarrow> lit ''addr'' s; s \<leftarrow> blanks s; s \<leftarrow> lit ''0x'' s; (addr, s) \<leftarrow> hexs s;
     s \<leftarrow> blanks s; s \<leftarrow> lit ''value'' s; s \<leftarrow> blanks s; s \<leftarrow> lit ''0x'' s; (v, s) \<leftarrow> hexs s;
     s \<leftarrow> blanks s; s \<leftarrow> lit ''size'' s; s \<leftarrow> blanks s; (size, s) \<leftarrow> decs s;
     s \<leftarrow> blanks s; s \<leftarrow> lit ''name'' s; s \<leftarrow> blanks s; s \<leftarrow> lit [CHR 0x27] s;
     let (region, s) = span (\<lambda>c. c \<noteq> CHR 0x27) s;
     s \<leftarrow> lit [CHR 0x27] s;
     Some (rd, \<lparr> ac_addr = addr, ac_val = v, ac_size = size, ac_region = region \<rparr>) }"

subsection \<open>Register dumps\<close>

record cpu_state =
  c_eax :: int
  c_ecx :: int
  c_edx :: int
  c_ebx :: int
  c_esp :: int
  c_ebp :: int
  c_esi :: int
  c_edi :: int
  c_eip :: int
  c_eflags :: int
  c_cpl :: int
  c_a20 :: int
  c_seg :: "(string, int) dict"
  c_seg_base :: "(string, int) dict"
  c_seg_limit :: "(string, int) dict"
  c_seg_attr :: "(string, int) dict"
  c_cr0 :: int
  c_cr2 :: int
  c_cr3 :: int
  c_cr4 :: int
  c_complete :: bool

definition cpu_init :: cpu_state where
  "cpu_init = \<lparr> c_eax = 0, c_ecx = 0, c_edx = 0, c_ebx = 0, c_esp = 0, c_ebp = 0, c_esi = 0, c_edi = 0,
     c_eip = 0, c_eflags = 0, c_cpl = 0, c_a20 = 0, c_seg = [], c_seg_base = [], c_seg_limit = [],
     c_seg_attr = [], c_cr0 = 0, c_cr2 = 0, c_cr3 = 0, c_cr4 = 0, c_complete = False \<rparr>"

definition parse_dump_line :: "cpu_state \<Rightarrow> string \<Rightarrow> cpu_state" where
  "parse_dump_line st line =
    (case RE_EAX line of Some (a, b, c, d) \<Rightarrow> st\<lparr> c_eax := a, c_ebx := b, c_ecx := c, c_edx := d \<rparr>
     | None \<Rightarrow> case RE_ESI line of Some (a, b, c, d) \<Rightarrow> st\<lparr> c_esi := a, c_edi := b, c_ebp := c, c_esp := d \<rparr>
     | None \<Rightarrow> case RE_EIP line of Some (eip, efl, cpl, a20) \<Rightarrow>
         st\<lparr> c_eip := eip, c_eflags := efl, c_cpl := cpl, c_a20 := a20, c_complete := True \<rparr>
     | None \<Rightarrow> case RE_SEG line of Some (name, sel, base, limit, attr) \<Rightarrow>
         (let n = lower name in
          st\<lparr> c_seg := dset n sel (c_seg st), c_seg_base := dset n base (c_seg_base st),
             c_seg_limit := dset n limit (c_seg_limit st), c_seg_attr := dset n attr (c_seg_attr st) \<rparr>)
     | None \<Rightarrow> case RE_CR line of Some (a, b, c, d) \<Rightarrow> st\<lparr> c_cr0 := a, c_cr2 := b, c_cr3 := c, c_cr4 := d \<rparr>
     | None \<Rightarrow> st)"

definition parse_block :: "string list \<Rightarrow> cpu_state" where
  "parse_block lines = foldl parse_dump_line cpu_init lines"

subsection \<open>The generator\<close>

record intr =
  in_vec :: int
  in_err :: "int option"
  in_soft :: bool
  in_cpl :: "int option"
  in_ip :: "string option"
  in_sp :: "string option"

record aligned =
  al_pre :: cpu_state
  al_post :: cpu_state
  al_dev_in :: "access list"
  al_dma_wr :: "access list"
  al_intr :: "intr option"

record align_state =
  pending :: "cpu_state option"
  block :: "string list"
  dev_in :: "access list"
  dma_wr :: "access list"
  cur_intr :: "intr option"

definition align_init :: align_state where
  "align_init = \<lparr> pending = None, block = [], dev_in = [], dma_wr = [], cur_intr = None \<rparr>"

definition finalize_block :: "align_state \<Rightarrow> aligned option \<times> align_state" where
  "finalize_block s =
    (if block s = [] then (None, s)
     else let st = parse_block (block s); s = s\<lparr> block := [] \<rparr>
          in if \<not> c_complete st then (None, s)
             else case pending s of
               None \<Rightarrow> (None, s\<lparr> pending := Some st \<rparr>)
             | Some p \<Rightarrow> (Some \<lparr> al_pre = p, al_post = st, al_dev_in = dev_in s, al_dma_wr = dma_wr s, al_intr = cur_intr s \<rparr>,
                 s\<lparr> dev_in := [], dma_wr := [], cur_intr := None, pending := Some st \<rparr>))"

definition DUMP_CONT :: "string list" where
  "DUMP_CONT = [''LDT='', ''TR ='', ''GDT='', ''IDT='', ''DR0='', ''DR6='', ''CCS='', ''EFER='', ''FPR'', ''XMM'', ''MXCSR'']"

definition continues :: "string \<Rightarrow> bool" where
  "continues line \<longleftrightarrow> RE_ESI line \<noteq> None \<or> RE_EIP line \<noteq> None \<or> RE_SEG line \<noteq> None \<or> RE_CR line \<noteq> None
     \<or> list_ex (startswith line) DUMP_CONT"

definition attach_event :: "align_state \<Rightarrow> string \<Rightarrow> align_state" where
  "attach_event s line =
    (case re_search mro_at None line of
       Some (rd, a) \<Rightarrow> if rd then s\<lparr> dev_in := dev_in s @ [a] \<rparr> else s\<lparr> dma_wr := dma_wr s @ [a] \<rparr>
     | None \<Rightarrow> case re_search vec_at None line of
       Some v \<Rightarrow> s\<lparr> cur_intr := Some \<lparr> in_vec = vl_vec v, in_err = Some (vl_err v), in_soft = (vl_i v = 1),
           in_cpl = Some (vl_cpl v), in_ip = Some (vl_ip v), in_sp = Some (vl_sp v) \<rparr> \<rparr>
     | None \<Rightarrow> case re_search hwint_at None line of
       Some v \<Rightarrow> (if cur_intr s = None
                  then s\<lparr> cur_intr := Some \<lparr> in_vec = v, in_err = None, in_soft = False, in_cpl = None, in_ip = None, in_sp = None \<rparr> \<rparr>
                  else s)
     | None \<Rightarrow> s)"

definition rstrip_nl :: "string \<Rightarrow> string" where
  "rstrip_nl s = rev (dropWhile (\<lambda>c. c = CHR 0x0A) (rev s))"

text \<open>One line: the record it makes the generator yield, and what the rest of the iteration does.\<close>

definition align_line :: "align_state \<Rightarrow> string \<Rightarrow> aligned option \<times> align_state" where
  "align_line s line =
    (if block s \<noteq> [] \<and> continues line then (None, s\<lparr> block := block s @ [line] \<rparr>)
     else let (out, s) = finalize_block s
          in if RE_EAX line \<noteq> None then (out, s\<lparr> block := block s @ [line] \<rparr>)
             else (out, attach_event s line))"

fun align_loop :: "int option \<Rightarrow> int \<Rightarrow> align_state \<Rightarrow> string list \<Rightarrow> aligned list" where
  "align_loop max_insn emitted s [] =
    (case fst (finalize_block s) of None \<Rightarrow> []
     | Some out \<Rightarrow> if (case max_insn of None \<Rightarrow> True | Some m \<Rightarrow> emitted < m) then [out] else [])"
| "align_loop max_insn emitted s (line # ls) =
    (case align_line s (rstrip_nl line) of
       (None, s) \<Rightarrow> align_loop max_insn emitted s ls
     | (Some out, s) \<Rightarrow>
         out # (if (case max_insn of None \<Rightarrow> False | Some m \<Rightarrow> emitted + 1 \<ge> m) then []
                else align_loop max_insn (emitted + 1) s ls))"

definition iter_aligned :: "int option \<Rightarrow> string list \<Rightarrow> aligned list" where
  "iter_aligned max_insn f = align_loop max_insn 0 align_init f"

subsection \<open>Every log: records are chained, and the limit truncates\<close>

fun chained :: "cpu_state option \<Rightarrow> aligned list \<Rightarrow> bool" where
  "chained p [] = True"
| "chained p (r # rs) = ((p = None \<or> p = Some (al_pre r)) \<and> c_complete (al_pre r) \<and> c_complete (al_post r)
     \<and> chained (Some (al_post r)) rs)"

definition pending_ok :: "align_state \<Rightarrow> bool" where
  "pending_ok s = (\<forall>p. pending s = Some p \<longrightarrow> c_complete p)"

lemma chained_weaken: "chained (Some p) rs \<Longrightarrow> chained None rs"
  by (cases rs) auto

lemma finalize_cases:
  assumes "finalize_block s = (out, s')"
  obtains "out = None" "pending s' = pending s"
  | st where "out = None" "pending s = None" "pending s' = Some st" "c_complete st"
  | p st where "pending s = Some p" "pending s' = Some st" "c_complete st" "\<exists>r. out = Some r \<and> al_pre r = p \<and> al_post r = st"
  using assms by (auto simp: finalize_block_def Let_def split: if_splits option.splits)

lemma attach_event_pending [simp]: "pending (attach_event s line) = pending s"
  by (simp add: attach_event_def split: option.split prod.split)

lemma align_line_cases:
  assumes "align_line s line = (out, s')"
  obtains "out = None" "pending s' = pending s"
  | st where "out = None" "pending s = None" "pending s' = Some st" "c_complete st"
  | p st where "pending s = Some p" "pending s' = Some st" "c_complete st" "\<exists>r. out = Some r \<and> al_pre r = p \<and> al_post r = st"
proof (cases "block s \<noteq> [] \<and> continues line")
  case True
  then show thesis using assms that(1) by (auto simp: align_line_def)
next
  case False
  obtain o1 s1 where f: "finalize_block s = (o1, s1)" by fastforce
  then have "out = o1" "pending s' = pending s1"
    using assms False by (auto simp: align_line_def split: if_splits)
  then show thesis using finalize_cases [OF f] that by metis
qed

lemma align_loop_chained: "pending_ok s \<Longrightarrow> chained (pending s) (align_loop None n s ls)"
proof (induction ls arbitrary: s n)
  case Nil
  obtain out s' where f: "finalize_block s = (out, s')" by fastforce
  show ?case using finalize_cases [OF f] Nil f by cases (auto simp: pending_ok_def)
next
  case (Cons line ls)
  obtain out s' where a: "align_line s (rstrip_nl line) = (out, s')" by fastforce
  from a show ?case
  proof (cases rule: align_line_cases)
    case 1
    then have "chained (pending s') (align_loop None n s' ls)"
      using Cons.IH [of s' n] Cons.prems by (simp add: pending_ok_def)
    then show ?thesis using 1 a by simp
  next
    case (2 st)
    then have "chained (Some st) (align_loop None n s' ls)" using Cons.IH [of s' n] by (simp add: pending_ok_def)
    then show ?thesis using 2 a by (simp add: chained_weaken)
  next
    case (3 p st)
    then have "chained (Some st) (align_loop None (n + 1) s' ls)" using Cons.IH [of s' "n + 1"] by (simp add: pending_ok_def)
    then show ?thesis using 3 a Cons.prems by (auto simp: pending_ok_def)
  qed
qed

text \<open>
  C10. Whatever the log holds, the records form one chain: each record is built from two complete
  register dumps, and the post-state of a record is the pre-state of the next one. No dump is
  skipped or used twice in between.
\<close>

theorem iter_aligned_chained: "chained None (iter_aligned None f)"
  using align_loop_chained [of align_init 0 f] by (simp add: iter_aligned_def align_init_def pending_ok_def)

text \<open>Without a limit the count of emitted records plays no part.\<close>

lemma align_loop_count: "align_loop None n s ls = align_loop None k s ls"
  by (induction ls arbitrary: s n k) (auto split: prod.split option.split)

lemma align_loop_limit:
  "n < m \<Longrightarrow> align_loop (Some m) n s ls = take (nat (m - n)) (align_loop None k s ls)"
proof (induction ls arbitrary: s n k)
  case Nil
  then show ?case by (auto split: option.split simp: take_Cons' nat_eq_iff)
next
  case (Cons line ls)
  obtain out s' where a: "align_line s (rstrip_nl line) = (out, s')" by fastforce
  show ?case
  proof (cases out)
    case None
    then show ?thesis using a Cons by simp
  next
    case (Some r)
    show ?thesis
    proof (cases "n + 1 \<ge> m")
      case True
      then have "nat (m - n) = 1" using Cons.prems by simp
      then show ?thesis using a Some True by simp
    next
      case False
      then have "nat (m - n) = Suc (nat (m - (n + 1)))" by simp
      then show ?thesis using a Some False Cons.IH [of "n + 1" s' "k + 1"] by simp
    qed
  qed
qed

text \<open>
  The record limit truncates and does nothing else: for every limit of at least one, the
  limited iteration yields the first records of the unlimited one.
\<close>

theorem iter_aligned_limit:
  assumes "m \<ge> 1"
  shows "iter_aligned (Some m) f = take (nat m) (iter_aligned None f)"
  using align_loop_limit [of 0 m align_init f 0] assms by (simp add: iter_aligned_def)

theorem iter_aligned_limit_witness: "iter_aligned (Some 3) [''EAX=''] = take (nat 3) (iter_aligned None [''EAX=''])"
  by (rule iter_aligned_limit) simp

subsection \<open>Rendered logs\<close>

text \<open>
  The text that QEMU writes for a dump and for the three kinds of event line; \<open>render_log\<close> is a
  log that opens with the events \<open>lead\<close> and then alternates dumps and their events.
\<close>

definition render_seg :: "string \<Rightarrow> cpu_state \<Rightarrow> string" where
  "render_seg nm st = nm @ '' ='' @ hex_pad 4 (the (map_of (c_seg st) (lower nm))) @ '' ''
     @ hex_pad 8 (the (map_of (c_seg_base st) (lower nm))) @ '' ''
     @ hex_pad 8 (the (map_of (c_seg_limit st) (lower nm))) @ '' ''
     @ hex_pad 8 (the (map_of (c_seg_attr st) (lower nm))) @ '' DPL''"

definition render_four :: "string \<Rightarrow> string \<Rightarrow> string \<Rightarrow> string \<Rightarrow> int \<Rightarrow> int \<Rightarrow> int \<Rightarrow> int \<Rightarrow> string" where
  "render_four k1 k2 k3 k4 a b c d = k1 @ hex_pad 8 a @ k2 @ hex_pad 8 b @ k3 @ hex_pad 8 c @ k4 @ hex_pad 8 d"

definition esi_line :: "cpu_state \<Rightarrow> string" where
  "esi_line st = render_four ''ESI='' '' EDI='' '' EBP='' '' ESP='' (c_esi st) (c_edi st) (c_ebp st) (c_esp st)"

definition eip_line :: "cpu_state \<Rightarrow> string" where
  "eip_line st = ''EIP='' @ hex_pad 8 (c_eip st) @ '' EFL='' @ hex_pad 8 (c_eflags st) @ '' [-------] CPL='' @ dec (c_cpl st)
     @ '' II=0 A20='' @ dec (c_a20 st) @ '' SMM=0 HLT=0''"

definition cr_line :: "cpu_state \<Rightarrow> string" where
  "cr_line st = render_four ''CR0='' '' CR2='' '' CR3='' '' CR4='' (c_cr0 st) (c_cr2 st) (c_cr3 st) (c_cr4 st)"

definition SEG_NAMES :: "string list" where "SEG_NAMES = [''ES'', ''CS'', ''SS'', ''DS'', ''FS'', ''GS'']"

definition DT_LINES :: "string list" where
  "DT_LINES = [''LDT=0000 00000000 0000ffff 00008200'', ''GDT=     00000000 0000ffff'', ''IDT=     00000000 000003ff'']"

definition DR_LINES :: "string list" where
  "DR_LINES = [''DR0=00000000 DR1=00000000 DR2=00000000 DR3=00000000'', ''EFER=0000000000000000'']"

definition dump_body :: "cpu_state \<Rightarrow> string list" where
  "dump_body st = [esi_line st, eip_line st] @ map (\<lambda>nm. render_seg nm st) SEG_NAMES @ DT_LINES @ [cr_line st] @ DR_LINES"

definition dump_head :: "cpu_state \<Rightarrow> string" where
  "dump_head st = render_four ''EAX='' '' EBX='' '' ECX='' '' EDX='' (c_eax st) (c_ebx st) (c_ecx st) (c_edx st)"

definition render_dump :: "cpu_state \<Rightarrow> string list" where
  "render_dump st = dump_head st # dump_body st"

datatype event = EvRead access | EvWrite access | EvVec vec_line | EvHwint int

definition render_access :: "string \<Rightarrow> access \<Rightarrow> string" where
  "render_access op a = ''memory_region_ops_'' @ op @ '' cpu 0 mr 0x55aa addr 0x'' @ digits 16 (ac_addr a)
     @ '' value 0x'' @ digits 16 (ac_val a) @ '' size '' @ dec (ac_size a) @ '' name '' @ [CHR 0x27] @ ac_region a @ [CHR 0x27]"

definition render_event :: "event \<Rightarrow> string" where
  "render_event e = (case e of
     EvRead a \<Rightarrow> render_access ''read'' a
   | EvWrite a \<Rightarrow> render_access ''write'' a
   | EvVec v \<Rightarrow> ''v='' @ digits 16 (vl_vec v) @ '' e='' @ digits 16 (vl_err v) @ '' i='' @ dec (vl_i v)
       @ '' cpl='' @ dec (vl_cpl v) @ '' IP='' @ vl_ip v @ '' pc=0 SP='' @ vl_sp v
   | EvHwint v \<Rightarrow> ''Servicing hardware INT=0x'' @ digits 16 v)"

definition h32ok :: "int \<Rightarrow> bool" where "h32ok v \<longleftrightarrow> 0 \<le> v \<and> v < 2 ^ 32"

definition seg_names :: "string list" where "seg_names = [''es'', ''cs'', ''ss'', ''ds'', ''fs'', ''gs'']"

definition dump_ok :: "cpu_state \<Rightarrow> bool" where
  "dump_ok st \<longleftrightarrow> list_all h32ok [c_eax st, c_ecx st, c_edx st, c_ebx st, c_esp st, c_ebp st, c_esi st, c_edi st,
      c_eip st, c_eflags st, c_cr0 st, c_cr2 st, c_cr3 st, c_cr4 st] \<and> 0 \<le> c_cpl st \<and> 0 \<le> c_a20 st \<and>
    map fst (c_seg st) = seg_names \<and> map fst (c_seg_base st) = seg_names \<and>
    map fst (c_seg_limit st) = seg_names \<and> map fst (c_seg_attr st) = seg_names \<and>
    (\<forall>(k, v) \<in> set (c_seg st). 0 \<le> v \<and> v < 2 ^ 16) \<and> (\<forall>(k, v) \<in> set (c_seg_base st). h32ok v) \<and>
    (\<forall>(k, v) \<in> set (c_seg_limit st). h32ok v) \<and> (\<forall>(k, v) \<in> set (c_seg_attr st). h32ok v) \<and> c_complete st"

definition seg_off_ok :: "string \<Rightarrow> bool" where
  "seg_off_ok t \<longleftrightarrow> (\<exists>a b. t = a @ '':'' @ b \<and> a \<noteq> [] \<and> b \<noteq> [] \<and> (\<forall>c \<in> set (a @ b). is_hex c))"

definition access_ok :: "access \<Rightarrow> bool" where
  "access_ok a \<longleftrightarrow> 0 \<le> ac_addr a \<and> 0 \<le> ac_val a \<and> 0 \<le> ac_size a \<and> CHR 0x27 \<notin> set (ac_region a)"

definition event_ok :: "event \<Rightarrow> bool" where
  "event_ok e = (case e of EvRead a \<Rightarrow> access_ok a | EvWrite a \<Rightarrow> access_ok a
     | EvVec v \<Rightarrow> 0 \<le> vl_vec v \<and> 0 \<le> vl_err v \<and> vl_i v \<in> {0, 1} \<and> 0 \<le> vl_cpl v \<and> seg_off_ok (vl_ip v) \<and> seg_off_ok (vl_sp v)
     | EvHwint v \<Rightarrow> 0 \<le> v)"

definition render_log :: "event list \<Rightarrow> (cpu_state \<times> event list) list \<Rightarrow> string list" where
  "render_log lead segs = map (\<lambda>l. l @ [CHR 0x0A])
     (map render_event lead @ concat (map (\<lambda>(d, evs). render_dump d @ map render_event evs) segs))"

text \<open>What the records should say about the events between two dumps.\<close>

definition reads_of :: "event list \<Rightarrow> access list" where
  "reads_of evs = concat (map (\<lambda>e. case e of EvRead a \<Rightarrow> [a] | _ \<Rightarrow> []) evs)"
definition writes_of :: "event list \<Rightarrow> access list" where
  "writes_of evs = concat (map (\<lambda>e. case e of EvWrite a \<Rightarrow> [a] | _ \<Rightarrow> []) evs)"
definition vecs_of :: "event list \<Rightarrow> vec_line list" where
  "vecs_of evs = concat (map (\<lambda>e. case e of EvVec v \<Rightarrow> [v] | _ \<Rightarrow> []) evs)"
definition hwints_of :: "event list \<Rightarrow> int list" where
  "hwints_of evs = concat (map (\<lambda>e. case e of EvHwint v \<Rightarrow> [v] | _ \<Rightarrow> []) evs)"

definition vec_intr :: "vec_line \<Rightarrow> intr" where
  "vec_intr v = \<lparr> in_vec = vl_vec v, in_err = Some (vl_err v), in_soft = (vl_i v = 1), in_cpl = Some (vl_cpl v),
     in_ip = Some (vl_ip v), in_sp = Some (vl_sp v) \<rparr>"
definition hw_intr :: "int \<Rightarrow> intr" where
  "hw_intr v = \<lparr> in_vec = v, in_err = None, in_soft = False, in_cpl = None, in_ip = None, in_sp = None \<rparr>"

definition intr_of :: "event list \<Rightarrow> intr option" where
  "intr_of evs = (if vecs_of evs \<noteq> [] then Some (vec_intr (last (vecs_of evs)))
     else case hwints_of evs of [] \<Rightarrow> None | v # _ \<Rightarrow> Some (hw_intr v))"

fun expected :: "event list \<Rightarrow> (cpu_state \<times> event list) list \<Rightarrow> aligned list" where
  "expected lead ((d, evs) # (d', evs') # segs) =
    \<lparr> al_pre = d, al_post = d', al_dev_in = reads_of (lead @ evs), al_dma_wr = writes_of (lead @ evs),
      al_intr = intr_of (lead @ evs) \<rparr> # expected [] ((d', evs') # segs)"
| "expected lead _ = []"

subsection \<open>The matchers on rendered lines\<close>

lemma h32_bound: "h32ok v \<Longrightarrow> 0 \<le> v \<and> v < 16 ^ 8"
  by (simp add: h32ok_def)

lemma hexn8 [simp]: "h32ok v \<Longrightarrow> hexn 8 0 (hex_pad 8 v @ r) = Some (v, r)"
  using h32_bound by (intro hexn_pad) auto

lemma hexn8_end [simp]: "h32ok v \<Longrightarrow> hexn 8 0 (hex_pad 8 v) = Some (v, [])"
  using hexn8 [of v "[]"] by simp

lemma hexn4 [simp]: "0 \<le> v \<Longrightarrow> v < 2 ^ 16 \<Longrightarrow> hexn 4 0 (hex_pad 4 v @ r) = Some (v, r)"
  by (rule hexn_pad) simp_all

lemma four_hex_render:
  assumes "h32ok a" "h32ok b" "h32ok c" "h32ok d"
  shows "four_hex k1 k2 k3 k4 (render_four k1 k2 k3 k4 a b c d) = Some (a, b, c, d)"
  using assms by (simp add: four_hex_def render_four_def)

lemma other_head:
  "c \<noteq> CHR ''E'' \<Longrightarrow> RE_EAX (c # s) = None \<and> RE_ESI (c # s) = None \<and> RE_EIP (c # s) = None"
  "c \<noteq> CHR ''C'' \<Longrightarrow> RE_CR (c # s) = None"
  "c \<notin> set ''ECSDFG'' \<Longrightarrow> RE_SEG (c # s) = None"
  "d \<notin> set ''S'' \<Longrightarrow> RE_SEG (c # d # s) = None"
  by (auto simp: RE_EAX_def RE_ESI_def RE_EIP_def RE_CR_def RE_SEG_def four_hex_def Let_def)

lemma E_lines:
  "RE_ESI (CHR ''E'' # CHR ''A'' # s) = None" "RE_EIP (CHR ''E'' # CHR ''A'' # s) = None"
  "RE_EAX (CHR ''E'' # CHR ''S'' # s) = None" "RE_EIP (CHR ''E'' # CHR ''S'' # s) = None"
  "RE_EAX (CHR ''E'' # CHR ''I'' # s) = None" "RE_ESI (CHR ''E'' # CHR ''I'' # s) = None"
  "RE_EAX (CHR ''E'' # CHR ''F'' # s) = None" "RE_ESI (CHR ''E'' # CHR ''F'' # s) = None" "RE_EIP (CHR ''E'' # CHR ''F'' # s) = None"
  "RE_ESI (CHR ''E'' # CHR ''S'' # CHR '' '' # s) = None" "RE_CR (CHR ''C'' # CHR ''S'' # s) = None"
  "RE_SEG (CHR ''E'' # CHR ''S'' # CHR ''I'' # s) = None"
  by (simp_all add: RE_EAX_def RE_ESI_def RE_EIP_def RE_CR_def RE_SEG_def four_hex_def)

lemma RE_EIP_render:
  assumes "dump_ok st"
  shows "RE_EIP (eip_line st) = Some (c_eip st, c_eflags st, c_cpl st, c_a20 st)"
proof -
  have ok: "h32ok (c_eip st)" "h32ok (c_eflags st)" "0 \<le> c_cpl st" "0 \<le> c_a20 st"
    using assms by (simp_all add: dump_ok_def)
  have sp: "\<not> is_dec CHR '' ''" by (simp add: is_dec_def decval_def digit_val_def)
  have ii: "decs (CHR ''0'' # CHR '' '' # r) = Some (0, CHR '' '' # r)" for r
    using decs_dec [of 0 "CHR '' '' # r"] sp by (simp add: dec_def digits.simps digit_char_def)
  show ?thesis using ok sp by (simp add: eip_line_def RE_EIP_def span_def decs_dec ii)
qed

lemma seg_value:
  assumes "map fst d = seg_names" "\<forall>(k, v) \<in> set d. P v" "k \<in> set seg_names"
  shows "P (the (map_of d k))"
proof -
  have "k \<in> fst ` set d" using assms(1,3) by (metis list.set_map)
  then obtain v where "map_of d k = Some v" by (meson map_of_eq_None_iff not_None_eq)
  then show ?thesis using assms(2) map_of_SomeD by fastforce
qed

lemma lower_names: "map lower SEG_NAMES = seg_names"
  by code_simp

lemma RE_SEG_render:
  assumes "dump_ok st" "nm \<in> set SEG_NAMES"
  shows "RE_SEG (render_seg nm st) = Some (nm, the (map_of (c_seg st) (lower nm)), the (map_of (c_seg_base st) (lower nm)),
    the (map_of (c_seg_limit st) (lower nm)), the (map_of (c_seg_attr st) (lower nm)))"
proof -
  have "lower nm \<in> set (map lower SEG_NAMES)"
    unfolding set_map using assms(2) by (rule imageI)
  then have k: "lower nm \<in> set seg_names" unfolding lower_names .
  note d = assms(1) [unfolded dump_ok_def]
  have "0 \<le> the (map_of (c_seg st) (lower nm)) \<and> the (map_of (c_seg st) (lower nm)) < 2 ^ 16"
    by (rule seg_value [where P = "\<lambda>v. 0 \<le> v \<and> v < 2 ^ 16", OF _ _ k]) (use d in blast)+
  moreover have "h32ok (the (map_of (c_seg_base st) (lower nm)))" by (rule seg_value [OF _ _ k]) (use d in blast)+
  moreover have "h32ok (the (map_of (c_seg_limit st) (lower nm)))" by (rule seg_value [OF _ _ k]) (use d in blast)+
  moreover have "h32ok (the (map_of (c_seg_attr st) (lower nm)))" by (rule seg_value [OF _ _ k]) (use d in blast)+
  moreover define sel base limit attr where "sel = the (map_of (c_seg st) (lower nm))"
    and "base = the (map_of (c_seg_base st) (lower nm))" and "limit = the (map_of (c_seg_limit st) (lower nm))"
    and "attr = the (map_of (c_seg_attr st) (lower nm))"
  ultimately have ok: "0 \<le> sel" "sel < 2 ^ 16" "h32ok base" "h32ok limit" "h32ok attr" by simp_all
  have len: "length nm = 2" using assms(2) by (auto simp: SEG_NAMES_def)
  have mem: "nm \<in> {''ES'', ''CS'', ''SS'', ''DS'', ''FS'', ''GS''}" using assms(2) by (simp add: SEG_NAMES_def)
  show ?thesis
    unfolding RE_SEG_def render_seg_def sel_def [symmetric] base_def [symmetric] limit_def [symmetric] attr_def [symmetric]
    using ok len mem by (simp add: Let_def)
qed

lemma lower_seg [simp]:
  "lower ''ES'' = ''es''" "lower ''CS'' = ''cs''" "lower ''SS'' = ''ss''"
  "lower ''DS'' = ''ds''" "lower ''FS'' = ''fs''" "lower ''GS'' = ''gs''"
  by code_simp+

lemma head_lines:
  "RE_EAX (dump_head d) \<noteq> None" if "dump_ok d"
  using that by (simp add: dump_head_def RE_EAX_def four_hex_render dump_ok_def)

lemma dump_head_E: "\<exists>s. dump_head d = CHR ''E'' # CHR ''A'' # s"
  by (simp add: dump_head_def render_four_def)

lemma parse_head:
  assumes "dump_ok d"
  shows "parse_dump_line st (dump_head d) = st\<lparr> c_eax := c_eax d, c_ebx := c_ebx d, c_ecx := c_ecx d, c_edx := c_edx d \<rparr>"
  using assms by (simp add: parse_dump_line_def dump_head_def RE_EAX_def four_hex_render dump_ok_def)

lemma esi_other: "RE_EAX (esi_line d) = None"
  by (simp add: esi_line_def render_four_def E_lines)

lemma RE_ESI_render: "dump_ok d \<Longrightarrow> RE_ESI (esi_line d) = Some (c_esi d, c_edi d, c_ebp d, c_esp d)"
  by (simp add: esi_line_def RE_ESI_def four_hex_render dump_ok_def)

lemma eip_other: "RE_EAX (eip_line d) = None" "RE_ESI (eip_line d) = None"
  by (simp_all add: eip_line_def E_lines)

lemma RE_CR_render: "dump_ok d \<Longrightarrow> RE_CR (cr_line d) = Some (c_cr0 d, c_cr2 d, c_cr3 d, c_cr4 d)"
  by (simp add: cr_line_def RE_CR_def four_hex_render dump_ok_def)

lemma cr_other: "RE_EAX (cr_line d) = None" "RE_ESI (cr_line d) = None" "RE_EIP (cr_line d) = None" "RE_SEG (cr_line d) = None"
  by (simp_all add: cr_line_def render_four_def other_head)

lemma seg_other:
  assumes "nm \<in> set SEG_NAMES"
  shows "RE_EAX (render_seg nm d) = None" "RE_ESI (render_seg nm d) = None" "RE_EIP (render_seg nm d) = None"
proof -
  obtain t where "render_seg nm d = CHR ''E'' # CHR ''S'' # CHR '' '' # t \<or> (\<exists>c. render_seg nm d = c # t \<and> c \<noteq> CHR ''E'')"
    using assms by (auto simp: render_seg_def SEG_NAMES_def)
  then show "RE_EAX (render_seg nm d) = None" "RE_ESI (render_seg nm d) = None" "RE_EIP (render_seg nm d) = None"
    by (auto simp: E_lines other_head)
qed

lemma parse_seg:
  assumes "dump_ok d" "nm \<in> set SEG_NAMES"
  shows "parse_dump_line st (render_seg nm d) =
    st\<lparr> c_seg := dset (lower nm) (the (map_of (c_seg d) (lower nm))) (c_seg st),
       c_seg_base := dset (lower nm) (the (map_of (c_seg_base d) (lower nm))) (c_seg_base st),
       c_seg_limit := dset (lower nm) (the (map_of (c_seg_limit d) (lower nm))) (c_seg_limit st),
       c_seg_attr := dset (lower nm) (the (map_of (c_seg_attr d) (lower nm))) (c_seg_attr st) \<rparr>"
  by (simp add: parse_dump_line_def seg_other [OF assms(2)] RE_SEG_render [OF assms] Let_def)

lemma parse_rest: "l \<in> set DT_LINES \<union> set DR_LINES \<Longrightarrow> parse_dump_line st l = st"
  unfolding DT_LINES_def DR_LINES_def by (auto simp: parse_dump_line_def other_head E_lines)

lemma parse_rest_all: "set ls \<subseteq> set DT_LINES \<union> set DR_LINES \<Longrightarrow> foldl parse_dump_line st ls = st"
  by (induction ls arbitrary: st) (auto simp: parse_rest)

lemma dict_rebuild: "distinct (map fst d) \<Longrightarrow> map (\<lambda>k. (k, the (map_of d k))) (map fst d) = d"
  unfolding map_map by (rule map_idI) (auto simp: map_of_is_SomeI)

lemma seg_rebuild:
  assumes "map fst d = seg_names"
  shows "[(''es'', the (map_of d ''es'')), (''cs'', the (map_of d ''cs'')), (''ss'', the (map_of d ''ss'')),
    (''ds'', the (map_of d ''ds'')), (''fs'', the (map_of d ''fs'')), (''gs'', the (map_of d ''gs''))] = d"
  using dict_rebuild [of d] assms by (simp add: seg_names_def)

lemma parse_render_dump:
  assumes "dump_ok d"
  shows "parse_block (render_dump d) = d"
proof -
  have segs: "map fst (c_seg d) = seg_names" "map fst (c_seg_base d) = seg_names"
    "map fst (c_seg_limit d) = seg_names" "map fst (c_seg_attr d) = seg_names" "c_complete d"
    using assms by (simp_all add: dump_ok_def)
  have names: "foldl parse_dump_line st (map (\<lambda>nm. render_seg nm d) SEG_NAMES) =
      st\<lparr> c_seg := c_seg d, c_seg_base := c_seg_base d, c_seg_limit := c_seg_limit d, c_seg_attr := c_seg_attr d \<rparr>"
    if "c_seg st = []" "c_seg_base st = []" "c_seg_limit st = []" "c_seg_attr st = []" for st
    using that parse_seg [OF assms] segs
    by (simp add: SEG_NAMES_def seg_rebuild)
  show ?thesis
    unfolding parse_block_def render_dump_def dump_body_def
    by (rule cpu_state.equality)
      (simp_all add: parse_head [OF assms] names parse_rest_all parse_dump_line_def [of _ "esi_line d"]
        parse_dump_line_def [of _ "eip_line d"] parse_dump_line_def [of _ "cr_line d"] esi_other eip_other cr_other
        RE_ESI_render [OF assms] RE_EIP_render [OF assms] RE_CR_render [OF assms] cpu_init_def segs)
qed

lemma body_continues:
  assumes "dump_ok d" "l \<in> set (dump_body d)"
  shows "continues l"
proof -
  have "continues (render_seg nm d)" if "nm \<in> set SEG_NAMES" for nm
    using RE_SEG_render [OF assms(1) that] by (simp add: continues_def)
  moreover have "list_ex (startswith l) DUMP_CONT" if "l \<in> set DT_LINES \<union> set DR_LINES" for l
    using that unfolding DT_LINES_def DR_LINES_def DUMP_CONT_def by auto
  then have "continues l" if "l \<in> set DT_LINES \<union> set DR_LINES" for l using that by (simp add: continues_def)
  moreover have "continues (esi_line d)" "continues (eip_line d)" "continues (cr_line d)"
    using RE_ESI_render [OF assms(1)] RE_EIP_render [OF assms(1)] RE_CR_render [OF assms(1)]
    by (simp_all add: continues_def)
  ultimately show ?thesis using assms(2) by (auto simp: dump_body_def)
qed

lemma head_not_continues: "\<not> continues (dump_head d)"
proof -
  obtain s where s: "dump_head d = CHR ''E'' # CHR ''A'' # s" using dump_head_E by blast
  show ?thesis unfolding s by (simp add: continues_def E_lines other_head DUMP_CONT_def)
qed

lemma bl [simp]: "\<not> is_ws c \<Longrightarrow> blanks (CHR '' '' # c # r) = Some (c # r)"
  by (simp add: blanks_one)

lemma plain_chars [simp]:
  "\<not> is_ws CHR ''c''" "\<not> is_ws CHR ''m''" "\<not> is_ws CHR ''0''" "\<not> is_ws CHR ''a''" "\<not> is_ws CHR ''v''"
  "\<not> is_ws CHR ''s''" "\<not> is_ws CHR ''n''" "\<not> is_ws CHR 0x27" "\<not> is_ws CHR ''e''" "\<not> is_ws CHR ''i''"
  "\<not> is_ws CHR ''I''" "\<not> is_ws CHR ''p''" "\<not> is_ws CHR ''S''" "\<not> is_hex CHR '' ''" "\<not> is_dec CHR '' ''"
  "\<not> is_hex CHR '':''"
  by (simp_all add: is_ws_def is_hex_def hexval_def is_dec_def decval_def digit_val_def)

lemma zero_dec [simp]: "decs (CHR ''0'' # CHR '' '' # r) = Some (0, CHR '' '' # r)"
  using decs_dec [of 0 "CHR '' '' # r"] by (simp add: dec_def digits.simps digit_char_def)

lemma zero_hex [simp]: "hexs (CHR ''0'' # CHR '' '' # r) = Some (0, CHR '' '' # r)"
  using hexs_digits [of 0 "CHR '' '' # r"] by (simp add: digits.simps digit_char_def)

lemma hex_55aa [simp]: "hexs (CHR ''5'' # CHR ''5'' # CHR ''a'' # CHR ''a'' # CHR '' '' # r) = Some (0x55aa, CHR '' '' # r)"
  using hexs_digits [of "0x55aa" "CHR '' '' # r"] by (simp add: digits.simps digit_char_def)

lemma dec_hd: "0 \<le> n \<Longrightarrow> \<exists>k r. 0 \<le> k \<and> k < 10 \<and> dec n = digit_char k # r"
proof -
  assume "0 \<le> n"
  moreover obtain c r where "digits 10 n = c # r" using digits_not_nil by (meson neq_Nil_conv)
  ultimately show ?thesis using digits_chars [of c 10 n] by (auto simp: dec_def)
qed

lemma blanks_dec [simp]: "0 \<le> n \<Longrightarrow> blanks (CHR '' '' # dec n @ r) = Some (dec n @ r)"
  using dec_hd [of n] digit_char_plain(4) by fastforce

lemma opt_minus_dec [simp]: "opt_minus (CHR ''0'' # r) = CHR ''0'' # r"
  by (simp add: opt_minus_def)

lemma region_span [simp]: "CHR 0x27 \<notin> set g \<Longrightarrow> span (\<lambda>c. c \<noteq> CHR 0x27) (g @ [CHR 0x27]) = (g, [CHR 0x27])"
  by (induction g) (auto simp: span_def)

lemma mro_render:
  assumes "access_ok a"
  shows "mro_at None (render_access ''read'' a) = Some (True, a)"
    "mro_at None (render_access ''write'' a) = Some (False, a)"
  using assms by (simp_all add: access_ok_def mro_at_def render_access_def hexs_digits decs_dec)

lemma search_first: "m None s = Some g \<Longrightarrow> re_search m None s = Some g"
  by (cases s) simp_all

lemma no_mro: "CHR ''m'' \<notin> set s \<Longrightarrow> re_search mro_at p s = None"
  by (induction s arbitrary: p) (auto simp: mro_at_def)

lemma no_vec: "CHR ''v'' \<notin> set s \<Longrightarrow> re_search vec_at p s = None"
  by (induction s arbitrary: p) (auto simp: vec_at_def)

lemma vec_at_no: "c \<noteq> CHR ''v'' \<Longrightarrow> vec_at p (c # s) = None" "c \<noteq> CHR ''='' \<Longrightarrow> vec_at p (CHR ''v'' # c # s) = None"
  by (auto simp: vec_at_def)

lemma hex_not_letter: "is_hex c \<Longrightarrow> c \<noteq> CHR ''m'' \<and> c \<noteq> CHR ''v''"
  by (auto simp: is_hex_def hexval_def digit_val_def)

lemma digits_no_letter: "2 \<le> b \<Longrightarrow> b \<le> 16 \<Longrightarrow> CHR ''m'' \<notin> set (digits b n) \<and> CHR ''v'' \<notin> set (digits b n)"
  using digits_hex hex_not_letter by blast

lemma seg_off_render:
  assumes "seg_off_ok t" "r \<noteq> [] \<Longrightarrow> \<not> is_hex (hd r)"
  shows "seg_off (t @ r) = Some (t, r)" "CHR ''m'' \<notin> set t"
proof -
  obtain a b where ab: "t = a @ '':'' @ b" "a \<noteq> []" "b \<noteq> []" "\<forall>c \<in> set (a @ b). is_hex c"
    using assms(1) by (auto simp: seg_off_ok_def)
  show "CHR ''m'' \<notin> set t" using ab(1,4) hex_not_letter by auto
  have "plus is_hex (a @ CHR '':'' # b @ r) = Some (a, CHR '':'' # b @ r)" using ab by (intro plus_span) auto
  moreover have "plus is_hex (b @ r) = Some (b, r)" using ab assms(2) by (intro plus_span) auto
  ultimately show "seg_off (t @ r) = Some (t, r)" using ab(1) by (simp add: seg_off_def)
qed

lemma dec_bit: "i \<in> {0, 1} \<Longrightarrow> dec i = (if i = 1 then ''1'' else ''0'')"
  by (auto simp: dec_def digits.simps digit_char_def)

lemma plus_bit [simp]: "plus is_dec (CHR ''0'' # CHR '' '' # r) = Some (''0'', CHR '' '' # r)"
  "plus is_dec (CHR ''1'' # CHR '' '' # r) = Some (''1'', CHR '' '' # r)"
  by (simp_all add: plus_def span_def is_dec_def decval_def digit_val_def)

lemma seg_off_hd: "seg_off_ok t \<Longrightarrow> \<exists>c r. t = c # r \<and> \<not> is_ws c"
proof -
  assume "seg_off_ok t"
  then obtain c r where c: "t = c # r" "is_hex c" by (auto simp: seg_off_ok_def neq_Nil_conv)
  then have "\<not> is_ws c"
    using of_nat_of_char [of c, where 'a = int] by (auto simp: is_hex_def hexval_def digit_val_def is_ws_def Let_def split: if_splits)
  then show ?thesis using c by blast
qed

lemma vec_render:
  assumes "event_ok (EvVec v)"
  shows "vec_at None (render_event (EvVec v)) = Some v" "re_search mro_at None (render_event (EvVec v)) = None"
proof -
  have v: "0 \<le> vl_vec v" "0 \<le> vl_err v" "vl_i v \<in> {0, 1}" "0 \<le> vl_cpl v" "seg_off_ok (vl_ip v)" "seg_off_ok (vl_sp v)"
    using assms by (simp_all add: event_ok_def)
  have ip: "seg_off (vl_ip v @ CHR '' '' # r) = Some (vl_ip v, CHR '' '' # r)" for r
    using seg_off_render(1) [OF v(5)] by simp
  have sp: "seg_off (vl_sp v) = Some (vl_sp v, [])" using seg_off_render(1) [OF v(6), of "[]"] by simp
  show "vec_at None (render_event (EvVec v)) = Some v"
    using v(1-4) by (auto simp: vec_at_def render_event_def hexs_digits decs_dec ip sp dec_bit)
  show "re_search mro_at None (render_event (EvVec v)) = None"
    using v seg_off_render(2) [OF v(5), of "[]"] seg_off_render(2) [OF v(6), of "[]"] digits_no_letter [of 16] digits_no_letter [of 10]
    by (intro no_mro) (auto simp: render_event_def dec_def)
qed

lemma hwint_render:
  assumes "0 \<le> v"
  shows "hwint_at None (render_event (EvHwint v)) = Some v" "re_search mro_at None (render_event (EvHwint v)) = None"
    "re_search vec_at None (render_event (EvHwint v)) = None"
proof -
  show "hwint_at None (render_event (EvHwint v)) = Some v"
    using hexs_digits [of v "[]"] assms by (simp add: hwint_at_def render_event_def)
  show "re_search mro_at None (render_event (EvHwint v)) = None"
    using digits_no_letter [of 16 v] by (intro no_mro) (auto simp: render_event_def)
  show "re_search vec_at None (render_event (EvHwint v)) = None"
    using digits_no_letter [of 16 v] by (simp add: render_event_def vec_at_no no_vec)
qed

definition apply_event :: "align_state \<Rightarrow> event \<Rightarrow> align_state" where
  "apply_event s e = (case e of
     EvRead a \<Rightarrow> s\<lparr> dev_in := dev_in s @ [a] \<rparr>
   | EvWrite a \<Rightarrow> s\<lparr> dma_wr := dma_wr s @ [a] \<rparr>
   | EvVec v \<Rightarrow> s\<lparr> cur_intr := Some (vec_intr v) \<rparr>
   | EvHwint v \<Rightarrow> (if cur_intr s = None then s\<lparr> cur_intr := Some (hw_intr v) \<rparr> else s))"

lemma attach_render: "event_ok e \<Longrightarrow> attach_event s (render_event e) = apply_event s e"
proof (cases e)
  case (EvVec v)
  assume "event_ok e"
  then show ?thesis
    using vec_render [of v] search_first [of vec_at "render_event e" v] EvVec
    by (simp add: attach_event_def apply_event_def vec_intr_def)
next
  case (EvHwint v)
  assume "event_ok e"
  then show ?thesis
    using hwint_render [of v] search_first [of hwint_at "render_event e" v] EvHwint
    by (simp add: attach_event_def apply_event_def hw_intr_def event_ok_def)
qed (simp_all add: attach_event_def apply_event_def render_event_def mro_render search_first event_ok_def)

lemma event_line: "\<not> continues (render_event e)" "RE_EAX (render_event e) = None"
proof -
  obtain c d t where "render_event e = c # d # t" "c \<in> {CHR ''m'', CHR ''v''} \<or> (c = CHR ''S'' \<and> d = CHR ''e'')"
    by (cases e) (auto simp: render_event_def render_access_def)
  then show "\<not> continues (render_event e)" "RE_EAX (render_event e) = None"
    by (auto simp: continues_def other_head DUMP_CONT_def)
qed

subsection \<open>The generator on a rendered log\<close>

definition out_list :: "align_state \<Rightarrow> aligned list" where
  "out_list s = (case fst (finalize_block s) of None \<Rightarrow> [] | Some r \<Rightarrow> [r])"

lemma finalize_twice: "fst (finalize_block (snd (finalize_block s))) = None" "snd (finalize_block (snd (finalize_block s))) = snd (finalize_block s)"
  "block (snd (finalize_block s)) = []"
  by (auto simp: finalize_block_def Let_def split: option.split)

definition opens :: "string list \<Rightarrow> bool" where
  "opens ls \<longleftrightarrow> (case ls of [] \<Rightarrow> True | l # _ \<Rightarrow> \<not> continues (rstrip_nl l))"

lemma align_loop_close:
  assumes "opens ls"
  shows "align_loop None n s ls = out_list s @ align_loop None n (snd (finalize_block s)) ls"
proof (cases ls)
  case Nil
  then show ?thesis by (simp add: out_list_def finalize_twice split: option.split)
next
  case (Cons l ls')
  have nc: "\<not> continues (rstrip_nl l)" using assms Cons by (simp add: opens_def)
  obtain o1 s1 where f: "finalize_block s = (o1, s1)" by fastforce
  have f1: "finalize_block s1 = (None, s1)" using finalize_twice [of s] by (simp add: f prod_eq_iff)
  show ?thesis
    using nc unfolding Cons
    by (simp add: align_line_def f f1 out_list_def align_loop_count [of "n + 1" _ _ n] split: option.split)
qed

lemma rstrip_line: "CHR 0x0A \<notin> set l \<Longrightarrow> rstrip_nl (l @ [CHR 0x0A]) = l"
  by (cases l rule: rev_cases) (auto simp: rstrip_nl_def)

lemma align_body:
  "\<forall>l \<in> set ls. continues l \<and> CHR 0x0A \<notin> set l \<Longrightarrow> block s \<noteq> [] \<Longrightarrow>
    align_loop None n s (map (\<lambda>l. l @ [CHR 0x0A]) ls @ rest) = align_loop None n (s\<lparr> block := block s @ ls \<rparr>) rest"
  by (induction ls arbitrary: s) (simp_all add: rstrip_line align_line_def)

lemma align_events:
  "\<forall>e \<in> set evs. event_ok e \<and> CHR 0x0A \<notin> set (render_event e) \<Longrightarrow> block s = [] \<Longrightarrow>
    align_loop None n s (map (\<lambda>l. l @ [CHR 0x0A]) (map render_event evs) @ rest) =
      align_loop None n (foldl apply_event s evs) rest"
proof (induction evs arbitrary: s)
  case (Cons e evs)
  have "block (apply_event s e) = []" using Cons.prems(2) by (simp add: apply_event_def split: event.split)
  moreover have "finalize_block s = (None, s)" using Cons.prems(2) by (simp add: finalize_block_def)
  ultimately show ?case
    using Cons by (simp add: rstrip_line align_line_def event_line attach_render)
qed simp

text \<open>Folding events into the buffers gives what the specification says.\<close>

lemma foldl_events:
  "dev_in (foldl apply_event s evs) = dev_in s @ reads_of evs"
  "dma_wr (foldl apply_event s evs) = dma_wr s @ writes_of evs"
  "pending (foldl apply_event s evs) = pending s" "block (foldl apply_event s evs) = block s"
  by (induction evs arbitrary: s) (simp_all add: apply_event_def reads_of_def writes_of_def split: event.split)

lemma foldl_intr:
  "cur_intr (foldl apply_event s evs) =
    (if vecs_of evs \<noteq> [] then Some (vec_intr (last (vecs_of evs)))
     else if cur_intr s \<noteq> None then cur_intr s
     else case hwints_of evs of [] \<Rightarrow> None | v # _ \<Rightarrow> Some (hw_intr v))"
  by (induction evs arbitrary: s)
    (auto simp: apply_event_def vecs_of_def hwints_of_def split: event.split list.split)

definition buffers_of :: "event list \<Rightarrow> align_state \<Rightarrow> bool" where
  "buffers_of evs s \<longleftrightarrow> dev_in s = reads_of evs \<and> dma_wr s = writes_of evs \<and> cur_intr s = intr_of evs"

lemma events_append:
  "reads_of (a @ b) = reads_of a @ reads_of b" "writes_of (a @ b) = writes_of a @ writes_of b"
  "vecs_of (a @ b) = vecs_of a @ vecs_of b" "hwints_of (a @ b) = hwints_of a @ hwints_of b"
  by (simp_all add: reads_of_def writes_of_def vecs_of_def hwints_of_def)

lemma buffers_step: "buffers_of lead s \<Longrightarrow> buffers_of (lead @ evs) (foldl apply_event s evs)"
  unfolding buffers_of_def foldl_events foldl_intr intr_of_def events_append
  by (cases "vecs_of evs"; cases "vecs_of lead"; cases "hwints_of lead") simp_all

definition enter_dump :: "cpu_state \<Rightarrow> align_state \<Rightarrow> align_state" where
  "enter_dump d s = (if pending s = None then s\<lparr> pending := Some d \<rparr>
     else s\<lparr> dev_in := [], dma_wr := [], cur_intr := None, pending := Some d \<rparr>)"

fun run :: "align_state \<Rightarrow> (cpu_state \<times> event list) list \<Rightarrow> aligned list" where
  "run s [] = []"
| "run s ((d, evs) # segs) =
    (case pending s of None \<Rightarrow> []
     | Some p \<Rightarrow> [\<lparr> al_pre = p, al_post = d, al_dev_in = dev_in s, al_dma_wr = dma_wr s, al_intr = cur_intr s \<rparr>]) @
    run (foldl apply_event (enter_dump d s) evs) segs"

lemma plain_no_nl [simp]: "CHR 0x0A \<notin> set (hex_pad w n)" "CHR 0x0A \<notin> set (dec n)" "CHR 0x0A \<notin> set (digits 16 n)"
proof -
  have d: "CHR 0x0A \<notin> set (digits b m)" if "2 \<le> b" "b \<le> 16" for b m
    using digits_hex [of "CHR 0x0A" b m] that by (auto simp: is_hex_def hexval_def digit_val_def)
  show "CHR 0x0A \<notin> set (hex_pad w n)" "CHR 0x0A \<notin> set (dec n)" "CHR 0x0A \<notin> set (digits 16 n)"
    using d by (simp_all add: hex_pad_def zfill_def dec_def)
qed

lemma dump_no_nl: "l \<in> set (render_dump d) \<Longrightarrow> CHR 0x0A \<notin> set l"
proof -
  have "\<forall>l \<in> set DT_LINES \<union> set DR_LINES. CHR 0x0A \<notin> set l" by (simp add: DT_LINES_def DR_LINES_def)
  moreover have "CHR 0x0A \<notin> set (render_seg nm d)" if "nm \<in> set SEG_NAMES" for nm
    using that by (auto simp: render_seg_def SEG_NAMES_def)
  moreover have "CHR 0x0A \<notin> set (dump_head d)" "CHR 0x0A \<notin> set (esi_line d)" "CHR 0x0A \<notin> set (eip_line d)"
    "CHR 0x0A \<notin> set (cr_line d)"
    by (simp_all add: dump_head_def esi_line_def eip_line_def cr_line_def render_four_def)
  moreover assume "l \<in> set (render_dump d)"
  ultimately show ?thesis by (auto simp: render_dump_def dump_body_def)
qed

definition segs_ok :: "(cpu_state \<times> event list) list \<Rightarrow> bool" where
  "segs_ok segs \<longleftrightarrow> (\<forall>(d, evs) \<in> set segs. dump_ok d \<and>
     (\<forall>e \<in> set evs. event_ok e \<and> CHR 0x0A \<notin> set (render_event e)))"

lemma finalize_dump:
  assumes "dump_ok d" "block s = []"
  shows "out_list (s\<lparr> block := render_dump d \<rparr>) = (case pending s of None \<Rightarrow> []
      | Some p \<Rightarrow> [\<lparr> al_pre = p, al_post = d, al_dev_in = dev_in s, al_dma_wr = dma_wr s, al_intr = cur_intr s \<rparr>])"
    "snd (finalize_block (s\<lparr> block := render_dump d \<rparr>)) = enter_dump d s"
proof -
  have "c_complete d" using assms(1) by (simp add: dump_ok_def)
  moreover have "render_dump d \<noteq> []" by (simp add: render_dump_def)
  ultimately show "out_list (s\<lparr> block := render_dump d \<rparr>) = (case pending s of None \<Rightarrow> []
      | Some p \<Rightarrow> [\<lparr> al_pre = p, al_post = d, al_dev_in = dev_in s, al_dma_wr = dma_wr s, al_intr = cur_intr s \<rparr>])"
    "snd (finalize_block (s\<lparr> block := render_dump d \<rparr>)) = enter_dump d s"
    using assms by (auto simp: out_list_def finalize_block_def Let_def parse_render_dump enter_dump_def
        split: option.split)
qed

definition segs_text :: "(cpu_state \<times> event list) list \<Rightarrow> string list" where
  "segs_text segs = map (\<lambda>l. l @ [CHR 0x0A]) (concat (map (\<lambda>(d, evs). render_dump d @ map render_event evs) segs))"

lemma segs_open: "segs_ok segs \<Longrightarrow> list_all (\<lambda>e. CHR 0x0A \<notin> set (render_event e)) evs \<Longrightarrow>
    opens (map (\<lambda>l. l @ [CHR 0x0A]) (map render_event evs) @ segs_text segs)"
proof (cases evs)
  case Nil
  assume ok: "segs_ok segs"
  show ?thesis
  proof (cases segs)
    case (Cons a segs')
    have "CHR 0x0A \<notin> set (dump_head (fst a))" using dump_no_nl [of "dump_head (fst a)" "fst a"] by (simp add: render_dump_def)
    then show ?thesis using Nil Cons by (cases a)
      (simp add: segs_text_def render_dump_def opens_def rstrip_line head_not_continues)
  qed (simp add: Nil segs_text_def opens_def)
qed (simp add: opens_def rstrip_line event_line)

lemma align_segs:
  "segs_ok segs \<Longrightarrow> block s = [] \<Longrightarrow> align_loop None n s (segs_text segs) = run s segs"
proof (induction segs arbitrary: s)
  case Nil
  then show ?case by (simp add: segs_text_def finalize_block_def)
next
  case (Cons a segs)
  obtain d evs where a: "a = (d, evs)" by (cases a)
  have ok: "dump_ok d" "\<forall>l \<in> set (render_dump d). CHR 0x0A \<notin> set l" "segs_ok segs"
    "\<forall>e \<in> set evs. event_ok e \<and> CHR 0x0A \<notin> set (render_event e)"
    using Cons.prems(1) dump_no_nl by (auto simp: segs_ok_def a)
  let ?rest = "map (\<lambda>l. l @ [CHR 0x0A]) (map render_event evs) @ segs_text segs"
  let ?s = "s\<lparr> block := render_dump d \<rparr>"
  have shape: "segs_text (a # segs) = (dump_head d @ [CHR 0x0A]) # map (\<lambda>l. l @ [CHR 0x0A]) (dump_body d) @ ?rest"
    by (simp add: segs_text_def a render_dump_def)
  have "align_line s (dump_head d) = (None, s\<lparr> block := [dump_head d] \<rparr>)"
    using Cons.prems(2) head_lines [OF ok(1)] by (simp add: align_line_def finalize_block_def)
  then have "align_loop None n s (segs_text (a # segs)) =
      align_loop None n (s\<lparr> block := [dump_head d] \<rparr>) (map (\<lambda>l. l @ [CHR 0x0A]) (dump_body d) @ ?rest)"
    unfolding shape using ok(2) by (simp add: rstrip_line render_dump_def)
  also have "\<dots> = align_loop None n ?s ?rest"
    using align_body [of "dump_body d" "s\<lparr> block := [dump_head d] \<rparr>" n ?rest] body_continues [OF ok(1)] ok(2)
    by (simp add: render_dump_def)
  also have "\<dots> = out_list ?s @ align_loop None n (enter_dump d s) ?rest"
    using align_loop_close [OF segs_open [OF ok(3)], of evs n ?s] ok(4) finalize_dump(2) [OF ok(1) Cons.prems(2)]
    by (simp add: list_all_iff)
  also have "align_loop None n (enter_dump d s) ?rest = align_loop None n (foldl apply_event (enter_dump d s) evs) (segs_text segs)"
    using ok(4) Cons.prems(2) by (intro align_events) (simp_all add: enter_dump_def)
  also have "\<dots> = run (foldl apply_event (enter_dump d s) evs) segs"
    using ok(3) Cons.prems(2) by (intro Cons.IH) (simp_all add: foldl_events enter_dump_def)
  finally show ?case by (simp add: a finalize_dump [OF ok(1) Cons.prems(2)])
qed

lemma expected_shift: "expected lead ((d, evs) # segs) = expected (lead @ evs) ((d, []) # segs)"
  by (cases segs) auto

lemma run_expected: "pending s = Some p \<Longrightarrow> buffers_of evs s \<Longrightarrow> run s segs = expected evs ((p, []) # segs)"
proof (induction segs arbitrary: s p evs)
  case (Cons a segs)
  obtain d evs' where a: "a = (d, evs')" by (cases a)
  have "buffers_of [] (enter_dump d s)"
    using Cons.prems(1) by (simp add: enter_dump_def buffers_of_def reads_of_def writes_of_def intr_of_def vecs_of_def hwints_of_def)
  then have "buffers_of evs' (foldl apply_event (enter_dump d s) evs')" using buffers_step [of "[]"] by simp
  moreover have "pending (foldl apply_event (enter_dump d s) evs') = Some d" by (simp add: foldl_events enter_dump_def)
  ultimately have "run (foldl apply_event (enter_dump d s) evs') segs = expected evs' ((d, []) # segs)" by (rule Cons.IH [rotated])
  then show ?case using Cons.prems expected_shift [of "[]" d evs' segs] by (simp add: a buffers_of_def)
qed simp

lemma rendered_records:
  assumes "segs_ok segs" "\<forall>e \<in> set lead. event_ok e \<and> CHR 0x0A \<notin> set (render_event e)"
  shows "iter_aligned None (render_log lead segs) = expected lead segs"
proof -
  let ?s = "foldl apply_event align_init lead"
  have "render_log lead segs = map (\<lambda>l. l @ [CHR 0x0A]) (map render_event lead) @ segs_text segs"
    by (simp add: render_log_def segs_text_def)
  then have "iter_aligned None (render_log lead segs) = align_loop None 0 ?s (segs_text segs)"
    using align_events [OF assms(2), of align_init 0 "segs_text segs"] by (simp add: iter_aligned_def align_init_def)
  also have "\<dots> = run ?s segs" using assms(1) by (intro align_segs) (simp_all add: foldl_events align_init_def)
  also have "\<dots> = expected lead segs"
  proof (cases segs)
    case (Cons a segs')
    obtain d evs where a: "a = (d, evs)" by (cases a)
    have p: "pending ?s = None" by (simp add: foldl_events align_init_def)
    have "buffers_of [] align_init"
      by (simp add: buffers_of_def align_init_def reads_of_def writes_of_def intr_of_def vecs_of_def hwints_of_def)
    from buffers_step [OF this, of lead] have "buffers_of lead (enter_dump d ?s)"
      using p by (simp add: buffers_of_def enter_dump_def)
    from buffers_step [OF this, of evs]
    have "run (foldl apply_event (enter_dump d ?s) evs) segs' = expected (lead @ evs) ((d, []) # segs')"
      by (intro run_expected) (simp_all add: foldl_events enter_dump_def)
    then show ?thesis by (simp add: Cons a p expected_shift [of lead d evs])
  qed simp
  finally show ?thesis .
qed


definition sample_dump :: "int \<Rightarrow> cpu_state" where
  "sample_dump pc = cpu_init\<lparr> c_eip := pc, c_eflags := 2, c_seg := map (\<lambda>k. (k, 0xf000)) seg_names,
     c_seg_base := map (\<lambda>k. (k, 0xf0000)) seg_names, c_seg_limit := map (\<lambda>k. (k, 0xffff)) seg_names,
     c_seg_attr := map (\<lambda>k. (k, 0x9b00)) seg_names, c_complete := True \<rparr>"

definition sample_read :: access where
  "sample_read = \<lparr> ac_addr = 0x60, ac_val = 0x1c, ac_size = 1, ac_region = ''kbd'' \<rparr>"


end
