(* ===== verification/Gen_Replay.thy ===== *)
theory Gen_Replay
  imports Gen_Syscall Replay_Log
begin

text \<open>
  The input-replay producer \<open>generate_system_replay\<close> of verif/qemu-trace/gen_trace.py: the initial
  physical memory image read at the reset stop (pass A), the polling of the growing replay log, and
  the conversion of that log into trace records with their environment inputs (pass B).
\<close>

subsection \<open>Pass A: the initial physical memory\<close>

definition INIT_MEM_REGIONS :: "(int \<times> int) list" where
  "INIT_MEM_REGIONS = [(0x000000, 0x10000), (0x0C0000, 0x40000), (0xFFFC0000, 0x40000)]"

record replay_args =
  ra_overlay :: string
  ra_rrfile :: string
  ra_image :: bool
  ra_max :: "int option"
  ra_ram_mb :: int
  ra_cpu :: string
  ra_shift :: string

definition region_size :: "json \<Rightarrow> int" where
  "region_size r = (case r of JDict d \<Rightarrow> (case map_of d ''hex'' of
       Some (JStr h) \<Rightarrow> (case fromhex h of Some bs \<Rightarrow> int (length bs) | None \<Rightarrow> 0) | _ \<Rightarrow> 0) | _ \<Rightarrow> 0)"

fun phys_regions :: "'q peer \<Rightarrow> json list \<Rightarrow> int \<Rightarrow> (int \<times> int) list \<Rightarrow> ('q rsp, json list \<times> int) io" where
  "phys_regions P regions n_bytes [] = retIO (regions, n_bytes)"
| "phys_regions P regions n_bytes ((paddr, len) # rs) =
    bindIO (append_phys_region P regions paddr len) (\<lambda>regions'.
      phys_regions P regions' (n_bytes + sum_list (map region_size (drop (length regions) regions'))) rs)"

definition image_note :: string where
  "image_note = ''M7.3a Win95 initial physical-memory image: paddr-keyed BIOS '' @
     ''ROM + IVT/BDA + low RAM at the reset stop (F000:FFF0). The '' @
     ''RTL loads these phys regions, sets the reset CS:EIP, then '' @
     ''runs the .vtrace replaying dev_in/intr/dma_wr per record.''"

definition phys_meta :: "replay_args \<Rightarrow> reg_layout \<Rightarrow> int list \<Rightarrow> int \<Rightarrow> json" where
  "phys_meta a l raw n_bytes =
    (let f = regs_to_fields l raw;
         cr0 = h32 (case map_of (sysregs_from_raw l raw) ''cr0'' of None \<Rightarrow> 0 | Some v \<Rightarrow> v)
     in JDict [(''producer'', JStr ''qemu-system-replay-initmem''), (''cpu'', JStr (ra_cpu a)), (''ram_mb'', JInt (ra_ram_mb a)),
          (''reset_cs_eip'', JStr (hex_pad 4 (the (map_of (ar_seg f) ''cs'')) @ '':'' @ hex_pad 8 (ar_eip f))),
          (''cr0'', JStr cr0),
          (''regions_spec'', JList (map (\<lambda>(p, len). JList [JStr (h32 p), JInt len]) INIT_MEM_REGIONS)),
          (''bytes_captured'', JInt n_bytes), (''note'', JStr image_note)])"

definition phys_image :: "'q peer \<Rightarrow> replay_args \<Rightarrow> ('q rsp, json) io" where
  "phys_image P a = bindIO (handshake P) (\<lambda>_. bindIO (discover_layout P) (\<lambda>l. bindIO (read_g P) (\<lambda>raw.
     let l = anchor_tail l (int (length raw)); f = regs_to_fields l raw;
         regs = map (\<lambda>k. (k, JStr (h32 (the (map_of (ar_gpr f) k))))) GPR_KEYS @
           [(''eip'', JStr (h32 (ar_eip f))), (''eflags'', JStr (h32 (ar_eflags f)))];
         seg = map (\<lambda>k. (k, JStr (h16 (the (map_of (ar_seg f) k))))) SEG_KEYS
     in bindIO (phys_regions P [] 0 INIT_MEM_REGIONS) (\<lambda>(regions, n_bytes).
       retIO (JDict [(''regs'', JDict regs), (''seg'', JDict seg), (''seg_base'', JDict []),
         (''regions'', JList regions), (''meta'', phys_meta a l raw n_bytes)])))))"

definition is_rsp_error :: "rsp_error \<Rightarrow> bool" where
  "is_rsp_error e = (case e of RspTimedOut \<Rightarrow> True | RspClosed \<Rightarrow> True | RspNak p \<Rightarrow> True | _ \<Rightarrow> False)"

definition capture_initial_phys_mem :: "'q peer \<Rightarrow> replay_args \<Rightarrow> ('q world, json option) io" where
  "capture_initial_phys_mem P a = finally_kill P (\<lambda>w. map_option (\<lambda>(r, w). (case r of
       Inl e \<Rightarrow> if is_rsp_error e then Inr None else Inl e | Inr img \<Rightarrow> Inr (Some img), w)) (onRsp (phys_image P a) w))"

subsection \<open>Pass B: waiting for the log\<close>

fun count_dumps_from :: "int \<Rightarrow> int \<Rightarrow> string list \<Rightarrow> int" where
  "count_dumps_from limit n [] = n"
| "count_dumps_from limit n (line # ls) =
    (if startswith line ''EAX='' then if n + 1 \<ge> limit then n + 1 else count_dumps_from limit (n + 1) ls
     else count_dumps_from limit n ls)"

definition count_eax_dumps :: "string list \<Rightarrow> int \<Rightarrow> int" where
  "count_eax_dumps f limit = count_dumps_from limit 0 f"

text \<open>
  The replay that is polled: whether QEMU has exited at the \<open>i\<close>-th poll and what the log holds then
  (\<open>None\<close> when it cannot be opened). The poll waits half a second and \<open>waited\<close> counts those halves.
\<close>

record replay_run =
  rr_exited :: "nat \<Rightarrow> bool"
  rr_log :: "nat \<Rightarrow> string list option"

definition CAP_POLLS :: nat where "CAP_POLLS = 180"

definition enough_dumps :: "replay_run \<Rightarrow> int option \<Rightarrow> nat \<Rightarrow> bool" where
  "enough_dumps R wanted i = (case wanted of None \<Rightarrow> False
     | Some k \<Rightarrow> (case rr_log R i of None \<Rightarrow> 0 | Some f \<Rightarrow> count_eax_dumps f k) \<ge> k)"

function poll_replay :: "replay_run \<Rightarrow> int option \<Rightarrow> nat \<Rightarrow> nat" where
  "poll_replay R wanted waited =
    (if rr_exited R waited then waited else if waited \<ge> CAP_POLLS then waited
     else if enough_dumps R wanted waited then waited else poll_replay R wanted (waited + 1))"
  by pat_completeness auto
termination by (relation "measure (\<lambda>(R, wanted, waited). CAP_POLLS - waited)") auto

declare poll_replay.simps [simp del]

subsection \<open>Pass B: the records\<close>

definition cpu_attr :: "cpu_state \<Rightarrow> string \<Rightarrow> int" where
  "cpu_attr st k = the (map_of [(''eax'', c_eax st), (''ecx'', c_ecx st), (''edx'', c_edx st), (''ebx'', c_ebx st),
     (''esp'', c_esp st), (''ebp'', c_ebp st), (''esi'', c_esi st), (''edi'', c_edi st),
     (''cr0'', c_cr0 st), (''cr2'', c_cr2 st), (''cr3'', c_cr3 st), (''cr4'', c_cr4 st)] k)"

definition hidden_fields :: "cpu_state \<Rightarrow> (string, int) dict \<Rightarrow> string \<Rightarrow> (string, int) dict result" where
  "hidden_fields st sysr k = (case map_of (c_seg_base st) k of
     None \<Rightarrow> Inr sysr
   | Some base \<Rightarrow> bindE (of_option KeyError (map_of (c_seg_limit st) k)) (\<lambda>limit.
       Inr (sysr @ [(k @ ''_base'', base AND 0xFFFFFFFF), (k @ ''_limit'', limit AND 0xFFFFFFFF),
         (k @ ''_attr'', drop_bit 8 (case map_of (c_seg_attr st) k of None \<Rightarrow> 0 | Some v \<Rightarrow> v) AND 0xFFFF)])))"

definition seg_fields_from_state :: "cpu_state \<Rightarrow> ((string, int) dict \<times> (string, int) dict) result" where
  "seg_fields_from_state st =
    (let seg = map (\<lambda>k. (k, (case map_of (c_seg st) k of None \<Rightarrow> 0 | Some v \<Rightarrow> v) AND 0xFFFF)) SEG_KEYS
     in bindE (foldE (hidden_fields st) (map (\<lambda>k. (k, cpu_attr st k AND 0xFFFFFFFF)) SYS_CR) SEG_KEYS)
          (\<lambda>sysr. Inr (seg, sysr)))"

definition dev_of :: "access \<Rightarrow> dev_access" where
  "dev_of x = \<lparr> dev_addr = ac_addr x, dev_val = ac_val x, dev_size = ac_size x, dev_region = Some (ac_region x) \<rparr>"

definition inputs_of :: "aligned \<Rightarrow> json list option \<times> json list option \<times> jdict option" where
  "inputs_of r =
    (if al_dev_in r = [] then None else Some (dev_in_field (Some (map dev_of (al_dev_in r)))),
     if al_dma_wr r = [] then None else Some (dma_wr_field (Some (map dev_of (al_dma_wr r)))),
     map_option (\<lambda>iv. intr_field (in_vec iv) (in_err iv) (Some (in_soft iv)) (in_cpl iv) (in_ip iv) (in_sp iv)) (al_intr r))"

definition replay_record :: "int \<Rightarrow> aligned \<Rightarrow> jdict result" where
  "replay_record n r =
    (let post = al_post r; (dev_in, dma_wr, intr) = inputs_of r
     in bindE (seg_fields_from_state post) (\<lambda>(seg, sysr).
          func_record n (c_eip (al_pre r)) (c_eflags post) (map (\<lambda>k. (k, cpu_attr post k)) GPR_KEYS) seg
            (no_opts\<lparr> fo_sysregs := Some sysr, fo_dev_in := dev_in, fo_intr := intr, fo_dma_wr := dma_wr \<rparr>)))"

record replay_counts =
  rc_emitted :: int
  rc_dev_in :: int
  rc_intr :: int
  rc_dma_wr :: int

definition count_inputs :: "replay_counts \<Rightarrow> aligned \<Rightarrow> replay_counts" where
  "count_inputs c r = (let (dev_in, dma_wr, intr) = inputs_of r
     in \<lparr> rc_emitted = rc_emitted c + 1,
          rc_dev_in = rc_dev_in c + (case dev_in of None \<Rightarrow> 0 | Some xs \<Rightarrow> int (length xs)),
          rc_intr = rc_intr c + (if intr \<noteq> None then 1 else 0),
          rc_dma_wr = rc_dma_wr c + (case dma_wr of None \<Rightarrow> 0 | Some xs \<Rightarrow> int (length xs)) \<rparr>)"

fun replay_loop :: "replay_counts \<Rightarrow> aligned list \<Rightarrow> ('q world, replay_counts) io" where
  "replay_loop c [] = retIO c"
| "replay_loop c (r # rs) = bindIO (liftE (replay_record (rc_emitted c) r)) (\<lambda>rec.
     bindIO (write_line (JDict rec)) (\<lambda>_. replay_loop (count_inputs c r) rs))"

definition replay_header :: "replay_args \<Rightarrow> jdict result" where
  "replay_header a = header ''qemu-system-replay'' ''func'' False True
     (''win95 system-replay rrfile='' @ basename (ra_rrfile a) @ '' shift='' @ ra_shift a @
      '' one-insn-per-tb -d cpu,int,memory_region_ops'')"

definition no_counts :: replay_counts where
  "no_counts = \<lparr> rc_emitted = 0, rc_dev_in = 0, rc_intr = 0, rc_dma_wr = 0 \<rparr>"

text \<open>Pass B on the log as it is when QEMU has been stopped.\<close>

definition replay_pass_b :: "replay_args \<Rightarrow> string list \<Rightarrow> ('q world, replay_counts) io" where
  "replay_pass_b a f = bindIO (liftE (replay_header a)) (\<lambda>h. bindIO (write_line (JDict h)) (\<lambda>_.
     replay_loop no_counts (iter_aligned (ra_max a) f)))"

definition generate_system_replay :: "'q peer \<Rightarrow> replay_args \<Rightarrow> replay_run \<Rightarrow> (nat \<Rightarrow> string list) \<Rightarrow> ('q world, replay_counts) io" where
  "generate_system_replay P a R final = bindIO
     (if ra_image a then bindIO (capture_initial_phys_mem P a) (\<lambda>img. case img of None \<Rightarrow> retIO () | Some j \<Rightarrow> write_image j)
      else retIO ())
     (\<lambda>_. replay_pass_b a (final (poll_replay R (map_option (\<lambda>m. m + 64) (ra_max a)) 0)))"

subsection \<open>Polling\<close>

lemma poll_from:
  "waited \<le> CAP_POLLS \<Longrightarrow> let i = poll_replay R wanted waited in waited \<le> i \<and> i \<le> CAP_POLLS \<and>
    (rr_exited R i \<or> i = CAP_POLLS \<or> enough_dumps R wanted i) \<and>
    (\<forall>j. waited \<le> j \<and> j < i \<longrightarrow> \<not> rr_exited R j \<and> \<not> enough_dumps R wanted j)"
proof (induction R wanted waited rule: poll_replay.induct)
  case (1 R wanted waited)
  show ?case
  proof (cases "rr_exited R waited \<or> waited \<ge> CAP_POLLS \<or> enough_dumps R wanted waited")
    case True
    then have "poll_replay R wanted waited = waited" by (auto simp: poll_replay.simps [of R wanted waited])
    then show ?thesis using 1(2) True by (simp add: Let_def) auto
  next
    case False
    then have eq: "poll_replay R wanted waited = poll_replay R wanted (waited + 1)" by (simp add: poll_replay.simps [of R wanted waited])
    have "let i = poll_replay R wanted (waited + 1) in waited + 1 \<le> i \<and> i \<le> CAP_POLLS \<and>
        (rr_exited R i \<or> i = CAP_POLLS \<or> enough_dumps R wanted i) \<and>
        (\<forall>j. waited + 1 \<le> j \<and> j < i \<longrightarrow> \<not> rr_exited R j \<and> \<not> enough_dumps R wanted j)"
      using False by (intro 1(1)) auto
    moreover have "j = waited \<or> waited + 1 \<le> j" if "waited \<le> j" for j using that by arith
    ultimately show ?thesis using False unfolding eq Let_def by (metis Suc_eq_plus1 Suc_leD not_less_eq_eq order_refl)
  qed
qed

text \<open>
  C18. The poll of the replay always ends, after at most ninety seconds of waiting, and it ends at the
  first moment at which QEMU has exited or the log holds enough register dumps.
\<close>

theorem poll_replay_stops:
  "let i = poll_replay R wanted 0 in i \<le> 180 \<and> (rr_exited R i \<or> i = 180 \<or> enough_dumps R wanted i) \<and>
    (\<forall>j < i. \<not> rr_exited R j \<and> \<not> enough_dumps R wanted j)"
  using poll_from [of 0 R wanted] by (simp add: Let_def CAP_POLLS_def)

definition growing :: replay_run where
  "growing = \<lparr> rr_exited = (\<lambda>i. i = 7), rr_log = (\<lambda>i. Some (replicate i ''EAX='')) \<rparr>"

theorem poll_replay_stops_witness:
  "let i = poll_replay growing (Some 3) 0 in i \<le> 180 \<and> (rr_exited growing i \<or> i = 180 \<or> enough_dumps growing (Some 3) i) \<and>
    (\<forall>j < i. \<not> rr_exited growing j \<and> \<not> enough_dumps growing (Some 3) j)"
  by (rule poll_replay_stops)

subsection \<open>An early stop\<close>

text \<open>What the generator yields from a prefix of a log does not depend on the rest, the flush of the last block apart.\<close>

lemma align_prefix:
  "\<exists>pre. (\<exists>e. align_loop None n s ls = pre @ e \<and> length e \<le> 1) \<and> (\<forall>xs. \<exists>ys. align_loop None n s (ls @ xs) = pre @ ys)"
proof (induction ls arbitrary: n s)
  case Nil
  then show ?case by (intro exI [of _ "[]"]) (simp split: option.split)
next
  case (Cons line ls)
  obtain out s' where a: "align_line s (rstrip_nl line) = (out, s')" by fastforce
  show ?case
  proof (cases out)
    case None
    then show ?thesis using Cons [of n s'] a by simp
  next
    case (Some r)
    obtain pre where pre: "\<exists>e. align_loop None (n + 1) s' ls = pre @ e \<and> length e \<le> 1"
      "\<forall>xs. \<exists>ys. align_loop None (n + 1) s' (ls @ xs) = pre @ ys" using Cons [of "n + 1" s'] by blast
    then show ?thesis using a Some by (intro exI [of _ "r # pre"]) auto
  qed
qed

lemma limit_ignores_rest:
  assumes "int (length (iter_aligned None ls)) > m" "m \<ge> 1"
  shows "iter_aligned (Some m) (ls @ xs) = take (nat m) (iter_aligned None ls)"
proof -
  obtain pre e where pre: "iter_aligned None ls = pre @ e" "length e \<le> 1" "\<forall>xs. \<exists>ys. iter_aligned None (ls @ xs) = pre @ ys"
    unfolding iter_aligned_def using align_prefix [of 0 align_init ls] by blast
  obtain ys where "iter_aligned None (ls @ xs) = pre @ ys" using pre(3) by blast
  moreover have "nat m \<le> length pre" using assms pre(1,2) by simp
  moreover have "iter_aligned (Some m) (ls @ xs) = take (nat m) (iter_aligned None (ls @ xs))"
    using align_loop_limit [of 0 m align_init "ls @ xs" 0] assms(2) by (simp add: iter_aligned_def)
  ultimately show ?thesis using pre(1) by simp
qed

lemma length_expected: "length (expected lead segs) = length segs - 1"
  by (induction lead segs rule: expected.induct) auto

abbreviation anchors :: "string list \<Rightarrow> string list" where
  "anchors ls \<equiv> filter (\<lambda>l. startswith l ''EAX='') ls"

lemma count_le: "count_dumps_from limit n ls \<le> n + int (length (anchors ls))"
proof (induction ls arbitrary: n)
  case (Cons l ls)
  show ?case using Cons [of n] Cons [of "n + 1"] by auto
qed simp

lemma event_no_anchor: "anchors (map (\<lambda>l. l @ [CHR 0x0A]) (map render_event evs)) = []"
  by (induction evs) (simp_all add: render_event_def render_access_def split: event.split)

lemma dump_one_anchor: "length (anchors (map (\<lambda>l. l @ [CHR 0x0A]) (render_dump d))) = 1"
  by (simp add: render_dump_def dump_head_def dump_body_def render_four_def esi_line_def eip_line_def cr_line_def
      SEG_NAMES_def render_seg_def DT_LINES_def DR_LINES_def)

lemma anchors_log: "length (anchors (render_log lead segs)) = length segs"
proof -
  have "length (anchors (map (\<lambda>l. l @ [CHR 0x0A]) (concat (map (\<lambda>(d, evs). render_dump d @ map render_event evs) segs)))) = length segs"
  proof (induction segs)
    case (Cons a segs)
    then show ?case by (cases a) (simp only: list.map concat.simps prod.case map_append filter_append length_append
        dump_one_anchor event_no_anchor list.size)
  qed simp
  then show ?thesis by (simp only: render_log_def map_append filter_append length_append event_no_anchor list.size)
qed

text \<open>
  C15. Stopping the replay early loses nothing. Once the poll has counted the limit plus 64 register
  dumps in the log (its last dump and line may be incomplete), the trace that is written, whatever
  QEMU still appends before it is terminated, is the one that a complete replay gives: the first
  \<open>m\<close> records of the logged dumps and events.
\<close>

theorem early_stop_same_trace:
  assumes "ra_max a = Some m" "1 \<le> m" "segs_ok segs"
    and "\<forall>e \<in> set lead. event_ok e \<and> CHR 0x0A \<notin> set (render_event e)"
    and "rr_log R i = Some (render_log lead segs @ tail)" "length (anchors tail) \<le> 1"
    and "enough_dumps R (Some (m + 64)) i"
  shows "replay_pass_b a (render_log lead segs @ rest) =
    bindIO (liftE (replay_header a)) (\<lambda>h. bindIO (write_line (JDict h)) (\<lambda>_.
      replay_loop no_counts (take (nat m) (expected lead segs))))"
proof -
  have "m + 64 \<le> count_eax_dumps (render_log lead segs @ tail) (m + 64)" using assms(5,7) by (simp add: enough_dumps_def)
  also have "\<dots> \<le> int (length segs) + int (length (anchors tail))"
    using count_le [of "m + 64" 0 "render_log lead segs @ tail"] by (simp add: count_eax_dumps_def anchors_log)
  finally have "int (length (expected lead segs)) > m" using assms(2,6) by (simp add: length_expected)
  then have "iter_aligned (Some m) (render_log lead segs @ rest) = take (nat m) (expected lead segs)"
    using limit_ignores_rest [of m "render_log lead segs" rest] assms(2) rendered_records [OF assms(3,4)] by simp
  then show ?thesis by (simp add: replay_pass_b_def assms(1))
qed

theorem early_stop_same_trace_witness:
  "replay_pass_b \<lparr> ra_overlay = [], ra_rrfile = ''a.rr'', ra_image = False, ra_max = Some 1, ra_ram_mb = 64, ra_cpu = ''486'', ra_shift = ''2'' \<rparr>
      (render_log [EvHwint 8] (replicate 66 (sample_dump 0x7c00, [])) @ [''EA'']) =
    bindIO (liftE (replay_header \<lparr> ra_overlay = [], ra_rrfile = ''a.rr'', ra_image = False, ra_max = Some 1, ra_ram_mb = 64,
        ra_cpu = ''486'', ra_shift = ''2'' \<rparr>)) (\<lambda>h. bindIO (write_line (JDict h)) (\<lambda>_.
      replay_loop no_counts (take (nat 1) (expected [EvHwint 8] (replicate 66 (sample_dump 0x7c00, []))))))"
proof (rule early_stop_same_trace [where R = "\<lparr> rr_exited = (\<lambda>i. False),
      rr_log = (\<lambda>i. Some (render_log [EvHwint 8] (replicate 66 (sample_dump 0x7c00, [])) @ [''EAX=00''])) \<rparr>" and i = 0 and tail = "[''EAX=00'']"])
  show "segs_ok (replicate 66 (sample_dump 0x7c00, []))"
    by (simp add: segs_ok_def dump_ok_def sample_dump_def cpu_init_def h32ok_def seg_names_def)
  have count: "count_dumps_from k n ls \<ge> min k (n + int (length (anchors ls)))" for k n ls
  proof (induction ls arbitrary: n)
    case (Cons l ls)
    show ?case using Cons [of n] Cons [of "n + 1"] by auto
  qed simp
  show "enough_dumps \<lparr> rr_exited = (\<lambda>i. False),
      rr_log = (\<lambda>i. Some (render_log [EvHwint 8] (replicate 66 (sample_dump 0x7c00, [])) @ [''EAX=00''])) \<rparr> (Some (1 + 64)) 0"
    using count [of 65 0 "render_log [EvHwint 8] (replicate 66 (sample_dump 0x7c00, [])) @ [''EAX=00'']"]
    by (simp only: enough_dumps_def count_eax_dumps_def filter_append length_append anchors_log option.case replay_run.simps length_replicate) simp
qed (simp_all add: event_ok_def render_event_def)

subsection \<open>The records of a log\<close>

lemma parse_block_segments:
  "fst ` set (c_seg_limit (parse_block b)) = fst ` set (c_seg_base (parse_block b))"
proof -
  have step: "fst ` set (c_seg_limit (parse_dump_line st l)) = fst ` set (c_seg_base (parse_dump_line st l))"
    if "fst ` set (c_seg_limit st) = fst ` set (c_seg_base st)" for st l
    using that by (auto simp: parse_dump_line_def Let_def keys_dset split: option.splits prod.splits)
  have "fst ` set (c_seg_limit (foldl parse_dump_line st b)) = fst ` set (c_seg_base (foldl parse_dump_line st b))"
    if "fst ` set (c_seg_limit st) = fst ` set (c_seg_base st)" for st
    using that step by (induction b arbitrary: st) auto
  then show ?thesis by (simp add: parse_block_def cpu_init_def)
qed

lemma finalize_parsed: "fst (finalize_block s) = Some r \<Longrightarrow> \<exists>b. al_post r = parse_block b"
  by (auto simp: finalize_block_def Let_def split: if_splits option.splits)

lemma align_parsed: "r \<in> set (align_loop m n s ls) \<Longrightarrow> \<exists>b. al_post r = parse_block b"
proof (induction ls arbitrary: n s)
  case Nil
  then show ?case using finalize_parsed by (auto split: option.splits if_splits)
next
  case (Cons line ls)
  obtain out s' where a: "align_line s (rstrip_nl line) = (out, s')" by fastforce
  have "\<exists>b. al_post q = parse_block b" if "out = Some q" for q
    using a that finalize_parsed [of s q] by (auto simp: align_line_def split: if_splits prod.splits)
  then show ?case using Cons a by (cases out) (auto split: if_splits option.splits)
qed

lemma hidden_ok:
  assumes "fst ` set (c_seg_limit st) = fst ` set (c_seg_base st)"
  shows "\<exists>xs. foldE (hidden_fields st) sysr ks = Inr (sysr @ xs)"
proof (induction ks arbitrary: sysr)
  case (Cons k ks)
  show ?case
  proof (cases "map_of (c_seg_base st) k")
    case None
    then show ?thesis using Cons by (simp add: hidden_fields_def [of st sysr k])
  next
    case (Some base)
    then have "map_of (c_seg_limit st) k \<noteq> None"
      using assms by (metis map_of_eq_None_iff option.distinct(1))
    then obtain limit where "map_of (c_seg_limit st) k = Some limit" by blast
    then have "\<exists>ys. hidden_fields st sysr k = Inr (sysr @ ys)" using Some by (simp add: hidden_fields_def)
    then obtain ys where "hidden_fields st sysr k = Inr (sysr @ ys)" by blast
    then show ?thesis using Cons [of "sysr @ ys"] by auto
  qed
qed simp

text \<open>The value of a graded field of the record for \<open>r\<close>: registers of the dump after the instruction.\<close>

definition dump_field :: "aligned \<Rightarrow> string \<Rightarrow> json" where
  "dump_field r k = JStr (
    if k = ''pc'' then h32 (c_eip (al_pre r)) else if k = ''eflags'' then h32 (c_eflags (al_post r))
    else if k \<in> set SEG_KEYS then h16 (case map_of (c_seg (al_post r)) k of None \<Rightarrow> 0 | Some v \<Rightarrow> v)
    else h32 (cpu_attr (al_post r) k))"

lemma hx_masked: "h32 (v AND 0xFFFFFFFF) = h32 v" "h16 (v AND 0xFFFF) = h16 v"
  by (simp_all add: h32_def h16_def hx_def and.assoc)

lemma map_of_keys: "map_of (map (\<lambda>k. (k, f k)) ks) k = (if k \<in> set ks then Some (f k) else None)"
  by (induction ks) auto

lemma replay_record_ok:
  assumes "fst ` set (c_seg_limit (al_post r)) = fst ` set (c_seg_base (al_post r))"
  shows "\<exists>rec. replay_record n r = Inr rec \<and> map_of rec ''n'' = Some (JInt n) \<and>
    (\<forall>k \<in> set (func_compare_keys False True). map_of rec k = Some (dump_field r k))"
proof -
  let ?st = "al_post r" and ?seg = "map (\<lambda>k. (k, (case map_of (c_seg (al_post r)) k of None \<Rightarrow> 0 | Some v \<Rightarrow> v) AND 0xFFFF)) SEG_KEYS"
  obtain xs where xs: "seg_fields_from_state ?st = Inr (?seg, map (\<lambda>k. (k, cpu_attr ?st k AND 0xFFFFFFFF)) SYS_CR @ xs)"
    using hidden_ok [OF assms, of "map (\<lambda>k. (k, cpu_attr ?st k AND 0xFFFFFFFF)) SYS_CR" SEG_KEYS]
    unfolding seg_fields_from_state_def Let_def by (elim exE) (simp only: bindE_simps)
  obtain d i w where io: "inputs_of r = (d, w, i)" by (cases "inputs_of r")
  let ?sys = "map (\<lambda>k. (k, cpu_attr ?st k AND 0xFFFFFFFF)) SYS_CR @ xs"
  let ?opts = "no_opts\<lparr> fo_sysregs := Some ?sys, fo_dev_in := d, fo_intr := i, fo_dma_wr := w \<rparr>"
  let ?gpr = "map (\<lambda>k. (k, cpu_attr ?st k)) GPR_KEYS"
  have rec: "replay_record n r = func_record n (c_eip (al_pre r)) (c_eflags ?st) ?gpr ?seg ?opts"
    unfolding replay_record_def Let_def io by (simp add: xs)
  obtain rec where r: "func_record n (c_eip (al_pre r)) (c_eflags ?st) ?gpr ?seg ?opts = Inr rec"
    "\<forall>k \<in> set (func_compare_keys True True). map_of rec k = graded_field (c_eip (al_pre r)) (c_eflags ?st) ?gpr ?seg None (Some ?sys) k"
    using func_record_holds [of ?gpr ?seg ?opts n "c_eip (al_pre r)" "c_eflags ?st"] by (auto simp: image_image no_opts_def)
  have "map_of rec k = Some (dump_field r k)" if k: "k \<in> set (func_compare_keys False True)" for k
  proof -
    have "k = ''pc'' \<or> k = ''eflags'' \<or> k \<in> set GPR_KEYS \<or> k \<in> set SEG_KEYS \<or> k \<in> set SYS_CR"
      using k by (auto simp: func_compare_keys_def)
    moreover have "k \<in> set (func_compare_keys True True)" using k by (auto simp: func_compare_keys_def)
    ultimately show ?thesis
      using r(2) key_groups(1,2) key_groups(3-7) [of k]
      by (elim disjE) (auto simp: graded_field_def Let_def dump_field_def map_of_keys hx_masked hx_masked [unfolded h32_def h16_def] h32_def h16_def)
  qed
  then show ?thesis using r(1) rec func_record_n [OF r(1)] by auto
qed

definition records_of :: "int \<Rightarrow> aligned list \<Rightarrow> jdict list \<Rightarrow> bool" where
  "records_of n als rs \<longleftrightarrow> length rs = length als \<and> (\<forall>i < length als. map_of (rs ! i) ''n'' = Some (JInt (n + int i)) \<and>
     (\<forall>k \<in> set (func_compare_keys False True). map_of (rs ! i) k = Some (dump_field (als ! i) k)))"

lemma records_Cons:
  assumes "map_of rec ''n'' = Some (JInt n)" "\<forall>k \<in> set (func_compare_keys False True). map_of rec k = Some (dump_field r k)"
    and "records_of (n + 1) als rs"
  shows "records_of n (r # als) (rec # rs)"
  using assms unfolding records_of_def by (auto simp: nth_Cons algebra_simps split: nat.split)

definition totals :: "replay_counts \<Rightarrow> aligned list \<Rightarrow> replay_counts" where
  "totals c als = \<lparr> rc_emitted = rc_emitted c + int (length als),
     rc_dev_in = rc_dev_in c + int (length (concat (map al_dev_in als))),
     rc_intr = rc_intr c + int (length (filter (\<lambda>r. al_intr r \<noteq> None) als)),
     rc_dma_wr = rc_dma_wr c + int (length (concat (map al_dma_wr als))) \<rparr>"

lemma totals_Cons: "totals c (r # als) = totals (count_inputs c r) als"
  by (simp add: totals_def count_inputs_def inputs_of_def Let_def dev_in_field_def dma_wr_field_def)

lemma replay_loop_records:
  assumes "\<forall>r \<in> set als. fst ` set (c_seg_limit (al_post r)) = fst ` set (c_seg_base (al_post r))"
  shows "\<exists>rs w'. replay_loop c als w = Some (Inr (totals c als), w') \<and> w_out w' = w_out w @ map line_of rs \<and>
    records_of (rc_emitted c) als rs"
  using assms
proof (induction als arbitrary: c w)
  case Nil
  then show ?case by (simp add: totals_def records_of_def)
next
  case (Cons r als)
  obtain rec where rec: "replay_record (rc_emitted c) r = Inr rec" "map_of rec ''n'' = Some (JInt (rc_emitted c))"
    "\<forall>k \<in> set (func_compare_keys False True). map_of rec k = Some (dump_field r k)"
    using replay_record_ok [of r "rc_emitted c"] Cons.prems by auto
  let ?w = "w\<lparr> w_out := w_out w @ [line_of rec] \<rparr>"
  obtain rs w' where rs: "replay_loop (count_inputs c r) als ?w = Some (Inr (totals (count_inputs c r) als), w')"
    "w_out w' = w_out ?w @ map line_of rs" "records_of (rc_emitted (count_inputs c r)) als rs"
    using Cons.IH [of "count_inputs c r" ?w] Cons.prems by auto
  have "rc_emitted (count_inputs c r) = rc_emitted c + 1" by (simp add: count_inputs_def inputs_of_def)
  then have "records_of (rc_emitted c) (r # als) (rec # rs)" using rec rs(3) by (intro records_Cons) auto
  then show ?case using rec(1) rs(1,2)
    by (intro exI [of _ "rec # rs"] exI [of _ w']) (simp add: totals_Cons)
qed

text \<open>
  C16. The conversion of a log never fails, whatever the log holds: it writes the header and one
  record per aligned instruction, numbered from 0, whose pc is that of the dump before and whose
  graded registers are those of the dump after the instruction, and it returns the numbers of
  records, device reads, device writes and interrupts that the alignment found.
\<close>

theorem replay_pass_b_records:
  "\<exists>h rs w'. replay_header a = Inr h \<and> replay_pass_b a f w = Some (Inr (totals no_counts (iter_aligned (ra_max a) f)), w') \<and>
    w_out w' = w_out w @ map line_of (h # rs) \<and> records_of 0 (iter_aligned (ra_max a) f) rs"
proof -
  let ?als = "iter_aligned (ra_max a) f"
  obtain h where h: "replay_header a = Inr h" by (simp add: replay_header_def header_def Let_def)
  have "\<forall>r \<in> set ?als. fst ` set (c_seg_limit (al_post r)) = fst ` set (c_seg_base (al_post r))"
    using align_parsed parse_block_segments unfolding iter_aligned_def by metis
  then obtain rs w' where rs: "replay_loop no_counts ?als (w\<lparr> w_out := w_out w @ [line_of h] \<rparr>) = Some (Inr (totals no_counts ?als), w')"
    "w_out w' = w_out (w\<lparr> w_out := w_out w @ [line_of h] \<rparr>) @ map line_of rs" "records_of (rc_emitted no_counts) ?als rs"
    using replay_loop_records [of ?als no_counts "w\<lparr> w_out := w_out w @ [line_of h] \<rparr>"] by blast
  then show ?thesis using h by (intro exI [of _ h] exI [of _ rs] exI [of _ w']) (simp add: replay_pass_b_def no_counts_def)
qed

end
