(* ===== verification/Elf_Flat.thy ===== *)
theory Elf_Flat
  imports Py_Json Trace_Format
begin

text \<open>
  The image builder verif/tests/elf2flat.py: parsing the program headers of a 32-bit ELF file, placing
  its loadable segments into one flat blob, checking a test manifest against the result, and main.
  File contents are lists of byte values; whether a path names a file is a parameter.
\<close>

subsection \<open>Text helpers\<close>

definition py_int0_unsigned :: "string \<Rightarrow> int option" where
  "py_int0_unsigned s =
    (let p = lower (take 2 s); r = drop 2 s
     in if p = ''0x'' then (if r = [] then None else scan_digits 16 0 True r)
        else if p = ''0o'' then (if r = [] then None else scan_digits 8 0 True r)
        else if p = ''0b'' then (if r = [] then None else scan_digits 2 0 True r)
        else case scan_digits 10 0 False s of None \<Rightarrow> None
          | Some v \<Rightarrow> if v \<noteq> 0 \<and> take 1 s = ''0'' then None else Some v)"

text \<open>\<open>int(s, 0)\<close>.\<close>

definition py_int0 :: "string \<Rightarrow> int option" where
  "py_int0 s =
    (case strip s of [] \<Rightarrow> None
     | c # cs \<Rightarrow> if c = CHR ''-'' then map_option uminus (py_int0_unsigned cs)
                else if c = CHR ''+'' then py_int0_unsigned cs
                else py_int0_unsigned (c # cs))"

definition dirname :: "string \<Rightarrow> string" where
  "dirname p = (let h = rev (dropWhile (\<lambda>c. c \<noteq> CHR ''/'') (rev p)); t = rev (dropWhile (\<lambda>c. c = CHR ''/'') (rev h))
     in if t = [] then h else t)"

definition path_base :: "string \<Rightarrow> string" where
  "path_base p = rev (takeWhile (\<lambda>c. c \<noteq> CHR ''/'') (rev p))"

definition path_join :: "string \<Rightarrow> string \<Rightarrow> string" where
  "path_join a b = (if take 1 b = ''/'' then b else if a = [] \<or> last a = CHR ''/'' then a @ b else a @ ''/'' @ b)"

subsection \<open>ELF headers\<close>

datatype flat_error = BadMagic | BadClass | BadEndian | NoHeaders | BadEntSize int | HeadersPastEnd | NoLoads
  | SegmentPastEnd | NothingPlaced int | FlatPy py_error

definition ELFMAG :: "int list" where "ELFMAG = [0x7F, 0x45, 0x4C, 0x46]"

record segment =
  p_offset :: int
  p_vaddr :: int
  p_filesz :: int
  p_memsz :: int

definition le_at :: "nat \<Rightarrow> int list \<Rightarrow> int \<Rightarrow> int" where
  "le_at n data off = from_le (take n (drop (nat off) data))"

fun phdr_loop :: "int list \<Rightarrow> int \<Rightarrow> int \<Rightarrow> int \<Rightarrow> nat \<Rightarrow> flat_error + segment list" where
  "phdr_loop data phoff phentsize i 0 = Inr []"
| "phdr_loop data phoff phentsize i (Suc n) =
    (let base = phoff + i * phentsize; fld = (\<lambda>k. le_at 4 data (base + 4 * k))
     in if base + 32 > int (length data) then Inl HeadersPastEnd
        else case phdr_loop data phoff phentsize (i + 1) n of Inl e \<Rightarrow> Inl e
          | Inr segs \<Rightarrow> Inr (if fld 0 = 1 \<and> fld 5 > 0
              then \<lparr> p_offset = fld 1, p_vaddr = fld 2, p_filesz = fld 4, p_memsz = fld 5 \<rparr> # segs else segs))"

definition parse_elf32 :: "int list \<Rightarrow> flat_error + (int \<times> segment list)" where
  "parse_elf32 data =
    (if length data < 52 \<or> take 4 data \<noteq> ELFMAG then Inl BadMagic
     else if data ! 4 \<noteq> 1 then Inl BadClass
     else if data ! 5 \<noteq> 1 then Inl BadEndian
     else let e_entry = le_at 4 data 24; e_phoff = le_at 4 data 28; e_phentsize = le_at 2 data 42; e_phnum = le_at 2 data 44
     in if e_phoff = 0 \<or> e_phnum = 0 then Inl NoHeaders
        else if e_phentsize < 32 then Inl (BadEntSize e_phentsize)
        else case phdr_loop data e_phoff e_phentsize 0 (nat e_phnum) of Inl e \<Rightarrow> Inl e
          | Inr segs \<Rightarrow> if segs = [] then Inl NoLoads else Inr (e_entry, segs))"

subsection \<open>The flat blob\<close>

text \<open>\<open>blob[dst:dst + n] = src\<close> for a slice that starts at or after 0.\<close>

definition splice_at :: "int list \<Rightarrow> nat \<Rightarrow> int list \<Rightarrow> int list" where
  "splice_at blob dst src = take dst blob @ src @ drop (dst + length src) blob"

fun place_loop :: "int list \<Rightarrow> int \<Rightarrow> bool \<Rightarrow> int list \<Rightarrow> segment list \<Rightarrow> flat_error + (bool \<times> int list)" where
  "place_loop data base placed blob [] = Inr (placed, blob)"
| "place_loop data base placed blob (s # ss) =
    (if p_offset s + p_filesz s > int (length data) then Inl SegmentPastEnd
     else let seg_end = p_vaddr s + p_filesz s
     in if seg_end \<le> base then place_loop data base placed blob ss
        else let skip = max 0 (base - p_vaddr s); src_lo = p_offset s + skip; src_hi = p_offset s + p_filesz s;
                 dst = (p_vaddr s + skip) - base
             in place_loop data base True
                  (splice_at blob (nat dst) (take (nat (src_hi - src_lo)) (drop (nat src_lo) data))) ss)"

definition span_end :: "segment list \<Rightarrow> int \<Rightarrow> int" where
  "span_end segs base = foldl (\<lambda>hi s. if p_vaddr s + p_memsz s > hi then p_vaddr s + p_memsz s else hi) base segs"

definition build_flat :: "int list \<Rightarrow> segment list \<Rightarrow> int option \<Rightarrow> flat_error + (int list \<times> int)" where
  "build_flat data segs base =
    (case segs of [] \<Rightarrow> Inl (FlatPy ValueError)
     | s # ss \<Rightarrow>
         let lo = foldl min (p_vaddr s) (map p_vaddr ss);
             base = (case base of None \<Rightarrow> lo | Some b \<Rightarrow> b);
             size = max 0 (span_end segs base - base)
         in case place_loop data base False (replicate (nat size) 0) segs of
              Inl e \<Rightarrow> Inl e
            | Inr (placed, blob) \<Rightarrow> if placed then Inr (blob, base) else Inl (NothingPlaced base))"

subsection \<open>The manifest\<close>

definition MANIFEST_KEYS :: "string list" where
  "MANIFEST_KEYS = [''name'', ''src'', ''elf'', ''image'', ''load_addr'', ''entry'', ''max_insn'']"

datatype complaint = Missing string | EntryDiffers json | LoadAddrDiffers json | ImageMissing json | BadMaxInsn json

text \<open>\<open>int(str(v), 0)\<close> of a manifest value: only text and integers have a numeric spelling.\<close>

definition json_int0 :: "json \<Rightarrow> int result" where
  "json_int0 v = (case v of JStr s \<Rightarrow> of_option ValueError (py_int0 s) | JInt n \<Rightarrow> Inr n | _ \<Rightarrow> Inl ValueError)"

definition get_item :: "string \<Rightarrow> json \<Rightarrow> json result" where
  "get_item k m = (case m of JDict d \<Rightarrow> of_option KeyError (map_of d k) | _ \<Rightarrow> Inl TypeError)"

definition if_present :: "string \<Rightarrow> json \<Rightarrow> (json \<Rightarrow> complaint list result) \<Rightarrow> complaint list result" where
  "if_present k m f = bindE (in_json k m) (\<lambda>b. if b then bindE (get_item k m) f else Inr [])"

definition image_paths :: "string \<Rightarrow> string \<Rightarrow> string \<Rightarrow> string list" where
  "image_paths path out_blob img =
    (let dir = (if dirname path = [] then ''.'' else dirname path)
     in [img, path_join dir img, path_join dir (path_base img), out_blob])"

definition positive_int :: "json \<Rightarrow> bool" where
  "positive_int v = (case v of JInt n \<Rightarrow> n > 0 | JBool b \<Rightarrow> b | _ \<Rightarrow> False)"

definition missing_keys :: "json \<Rightarrow> complaint list result" where
  "missing_keys m = foldE (\<lambda>errs k. bindE (in_json k m) (\<lambda>b. Inr (if b then errs else errs @ [Missing k]))) [] MANIFEST_KEYS"

definition check_manifest :: "(string \<Rightarrow> bool) \<Rightarrow> json \<Rightarrow> string \<Rightarrow> int \<Rightarrow> int \<Rightarrow> string \<Rightarrow> complaint list result" where
  "check_manifest isfile m path entry base out_blob =
    bindE (missing_keys m) (\<lambda>e1.
    bindE (if_present ''entry'' m (\<lambda>v. bindE (json_int0 v) (\<lambda>n. Inr (if n \<noteq> entry then [EntryDiffers v] else [])))) (\<lambda>e2.
    bindE (if_present ''load_addr'' m (\<lambda>v. bindE (json_int0 v) (\<lambda>n. Inr (if n \<noteq> base then [LoadAddrDiffers v] else [])))) (\<lambda>e3.
    bindE (if_present ''image'' m (\<lambda>v. case v of
        JStr s \<Rightarrow> Inr (if list_ex isfile (image_paths path out_blob s) then [] else [ImageMissing v])
      | _ \<Rightarrow> Inl TypeError)) (\<lambda>e4.
    bindE (if_present ''max_insn'' m (\<lambda>v. Inr (if positive_int v then [] else [BadMaxInsn v]))) (\<lambda>e5.
      Inr (e1 @ e2 @ e3 @ e4 @ e5))))))"

subsection \<open>main\<close>

record flat_args =
  fa_out :: string
  fa_base :: "string option"
  fa_manifest :: "(string \<times> json) option"

datatype flat_outcome = Died flat_error | Raised py_error | Rejected "complaint list" | Accepted

text \<open>The exit and what was written: the blob, the entry point and the base, once the file is out.\<close>

definition flat_main :: "(string \<Rightarrow> bool) \<Rightarrow> int list \<Rightarrow> flat_args \<Rightarrow> flat_outcome \<times> (int list \<times> int \<times> int) option" where
  "flat_main isfile data a =
    (case (case fa_base a of None \<Rightarrow> Inr None | Some s \<Rightarrow> (case py_int0 s of None \<Rightarrow> Inl ValueError | Some b \<Rightarrow> Inr (Some b))) of
       Inl e \<Rightarrow> (Raised e, None)
     | Inr b \<Rightarrow> case parse_elf32 data of Inl e \<Rightarrow> (Died e, None)
     | Inr (entry, segs) \<Rightarrow> case build_flat data segs b of Inl e \<Rightarrow> (Died e, None)
     | Inr (blob, base) \<Rightarrow>
         (case fa_manifest a of None \<Rightarrow> Accepted
          | Some (path, m) \<Rightarrow> (case check_manifest isfile m path entry base (fa_out a) of
              Inl e \<Rightarrow> Raised e | Inr [] \<Rightarrow> Accepted | Inr errs \<Rightarrow> Rejected errs), Some (blob, entry, base)))"

subsection \<open>The blob is the loaded image\<close>

text \<open>The byte that a loader maps at an address: of the last segment whose file range covers it, or zero.\<close>

definition mem_at :: "int list \<Rightarrow> segment list \<Rightarrow> int \<Rightarrow> int \<Rightarrow> int" where
  "mem_at data segs v a = foldl (\<lambda>v s. if p_vaddr s \<le> a \<and> a < p_vaddr s + p_filesz s
     then data ! nat (p_offset s + (a - p_vaddr s)) else v) v segs"

lemma mem_at_simps [simp]:
  "mem_at data [] v a = v"
  "mem_at data (s # segs) v a = mem_at data segs (if p_vaddr s \<le> a \<and> a < p_vaddr s + p_filesz s
     then data ! nat (p_offset s + (a - p_vaddr s)) else v) a"
  by (simp_all add: mem_at_def)

lemma splice_nth:
  assumes "dst + length src \<le> length blob" "i < length blob"
  shows "splice_at blob dst src ! i = (if dst \<le> i \<and> i < dst + length src then src ! (i - dst) else blob ! i)"
  using assms by (auto simp: splice_at_def nth_append)

lemma splice_length [simp]: "dst + length src \<le> length blob \<Longrightarrow> length (splice_at blob dst src) = length blob"
  by (simp add: splice_at_def)

definition seg_fits :: "int \<Rightarrow> int \<Rightarrow> segment \<Rightarrow> bool" where
  "seg_fits base n s \<longleftrightarrow> 0 \<le> p_offset s \<and> 0 \<le> p_filesz s \<and> p_vaddr s + p_filesz s \<le> base + n"

lemma place_one:
  assumes "seg_fits base (int (length blob)) s" "p_offset s + p_filesz s \<le> int (length data)" "\<not> p_vaddr s + p_filesz s \<le> base"
    and "skip = max 0 (base - p_vaddr s)" "src = take (nat (p_filesz s - skip)) (drop (nat (p_offset s + skip)) data)"
    and "dst = nat (p_vaddr s + skip - base)"
  shows "dst + length src \<le> length blob"
    and "i < length blob \<Longrightarrow> splice_at blob dst src ! i = mem_at data [s] (blob ! i) (base + int i)"
proof -
  have skip: "0 \<le> skip" "skip \<le> p_filesz s" "base \<le> p_vaddr s + skip" "skip = 0 \<or> p_vaddr s + skip = base"
    using assms(1,3,4) by (auto simp: seg_fits_def max_def split: if_splits)
  have len: "length src = nat (p_filesz s - skip)" using assms(1,2,5) skip by (auto simp: seg_fits_def)
  then show fit: "dst + length src \<le> length blob" using assms(1,6) skip by (simp add: seg_fits_def nat_le_iff flip: nat_add_distrib)
  show "splice_at blob dst src ! i = mem_at data [s] (blob ! i) (base + int i)" if i: "i < length blob"
  proof (cases "dst \<le> i \<and> i < dst + length src")
    case True
    have "nat (p_offset s + skip) + (i - dst) = nat (p_offset s + (base + int i - p_vaddr s))"
      using True assms(1,6) skip by (simp add: seg_fits_def nat_eq_iff) linarith
    moreover have "p_vaddr s \<le> base + int i \<and> base + int i < p_vaddr s + p_filesz s" using True len assms(6) skip by linarith
    moreover have "src ! (i - dst) = data ! (nat (p_offset s + skip) + (i - dst))"
    proof -
      have "i - dst < nat (p_filesz s - skip)" "nat (p_offset s + skip) \<le> length data"
        using True len assms(1,2) skip by (auto simp: seg_fits_def)
      then show ?thesis by (simp add: assms(5))
    qed
    ultimately show ?thesis using True splice_nth [OF fit i] by simp
  next
    case False
    then have out: "\<not> (p_vaddr s \<le> base + int i \<and> base + int i < p_vaddr s + p_filesz s)" using len assms(6) skip by linarith
    show ?thesis unfolding mem_at_simps if_not_P [OF out] using splice_nth [OF fit i] False by simp
  qed
qed

lemma place_loop_exact:
  assumes "\<forall>s \<in> set segs. seg_fits base (int (length blob)) s" "place_loop data base p blob segs = Inr (q, blob')"
  shows "length blob' = length blob \<and> (\<forall>i < length blob. blob' ! i = mem_at data segs (blob ! i) (base + int i))"
  using assms
proof (induction segs arbitrary: p blob)
  case (Cons s ss)
  have bound: "p_offset s + p_filesz s \<le> int (length data)" using Cons.prems(2) by (simp split: if_splits)
  show ?case
  proof (cases "p_vaddr s + p_filesz s \<le> base")
    case True
    then show ?thesis using Cons.IH [of blob p] Cons.prems bound by simp
  next
    case False
    define skip where "skip = max 0 (base - p_vaddr s)"
    define src where "src = take (nat (p_filesz s - skip)) (drop (nat (p_offset s + skip)) data)"
    define dst where "dst = nat (p_vaddr s + skip - base)"
    have fit: "seg_fits base (int (length blob)) s" using Cons.prems(1) by simp
    note one = place_one [OF fit bound False skip_def src_def dst_def]
    have "place_loop data base True (splice_at blob dst src) ss = Inr (q, blob')"
      using Cons.prems(2) bound False by (simp add: Let_def skip_def [symmetric] src_def dst_def algebra_simps)
    then have "length blob' = length blob \<and>
        (\<forall>i < length blob. blob' ! i = mem_at data ss (splice_at blob dst src ! i) (base + int i))"
      using Cons.IH [of "splice_at blob dst src" True] Cons.prems(1) one(1) by simp
    then show ?thesis using one(2) by simp
  qed
qed simp

lemma span_end_Cons: "span_end (s # segs) base = span_end segs (max base (p_vaddr s + p_memsz s))"
  by (simp add: span_end_def max_def)

lemma span_end_base: "base \<le> span_end segs base"
proof (induction segs arbitrary: base)
  case (Cons s segs)
  then show ?case using max.cobounded1 [of base "p_vaddr s + p_memsz s"] Cons by (metis order.trans span_end_Cons)
qed (simp add: span_end_def)

lemma span_end_covers: "s \<in> set segs \<Longrightarrow> p_vaddr s + p_memsz s \<le> span_end segs base"
proof (induction segs arbitrary: base)
  case (Cons t segs)
  then show ?case using order.trans [OF max.cobounded2 span_end_base] by (auto simp: span_end_Cons)
qed simp

text \<open>
  C25. The blob is the memory that a loader would set up. For every file whose segments have no more
  file bytes than memory, a blob that build_flat returns spans from the base to the end of the highest
  segment, and its byte at each address is the file byte of the segment that maps it (the last one
  where segments overlap), or zero in gaps and zero-initialised tails. Clipping at an explicit base
  cuts off exactly the addresses below it.
\<close>

theorem build_flat_exact:
  assumes "build_flat data segs b = Inr (blob, base)"
    and "\<forall>s \<in> set segs. 0 \<le> p_offset s \<and> 0 \<le> p_filesz s \<and> p_filesz s \<le> p_memsz s"
  shows "blob = map (\<lambda>i. mem_at data segs 0 (base + int i)) [0..<nat (span_end segs base - base)]"
proof -
  let ?n = "nat (max 0 (span_end segs base - base))"
  obtain q where p: "place_loop data base False (replicate ?n 0) segs = Inr (q, blob)"
    using assms(1) by (auto simp: build_flat_def Let_def split: list.splits sum.splits prod.splits if_splits)
  have "seg_fits base (int (length (replicate ?n (0 :: int)))) s" if "s \<in> set segs" for s
    using that assms(2) span_end_covers [OF that, of base] by (fastforce simp: seg_fits_def)
  then have "length blob = nat (span_end segs base - base)" "\<forall>i < length blob. blob ! i = mem_at data segs 0 (base + int i)"
    using place_loop_exact [OF _ p] span_end_base [of base segs] by auto
  then show ?thesis by (intro nth_equalityI) simp_all
qed

definition sample_file :: "int list" where "sample_file = [10 .. 30]"

definition sample_segs :: "segment list" where
  "sample_segs = [\<lparr> p_offset = 0, p_vaddr = 0x100, p_filesz = 4, p_memsz = 4 \<rparr>, \<lparr> p_offset = 6, p_vaddr = 0x106, p_filesz = 3, p_memsz = 6 \<rparr>]"

theorem build_flat_exact_witness:
  "[12, 13, 0, 0, 16, 17, 18, 0, 0, 0] =
    map (\<lambda>i. mem_at sample_file sample_segs 0 (0x102 + int i)) [0..<nat (span_end sample_segs 0x102 - 0x102)]"
  by (rule build_flat_exact [where b = "Some 0x102"])
    (simp_all add: build_flat_def sample_segs_def sample_file_def span_end_def splice_at_def Let_def upto_rec_numeral numeral_eq_Suc)

subsection \<open>An accepted image\<close>

lemma if_present_ok:
  "if_present k (JDict d) f = Inr [] \<longleftrightarrow> (case map_of d k of None \<Rightarrow> True | Some v \<Rightarrow> f v = Inr [])"
proof (cases "map_of d k")
  case None
  then have "k \<notin> set (map fst d)" by (metis map_of_eq_None_iff set_map)
  then show ?thesis using None by (simp add: if_present_def in_json_def)
next
  case (Some v)
  then have "k \<in> set (map fst d)" by (metis map_of_eq_None_iff option.distinct(1) set_map)
  then show ?thesis using Some by (simp add: if_present_def in_json_def get_item_def)
qed

lemma missing_none:
  "missing_keys (JDict d) = Inr [] \<longleftrightarrow> (\<forall>k \<in> set MANIFEST_KEYS. map_of d k \<noteq> None)"
proof -
  have "foldE (\<lambda>errs k. bindE (in_json k (JDict d)) (\<lambda>b. Inr (if b then errs else errs @ [Missing k]))) errs ks =
      Inr (errs @ map Missing (filter (\<lambda>k. map_of d k = None) ks))" for errs ks
    by (induction ks arbitrary: errs) (auto simp: in_json_def map_of_eq_None_iff)
  then show ?thesis by (auto simp: missing_keys_def filter_empty_conv)
qed

lemma bindE_Inr_append: "bindE m (\<lambda>x. Inr (x @ ys)) = Inr [] \<longleftrightarrow> m = Inr [] \<and> ys = []"
  by (cases m) auto

lemma check_manifest_ok:
  assumes "check_manifest isfile (JDict d) path entry base out = Inr []"
  shows "(\<forall>k \<in> set MANIFEST_KEYS. map_of d k \<noteq> None) \<and>
    (\<exists>v. map_of d ''entry'' = Some v \<and> json_int0 v = Inr entry) \<and>
    (\<exists>v. map_of d ''load_addr'' = Some v \<and> json_int0 v = Inr base) \<and>
    (\<exists>v. map_of d ''max_insn'' = Some v \<and> positive_int v) \<and>
    (\<exists>img. map_of d ''image'' = Some (JStr img) \<and> (\<exists>p \<in> set (image_paths path out img). isfile p))"
proof -
  obtain e1 e2 e3 e4 e5 where parts: "missing_keys (JDict d) = Inr e1"
    "if_present ''entry'' (JDict d) (\<lambda>v. bindE (json_int0 v) (\<lambda>n. Inr (if n \<noteq> entry then [EntryDiffers v] else []))) = Inr e2"
    "if_present ''load_addr'' (JDict d) (\<lambda>v. bindE (json_int0 v) (\<lambda>n. Inr (if n \<noteq> base then [LoadAddrDiffers v] else []))) = Inr e3"
    "if_present ''image'' (JDict d) (\<lambda>v. case v of JStr s \<Rightarrow> Inr (if list_ex isfile (image_paths path out s) then [] else [ImageMissing v])
      | _ \<Rightarrow> Inl TypeError) = Inr e4"
    "if_present ''max_insn'' (JDict d) (\<lambda>v. Inr (if positive_int v then [] else [BadMaxInsn v])) = Inr e5"
    and nil: "e1 @ e2 @ e3 @ e4 @ e5 = []"
    using assms unfolding check_manifest_def bindE_eq_Inr by blast
  then have keys: "\<forall>k \<in> set MANIFEST_KEYS. map_of d k \<noteq> None" using missing_none by simp
  then obtain v2 v3 v4 v5 where v: "map_of d ''entry'' = Some v2" "map_of d ''load_addr'' = Some v3"
    "map_of d ''image'' = Some v4" "map_of d ''max_insn'' = Some v5"
    unfolding MANIFEST_KEYS_def by auto
  have "json_int0 v2 = Inr entry" using parts(2) nil v(1) by (auto simp: if_present_ok bindE_eq_Inr split: if_splits)
  moreover have "json_int0 v3 = Inr base" using parts(3) nil v(2) by (auto simp: if_present_ok bindE_eq_Inr split: if_splits)
  moreover have "positive_int v5" using parts(5) nil v(4) by (auto simp: if_present_ok split: if_splits)
  moreover have "\<exists>img. v4 = JStr img \<and> (\<exists>p \<in> set (image_paths path out img). isfile p)"
    using parts(4) nil v(3) by (auto simp: if_present_ok list_ex_iff split: json.splits if_splits)
  ultimately show ?thesis using keys v by auto
qed

text \<open>
  What the Makefile may rely on: when the tool accepts a file with a manifest, the file is a
  loadable ELF image, the blob is what was placed from its segments, and the manifest has every
  required key, names the entry point and the load address of the blob, an instruction bound of at
  least one, and an image file that exists.
\<close>

theorem flat_main_accepted:
  assumes "flat_main isfile data a = (Accepted, Some (blob, entry, base))" "fa_manifest a = Some (path, JDict d)"
  shows "\<exists>segs b. parse_elf32 data = Inr (entry, segs) \<and> build_flat data segs b = Inr (blob, base) \<and>
    (\<forall>k \<in> set MANIFEST_KEYS. map_of d k \<noteq> None) \<and>
    (\<exists>v. map_of d ''entry'' = Some v \<and> json_int0 v = Inr entry) \<and>
    (\<exists>v. map_of d ''load_addr'' = Some v \<and> json_int0 v = Inr base) \<and>
    (\<exists>v. map_of d ''max_insn'' = Some v \<and> positive_int v) \<and>
    (\<exists>img. map_of d ''image'' = Some (JStr img) \<and> (\<exists>p \<in> set (image_paths path (fa_out a) img). isfile p))"
proof -
  obtain b segs where p: "parse_elf32 data = Inr (entry, segs)" "build_flat data segs b = Inr (blob, base)"
    and c: "(case check_manifest isfile (JDict d) path entry base (fa_out a) of Inl e \<Rightarrow> Raised e | Inr [] \<Rightarrow> Accepted | Inr errs \<Rightarrow> Rejected errs) = Accepted"
    using assms by (auto simp: flat_main_def split: sum.splits option.splits prod.splits)
  have "check_manifest isfile (JDict d) path entry base (fa_out a) = Inr []"
    using c by (cases "check_manifest isfile (JDict d) path entry base (fa_out a)") (auto split: list.splits)
  then show ?thesis using p check_manifest_ok by (intro exI [of _ segs] exI [of _ b]) blast
qed

definition tiny_elf :: "int list" where
  "tiny_elf = ELFMAG @ [1, 1] @ replicate 18 0 @ [0x54, 0x80, 4, 8] @ [52, 0, 0, 0] @ replicate 10 0 @ [32, 0, 1, 0] @ replicate 6 0 @
     [1, 0, 0, 0] @ [84, 0, 0, 0] @ [0x54, 0x80, 4, 8] @ [0, 0, 0, 0] @ [2, 0, 0, 0] @ [4, 0, 0, 0] @ [5, 0, 0, 0] @ [0, 0, 0, 0] @ [0xCD, 0x80]"

definition tiny_manifest :: jdict where
  "tiny_manifest = [(''name'', JStr ''t''), (''src'', JStr ''t.s''), (''elf'', JStr ''t.elf''), (''image'', JStr ''t.bin''),
     (''load_addr'', JStr ''0x08048054''), (''entry'', JInt 0x08048054), (''max_insn'', JInt 100)]"

theorem flat_main_accepted_witness:
  "\<exists>segs b. parse_elf32 tiny_elf = Inr (0x08048054, segs) \<and> build_flat tiny_elf segs b = Inr ([0xCD, 0x80, 0, 0], 0x08048054)"
proof -
  have "flat_main (\<lambda>p. p = ''d/t.bin'') tiny_elf \<lparr> fa_out = ''o/t.bin'', fa_base = None, fa_manifest = Some (''d/m.json'', JDict tiny_manifest) \<rparr> =
      (Accepted, Some ([0xCD, 0x80, 0, 0], 0x08048054, 0x08048054))"
    by code_simp
  from flat_main_accepted [OF this] show ?thesis by fastforce
qed

end
