(* ===== verification/Pll_Clock.thy ===== *)
theory Pll_Clock
  imports Py_IO
begin

text \<open>
  The clock mailbox fpga/board-tools/ven_pll_clock.py: the status word, the GPIO mailbox that carries
  16 command lines and 31 status lines, and the protocol \<open>change\<close> that asks the clock controller for a
  new divider. The kernel's GPIO device and the clock are parameters; times are in milliseconds.
\<close>

subsection \<open>The status word\<close>

record pll_status =
  pl_raw :: int
  pl_divider :: int
  pl_enabled :: bool
  pl_busy :: bool
  pl_error :: bool
  pl_locked :: bool
  pl_ack :: int
  pl_safe :: bool
  pl_reset :: bool

definition decode :: "int \<Rightarrow> pll_status result" where
  "decode raw =
    (if drop_bit 16 raw \<noteq> 0x504c \<or> drop_bit 14 raw AND 3 \<noteq> 1 then Inl ValueError
     else Inr \<lparr> pl_raw = raw, pl_divider = raw AND 127, pl_enabled = (raw AND 128 \<noteq> 0), pl_busy = (raw AND 256 \<noteq> 0),
       pl_error = (raw AND 512 \<noteq> 0), pl_locked = (raw AND 1024 \<noteq> 0), pl_ack = drop_bit 11 raw AND 1,
       pl_safe = (raw AND 4096 \<noteq> 0), pl_reset = (raw AND 8192 \<noteq> 0) \<rparr>)"

subsection \<open>The GPIO mailbox\<close>

definition COMMAND_LINES :: "int list" where "COMMAND_LINES = [110 .. 125]"
definition STATUS_LINES :: "int list" where "STATUS_LINES = [142 .. 172]"

text \<open>The fields of a line request: line numbers padded to 64, flags, defaults, consumer and count.\<close>

record handle_request =
  hr_lines :: "int list"
  hr_flags :: int
  hr_defaults :: "int list"
  hr_label :: string
  hr_count :: int

text \<open>
  The GPIO character device: what its calls return and how they change the hardware. A request
  returns the handle, and the calls on a handle read or set 64 line values.
\<close>

record 'h gpio_dev =
  gd_info :: "'h \<Rightarrow> string \<times> int"
  gd_request :: "handle_request \<Rightarrow> 'h \<Rightarrow> int \<times> 'h"
  gd_get :: "int \<Rightarrow> 'h \<Rightarrow> int list \<times> 'h"
  gd_set :: "int \<Rightarrow> int list \<Rightarrow> 'h \<Rightarrow> 'h"
  gd_now :: "'h \<Rightarrow> int \<times> 'h"
  gd_sleep :: "int \<Rightarrow> 'h \<Rightarrow> 'h"

record 'h gpio_box =
  gb_input :: "int option"
  gb_output :: "int option"
  gb_hw :: 'h

definition request_lines :: "'h gpio_dev \<Rightarrow> int list \<Rightarrow> int \<Rightarrow> ('h gpio_box, int) pio" where
  "request_lines D ls flags b =
    (let (fd, h) = gd_request D \<lparr> hr_lines = ls @ replicate (64 - length ls) 0, hr_flags = flags, hr_defaults = replicate 64 0,
         hr_label = ''ventium-pll'', hr_count = int (length ls) \<rparr> (gb_hw b);
         b = b\<lparr> gb_hw := h \<rparr>
     in if fd < 0 then Some (Inl (OSError), b) else Some (Inr fd, b))"

definition gather :: "int list \<Rightarrow> int" where
  "gather vs = sum_list (map (\<lambda>i. push_bit i (vs ! i AND 1)) [0..<length STATUS_LINES])"

definition spread :: "int \<Rightarrow> int list" where
  "spread v = map (\<lambda>i. if i < 16 then drop_bit i v AND 1 else 0) [0..<64]"

definition gpio_read :: "'h gpio_dev \<Rightarrow> ('h gpio_box, int) pio" where
  "gpio_read D b = (case gb_input b of None \<Rightarrow> Some (Inl (TypeError), b)
     | Some fd \<Rightarrow> let (vs, h) = gd_get D fd (gb_hw b) in Some (Inr (gather vs), b\<lparr> gb_hw := h \<rparr>))"

definition claim_output :: "'h gpio_dev \<Rightarrow> ('h gpio_box, unit) pio" where
  "claim_output D b = (if gb_output b = None
     then bindIO (request_lines D COMMAND_LINES 2) (\<lambda>fd b. Some (Inr (), b\<lparr> gb_output := Some fd \<rparr>)) b
     else Some (Inr (), b))"

definition gpio_write :: "'h gpio_dev \<Rightarrow> int \<Rightarrow> ('h gpio_box, unit) pio" where
  "gpio_write D v b = (case gb_output b of None \<Rightarrow> Some (Inl (ValueError), b)
     | Some fd \<Rightarrow> if \<not> (0 \<le> v \<and> v \<le> 65535) then Some (Inl (ValueError), b)
         else Some (Inr (), b\<lparr> gb_hw := gd_set D fd (spread v) (gb_hw b) \<rparr>))"

text \<open>
  The constructor: an unknown image is refused before any output is claimed; on failure no handle is kept.
\<close>

definition gpio_open :: "'h gpio_dev \<Rightarrow> 'h \<Rightarrow> (py_error + 'h gpio_box) \<times> 'h" where
  "gpio_open D h =
    (if gd_info D h \<noteq> (''zynqmp_gpio'', 174) then (Inl (ValueError), h)
     else case bindIO (request_lines D STATUS_LINES 1) (\<lambda>fd b.
         bindIO (gpio_read D) (\<lambda>raw. bindIO (ofE (decode raw)) (\<lambda>_. retIO ())) (b\<lparr> gb_input := Some fd \<rparr>))
         \<lparr> gb_input = None, gb_output = None, gb_hw = h \<rparr> of
       Some (Inr _, b) \<Rightarrow> (Inr b, gb_hw b) | Some (Inl e, b) \<Rightarrow> (Inl e, gb_hw b) | None \<Rightarrow> (Inl (OSError), h))"

subsection \<open>The protocol\<close>

record 'b mailbox =
  mb_read :: "('b, int) pio"
  mb_claim :: "('b, unit) pio"
  mb_write :: "int \<Rightarrow> ('b, unit) pio"
  mb_now :: "('b, int) pio"
  mb_sleep :: "int \<Rightarrow> ('b, unit) pio"

definition gpio_mailbox :: "'h gpio_dev \<Rightarrow> 'h gpio_box mailbox" where
  "gpio_mailbox D = \<lparr> mb_read = gpio_read D, mb_claim = claim_output D, mb_write = gpio_write D,
     mb_now = (\<lambda>b. let (t, h) = gd_now D (gb_hw b) in Some (Inr t, b\<lparr> gb_hw := h \<rparr>)),
     mb_sleep = (\<lambda>n b. Some (Inr (), b\<lparr> gb_hw := gd_sleep D n (gb_hw b) \<rparr>)) \<rparr>"

definition read_status :: "'b mailbox \<Rightarrow> ('b, int \<times> pll_status) pio" where
  "read_status M = bindIO (mb_read M) (\<lambda>raw. bindIO (ofE (decode raw)) (\<lambda>st. retIO (raw, st)))"

definition add_sample :: "pll_status \<Rightarrow> pll_status list \<Rightarrow> pll_status list" where
  "add_sample st samples = (if samples = [] \<or> last samples \<noteq> st then samples @ [st] else samples)"

definition settled :: "int \<Rightarrow> pll_status \<Rightarrow> bool" where
  "settled divider st \<longleftrightarrow> pl_safe st \<and> pl_locked st \<and> pl_enabled st \<and> \<not> pl_reset st \<and> pl_divider st = divider"

partial_function (option) ack_loop ::
  "'b mailbox \<Rightarrow> int \<Rightarrow> int \<Rightarrow> int \<Rightarrow> int option \<Rightarrow> pll_status list \<Rightarrow> 'b \<Rightarrow>
    ((py_error + pll_status \<times> pll_status list) \<times> 'b) option" where
  "ack_loop M divider toggle deadline held samples b =
    bindIO (mb_now M) (\<lambda>t b. if \<not> t < deadline then Some (Inl (TimeoutError), b) else
      bindIO (read_status M) (\<lambda>r b. (if pl_ack (snd r) = toggle \<and> \<not> pl_busy (snd r)
        then if pl_error (snd r) \<or> \<not> settled divider (snd r) then Some (Inl (RuntimeError), b)
             else if held = Some (fst r) then Some (Inr (snd r, add_sample (snd r) samples), b)
             else bindIO (mb_sleep M 2) (\<lambda>_. ack_loop M divider toggle deadline (Some (fst r)) (add_sample (snd r) samples)) b
        else bindIO (mb_sleep M 2) (\<lambda>_. ack_loop M divider toggle deadline None (add_sample (snd r) samples)) b)) b) b"

record pll_change =
  pc_before :: pll_status
  pc_after :: pll_status
  pc_samples :: "pll_status list"
  pc_divider :: int

definition staged_word :: "int \<Rightarrow> int \<Rightarrow> int" where
  "staged_word ack divider = push_bit 15 ack OR push_bit 7 0xc1 OR divider"

definition change :: "'b mailbox \<Rightarrow> int \<Rightarrow> ('b, pll_change) pio" where
  "change M divider =
    (if \<not> (10 \<le> divider \<and> divider \<le> 50) then failIO (ValueError)
     else bindIO (read_status M) (\<lambda>(_, before).
       if pl_busy before \<or> \<not> pl_safe before then failIO (ValueError)
       else bindIO (mb_claim M) (\<lambda>_. bindIO (mb_write M (push_bit 15 (pl_ack before))) (\<lambda>_. bindIO (mb_sleep M 2) (\<lambda>_.
         let staged = staged_word (pl_ack before) divider
         in bindIO (mb_write M staged) (\<lambda>_. bindIO (mb_sleep M 2) (\<lambda>_. bindIO (read_status M) (\<lambda>(_, ready).
           if pl_busy ready \<or> \<not> pl_safe ready \<or> pl_ack ready \<noteq> pl_ack before then failIO (ValueError)
           else let request = staged XOR 0x8000
             in bindIO (mb_write M request) (\<lambda>_. bindIO (mb_now M) (\<lambda>t.
                  bindIO (ack_loop M divider (drop_bit 15 request) (t + 2000) None []) (\<lambda>(st, samples).
                    retIO \<lparr> pc_before = before, pc_after = st, pc_samples = samples, pc_divider = divider \<rparr>)))))))))))"

subsection \<open>What is sent\<close>

text \<open>A mailbox that also keeps the list of its commands.\<close>

datatype command = Claimed | Wrote int

definition logging :: "('b, 'a) pio \<Rightarrow> command list \<Rightarrow> ('b \<times> command list, 'a) pio" where
  "logging m cs = (\<lambda>(b, l). map_option (\<lambda>(r, b). (r, (b, l @ cs))) (m b))"

definition logged :: "'b mailbox \<Rightarrow> ('b \<times> command list) mailbox" where
  "logged M = \<lparr> mb_read = logging (mb_read M) [], mb_claim = logging (mb_claim M) [Claimed],
     mb_write = (\<lambda>v. logging (mb_write M v) [Wrote v]), mb_now = logging (mb_now M) [], mb_sleep = (\<lambda>n. logging (mb_sleep M n) []) \<rparr>"

lemma logging_some: "logging m cs (b, l) = Some (r, (b', l')) \<longleftrightarrow> m b = Some (r, b') \<and> l' = l @ cs"
  by (auto simp: logging_def)

lemma read_status_logged:
  assumes "read_status (logged M) (b, l) = Some (r, (b', l'))"
  shows "l' = l \<and> read_status M b = Some (r, b')"
  using assms unfolding read_status_def
  by (elim bindIO_cases) (auto simp: logged_def logging_some ofE_def bindIO_def split: sum.splits)

lemma logged_simps:
  "mb_now (logged M) (b, l) = Some (r, (b', l')) \<longleftrightarrow> mb_now M b = Some (r, b') \<and> l' = l"
  "mb_sleep (logged M) n (b, l) = Some (r', (b', l')) \<longleftrightarrow> mb_sleep M n b = Some (r', b') \<and> l' = l"
  "mb_claim (logged M) (b, l) = Some (r', (b', l')) \<longleftrightarrow> mb_claim M b = Some (r', b') \<and> l' = l @ [Claimed]"
  "mb_write (logged M) v (b, l) = Some (r', (b', l')) \<longleftrightarrow> mb_write M v b = Some (r', b') \<and> l' = l @ [Wrote v]"
  by (auto simp: logged_def logging_some)

lemma ack_loop_logged:
  assumes "ack_loop (logged M) d tg dl st samples s = Some y"
  shows "snd (snd y) = snd s"
proof -
  let ?Q = "\<lambda>N d tg dl st samples s y. N = logged M \<longrightarrow> snd (snd y) = snd s"
  have "?Q (logged M) d tg dl st samples s y"
  proof (rule ack_loop.raw_induct [where P = ?Q, OF _ assms], goal_cases)
    case (1 f N d tg dl st samples s y)
    obtain b l where s: "s = (b, l)" by (cases s)
    obtain r b' l' where y: "y = (r, (b', l'))" by (metis surj_pair)
    have "l' = l" if N: "N = logged M"
    proof -
      have again: "l'' = l" if "bindIO (mb_sleep (logged M) 2) (\<lambda>_. f (logged M) d tg dl st2 smp2) (b2, l) = Some (r, (b', l''))" for st2 smp2 b2 l''
        using that
      proof (cases rule: bindIO_cases)
        case (1 e t)
        then show ?thesis by (cases t) (auto simp: logged_simps)
      next
        case (2 x t)
        then obtain b3 where "t = (b3, l)" by (cases t) (auto simp: logged_simps)
        then show ?thesis using 1(1) [unfolded N, OF 2(2)] by simp
      qed
      from 1(2) show "l' = l" unfolding s y N
      proof (cases rule: bindIO_cases)
        case (1 e t)
        then show ?thesis by (cases t) (auto simp: logged_simps)
      next
        case (2 now t)
        obtain b1 where t: "t = (b1, l)" using 2(1) by (cases t) (auto simp: logged_simps)
        show ?thesis
        proof (cases "now < dl")
          case False
          then show ?thesis using 2(2) t by simp
        next
          case True
          from 2(2) [unfolded t] True have "bindIO (read_status (logged M)) (\<lambda>r b. (if pl_ack (snd r) = tg \<and> \<not> pl_busy (snd r)
              then if pl_error (snd r) \<or> \<not> settled d (snd r) then Some (Inl (RuntimeError), b)
                   else if st = Some (fst r) then Some (Inr (snd r, add_sample (snd r) samples), b)
                   else bindIO (mb_sleep (logged M) 2) (\<lambda>_. f (logged M) d tg dl (Some (fst r)) (add_sample (snd r) samples)) b
              else bindIO (mb_sleep (logged M) 2) (\<lambda>_. f (logged M) d tg dl None (add_sample (snd r) samples)) b)) (b1, l) = Some (r, (b', l'))"
            by simp
          then show ?thesis
          proof (cases rule: bindIO_cases)
            case (1 e t')
            then show ?thesis using read_status_logged [of M b1 l "Inl e"] by (cases t') auto
          next
            case (2 x t')
            obtain b2 where "t' = (b2, l)" using 2(1) read_status_logged [of M b1 l "Inr x"] by (cases t') auto
            then show ?thesis using 2(2) again by (auto split: if_splits)
          qed
        qed
      qed
    qed
    then show ?case by (simp add: s y)
  qed
  then show ?thesis by simp
qed

definition steps_of :: "int \<Rightarrow> int \<Rightarrow> command list" where
  "steps_of ack divider = [Claimed, Wrote (push_bit 15 ack), Wrote (staged_word ack divider), Wrote (staged_word ack divider XOR 0x8000)]"

text \<open>A command word is a request when its magic is right and its toggle differs from the acknowledged one.\<close>

definition requests :: "int \<Rightarrow> int \<Rightarrow> bool" where
  "requests ack w \<longleftrightarrow> drop_bit 7 w AND 0xff = 0xc1 \<and> drop_bit 15 w \<noteq> ack"

text \<open>What the controller may see while the lines change one at a time from one word to another.\<close>

definition between :: "int \<Rightarrow> int \<Rightarrow> int \<Rightarrow> bool" where
  "between v w x \<longleftrightarrow> (\<forall>i. bit x i = bit v i \<or> bit x i = bit w i)"

lemma magic_bit: "drop_bit 7 x AND 0xff = 0xc1 \<Longrightarrow> bit (x :: int) 7"
proof -
  assume "drop_bit 7 x AND 0xff = 0xc1"
  then have "bit (drop_bit 7 x AND 0xff) 0" by simp
  then show ?thesis by (simp add: bit_and_iff bit_drop_bit_eq)
qed

lemma high_bits: "0 \<le> n \<Longrightarrow> n < 2 ^ 15 \<Longrightarrow> 15 \<le> i \<Longrightarrow> \<not> bit (n :: int) i"
proof -
  assume "0 \<le> n" "n < 2 ^ 15" "15 \<le> i"
  then have "n < 2 ^ i" using power_increasing [of 15 i "2 :: int"] by simp
  then show ?thesis using \<open>0 \<le> n\<close> by (simp add: bit_iff_odd)
qed

lemma staged_bits:
  assumes "a \<in> {0, 1}" "0 \<le> d" "d < 128"
  shows "15 \<le> i \<Longrightarrow> bit (staged_word a d) i = bit (push_bit 15 a) i"
    and "drop_bit 15 (staged_word a d) = a"
proof -
  show hi: "bit (staged_word a d) i = bit (push_bit 15 a) i" if "15 \<le> i" for i
    using assms that high_bits [of d i] high_bits [of "push_bit 7 0xc1" i] by (simp add: staged_word_def bit_or_iff)
  show "drop_bit 15 (staged_word a d) = a"
    by (rule bit_eqI) (simp add: bit_drop_bit_eq hi bit_push_bit_iff)
qed

lemma request_bits: "bit (w XOR 0x8000 :: int) i \<longleftrightarrow> (if i = 15 then \<not> bit w i else bit w i)"
proof -
  have "bit (0x8000 :: int) i \<longleftrightarrow> i = 15" using bit_exp_iff [where 'a = int, of 15 i] by auto
  then show ?thesis by (simp add: bit_xor_iff)
qed

definition quiet_path :: "int \<Rightarrow> int \<Rightarrow> bool" where
  "quiet_path ack divider \<longleftrightarrow> (let staged = staged_word ack divider; request = staged XOR 0x8000
     in (\<forall>x. between 0 (push_bit 15 ack) x \<or> between (push_bit 15 ack) staged x \<longrightarrow> \<not> requests ack x) \<and>
        (\<forall>x. between staged request x \<and> requests ack x \<longrightarrow> x = request) \<and> request AND 127 = divider)"

lemma path_is_quiet:
  assumes a: "a \<in> {0, 1}" and d: "0 \<le> d" "d < 128"
  shows "quiet_path a d"
proof -
  let ?s = "staged_word a d"
  have idle: "\<not> requests a x" if "between 0 (push_bit 15 a) x" for x
    using that magic_bit [of x] by (auto simp: between_def requests_def bit_push_bit_iff dest: spec [of _ 7])
  have stay: "\<not> requests a x" if "\<And>i. 15 \<le> i \<Longrightarrow> bit x i = bit (push_bit 15 a) i" for x
  proof -
    have "drop_bit 15 x = a" by (rule bit_eqI) (simp add: bit_drop_bit_eq that bit_push_bit_iff)
    then show ?thesis by (simp add: requests_def)
  qed
  have one: "x = ?s XOR 0x8000" if "between ?s (?s XOR 0x8000) x" "requests a x" for x
  proof (cases "bit x 15 = bit ?s 15")
    case True
    then have "bit x i = bit ?s i" for i
      using spec [OF that(1) [unfolded between_def], of i] request_bits [of ?s i] by (cases "i = 15") auto
    then have "x = ?s" by (rule bit_eqI)
    then have "\<not> requests a x" using staged_bits(1) [OF a d] by (intro stay) simp
    then show ?thesis using that(2) by simp
  next
    case False
    then have "bit x i = bit (?s XOR 0x8000) i" for i
      using spec [OF that(1) [unfolded between_def], of i] request_bits [of ?s i] by (cases "i = 15") auto
    then show ?thesis by (rule bit_eqI)
  qed
  have "(?s XOR 0x8000) AND 127 = d"
  proof (rule bit_eqI)
    fix i
    have m: "bit (127 :: int) i \<longleftrightarrow> i < 7" using bit_mask_iff [where 'a = int, of 7 i] by (simp add: mask_eq_exp_minus_1)
    have c1: "\<not> bit (24704 :: int) i" if "i < 7"
    proof -
      have "(24704 :: int) = push_bit 7 0xc1" by simp
      then show ?thesis using that by (simp only: bit_push_bit_iff) simp
    qed
    have hi: "\<not> bit d i" if "7 \<le> i"
    proof -
      have "d < 2 ^ i" using d power_increasing [OF that, of "2 :: int"] by simp
      then show ?thesis using d by (simp add: bit_iff_odd)
    qed
    then show "bit ((?s XOR 0x8000) AND 127) i = bit d i"
      using c1 hi by (cases "i < 7") (auto simp: bit_and_iff m request_bits staged_word_def bit_or_iff bit_push_bit_iff)
  qed
  moreover have "\<not> requests a x" if "between (push_bit 15 a) ?s x" for x
    using that staged_bits(1) [OF a d] by (intro stay) (auto simp: between_def)
  ultimately show ?thesis using idle one unfolding quiet_path_def Let_def by blast
qed

lemma word_range: "(\<And>i. 16 \<le> i \<Longrightarrow> \<not> bit (x :: int) i) \<Longrightarrow> 0 \<le> x \<and> x \<le> 65535"
proof -
  assume hi: "\<And>i. 16 \<le> i \<Longrightarrow> \<not> bit x i"
  have "take_bit 16 x = x" by (rule bit_eqI) (metis bit_take_bit_iff hi not_less)
  then show ?thesis by (simp add: take_bit_int_eq_self_iff)
qed

lemma staged_high:
  assumes "a \<in> {0, 1}" "0 \<le> d" "d < 128" "16 \<le> i"
  shows "\<not> bit (staged_word a d) i" "\<not> bit (push_bit 15 a) i"
proof -
  show "\<not> bit (push_bit 15 a) i" using assms(1,4) by (auto simp: bit_push_bit_iff bit_1_iff)
  then show "\<not> bit (staged_word a d) i" using staged_bits(1) [OF assms(1-3), of i] assms(4) by simp
qed

lemma staged_range:
  assumes "a \<in> {0, 1}" "0 \<le> d" "d < 128"
  shows "0 \<le> push_bit 15 a \<and> push_bit 15 a \<le> 65535" "0 \<le> staged_word a d \<and> staged_word a d \<le> 65535"
    "0 \<le> staged_word a d XOR 0x8000 \<and> staged_word a d XOR 0x8000 \<le> 65535"
proof -
  note hi = staged_high [OF assms]
  show "0 \<le> push_bit 15 a \<and> push_bit 15 a \<le> 65535" by (rule word_range) (rule hi(2))
  show "0 \<le> staged_word a d \<and> staged_word a d \<le> 65535" by (rule word_range) (rule hi(1))
  show "0 \<le> staged_word a d XOR 0x8000 \<and> staged_word a d XOR 0x8000 \<le> 65535"
    by (rule word_range) (use hi(1) in \<open>simp add: request_bits\<close>)
qed

lemma request_word:
  assumes "a \<in> {0, 1}" "0 \<le> d" "d < 128"
  shows "requests a (staged_word a d XOR 0x8000)" "drop_bit 15 (staged_word a d XOR 0x8000) = 1 - a"
proof -
  show top: "drop_bit 15 (staged_word a d XOR 0x8000) = 1 - a"
  proof (rule bit_eqI)
    fix i
    have "bit (drop_bit 15 (staged_word a d XOR 0x8000)) i \<longleftrightarrow> (if i = 0 then \<not> bit (push_bit 15 a) 15 else bit (push_bit 15 a) (15 + i))"
      using staged_bits(1) [OF assms, of "15 + i"] by (simp only: bit_drop_bit_eq comp_def request_bits) simp
    also have "\<dots> \<longleftrightarrow> bit (1 - a) i" using assms(1) by (auto simp: bit_push_bit_iff bit_1_iff)
    finally show "bit (drop_bit 15 (staged_word a d XOR 0x8000)) i = bit (1 - a) i" .
  qed
  have "drop_bit 7 (staged_word a d XOR 0x8000) AND 0xff = 0xc1"
  proof (rule bit_eqI)
    fix i
    have m: "bit (0xff :: int) i \<longleftrightarrow> i < 8" using bit_mask_iff [where 'a = int, of 8 i] by (simp add: mask_eq_exp_minus_1)
    have small: "\<not> bit (0xc1 :: int) i" if "8 \<le> i"
    proof -
      have "(0xc1 :: int) < 2 ^ i" using power_increasing [OF that, of "2 :: int"] by simp
      then show ?thesis by (simp add: bit_iff_odd)
    qed
    have "\<not> bit d (7 + i)"
    proof -
      have "d < 2 ^ (7 + i)" using assms(3) power_increasing [of 7 "7 + i" "2 :: int"] by simp
      then show ?thesis using assms(2) by (simp add: bit_iff_odd)
    qed
    moreover have "bit (push_bit 7 0xc1 :: int) (7 + i) = bit (0xc1 :: int) i" by (simp only: bit_push_bit_iff) simp
    ultimately have st: "bit (staged_word a d) (7 + i) = bit (0xc1 :: int) i" if "i < 8"
      using that by (simp only: staged_word_def bit_or_iff) (simp add: bit_push_bit_iff)
    have "bit (drop_bit 7 (staged_word a d XOR 0x8000) AND 0xff) i \<longleftrightarrow> i < 8 \<and> bit (staged_word a d) (7 + i)"
      by (simp only: bit_and_iff m bit_drop_bit_eq comp_def request_bits) auto
    then show "bit (drop_bit 7 (staged_word a d XOR 0x8000) AND 0xff) i = bit (0xc1 :: int) i"
      using st small [unfolded not_less [symmetric]] by blast
  qed
  then show "requests a (staged_word a d XOR 0x8000)" using top assms(1) by (auto simp: requests_def)
qed

subsection \<open>The commands of a change\<close>

lemma decode_ack: "decode raw = Inr st \<Longrightarrow> pl_ack st \<in> {0, 1}"
proof -
  assume "decode raw = Inr st"
  then have "pl_ack st = drop_bit 11 raw AND 1" by (auto simp: decode_def split: if_splits)
  then show ?thesis unfolding and_one_eq by auto
qed

lemma read_status_ack: "read_status M b = Some (Inr (raw, st), b') \<Longrightarrow> pl_ack st \<in> {0, 1}"
  unfolding read_status_def by (elim bindIO_cases) (auto simp: ofE_def bindIO_def dest: decode_ack split: sum.splits)

lemma logged_step:
  assumes "bindIO m f (b, l) = Some (r, (b', l'))"
    and "\<And>x y t. m (b, l) = Some (x, (y, t)) \<Longrightarrow> t = l @ cs"
  obtains e where "r = Inl e" "l' = l @ cs" | x y where "m (b, l) = Some (Inr x, (y, l @ cs))" "f x (y, l @ cs) = Some (r, (b', l'))"
  using assms(1)
proof (cases rule: bindIO_cases)
  case (1 e t)
  then show ?thesis using assms(2) that(1) by (cases t) auto
next
  case (2 x t)
  then show ?thesis using assms(2) that(2) by (cases t) auto
qed

lemma read_status_keeps: "read_status (logged M) (b, l) = Some (x, (y, t)) \<Longrightarrow> t = l @ []"
  using read_status_logged by fastforce

text \<open>Succeeded steps are a prefix; a success has sent them all and has seen the final state.\<close>

definition sent_ok :: "int \<Rightarrow> int \<Rightarrow> (py_error + pll_change) \<Rightarrow> command list \<Rightarrow> bool" where
  "sent_ok ack divider r sent \<longleftrightarrow> (\<exists>rest. steps_of ack divider = sent @ rest) \<and>
     (\<forall>c. r = Inr c \<longrightarrow> sent = steps_of ack divider)"

lemma sent_failed: "steps_of ack divider = sent @ rest \<Longrightarrow> sent_ok ack divider (Inl e) sent"
  by (auto simp: sent_ok_def)

lemma change_sent:
  assumes "change (logged M) divider (b, []) = Some (r, (b', sent))"
  shows "(\<exists>e. r = Inl e \<and> sent = []) \<or> (10 \<le> divider \<and> divider \<le> 50 \<and>
    (\<exists>raw st b1. read_status M b = Some (Inr (raw, st), b1) \<and> \<not> pl_busy st \<and> pl_safe st \<and> sent_ok (pl_ack st) divider r sent))"
proof (cases "10 \<le> divider \<and> divider \<le> 50")
  case False
  then show ?thesis using assms by (auto simp: change_def)
next
  case True
  have st_def: "steps_of a divider = [Claimed, Wrote (push_bit 15 a), Wrote (staged_word a divider), Wrote (staged_word a divider XOR 0x8000)]" for a
    by (simp add: steps_of_def)
  note body = assms [unfolded change_def if_not_P [OF iffD2 [OF not_not True]]]
  from body show ?thesis
  proof (rule logged_step [where cs = "[]"], goal_cases)
    case (3 x b1)
    obtain raw st where x: "x = (raw, st)" by (cases x)
    have first: "read_status M b = Some (Inr (raw, st), b1)" using 3(1) read_status_logged x by fastforce
    show ?case
    proof (cases "pl_busy st \<or> \<not> pl_safe st")
      case True
      then show ?thesis using 3(2) x by auto
    next
      case ok: False
      let ?a = "pl_ack st"
      have "sent_ok ?a divider r sent"
        using 3(2) [unfolded x prod.case if_not_P [OF ok]]
      proof (rule logged_step [where cs = "[Claimed]"], goal_cases)
        case (3 u b2)
        from 3(2) show ?case
        proof (rule logged_step [where cs = "[Wrote (push_bit 15 ?a)]"], goal_cases)
          case (3 u b3)
          from 3(2) show ?case
          proof (rule logged_step [where cs = "[]"], goal_cases)
            case (3 u b4)
            from 3(2) [unfolded Let_def] show ?case
            proof (rule logged_step [where cs = "[Wrote (staged_word ?a divider)]"], goal_cases)
              case (3 u b5)
              from 3(2) show ?case
              proof (rule logged_step [where cs = "[]"], goal_cases)
                case (3 u b6)
                from 3(2) show ?case
                proof (rule logged_step [where cs = "[]"], goal_cases)
                  case (3 x b7)
                  obtain raw' st' where x: "x = (raw', st')" by (cases x)
                  show ?case
                  proof (cases "pl_busy st' \<or> \<not> pl_safe st' \<or> pl_ack st' \<noteq> ?a")
                    case True
                    then show ?thesis using 3(2) x by (auto intro!: sent_failed simp: st_def)
                  next
                    case ready: False
                    from 3(2) [unfolded x prod.case if_not_P [OF ready]] show ?thesis
                    proof (rule logged_step [where cs = "[Wrote (staged_word ?a divider XOR 0x8000)]"], goal_cases)
                      case (3 u b8)
                      from 3(2) show ?case
                      proof (rule logged_step [where cs = "[]"], goal_cases)
                        case (3 now b9)
                        from 3(2) show ?case
                        proof (rule logged_step [where cs = "[]"], goal_cases)
                          case (1 x y t)
                          then show ?case using ack_loop_logged by fastforce
                        qed (auto simp: sent_ok_def st_def split: prod.splits)
                      qed (auto intro!: sent_failed simp: st_def logged_simps)
                    qed (auto intro!: sent_failed simp: st_def logged_simps)
                  qed
                qed (auto intro!: sent_failed simp: st_def dest: read_status_keeps)
              qed (auto intro!: sent_failed simp: st_def logged_simps)
            qed (auto intro!: sent_failed simp: st_def logged_simps)
          qed (auto intro!: sent_failed simp: st_def logged_simps)
        qed (auto intro!: sent_failed simp: st_def logged_simps)
      qed (auto intro!: sent_failed simp: st_def logged_simps)
      then show ?thesis using True first ok by blast
    qed
  qed (auto dest: read_status_keeps)
qed

text \<open>
  C24. The protocol never asks for a clock change that was not ordered. Whatever the mailbox answers,
  the commands that are sent are a prefix of claim, toggle, staged word, request, and none at all is
  sent unless the divider is within 10 to 50 and the controller was idle with the guest in reset. Even
  if the lines change one at a time, no word on the way is a request before the last write, and then
  the only request is the one for the ordered divider. A success means that all four were sent.
\<close>

theorem change_commands:
  assumes "change (logged M) divider (b, []) = Some (r, (b', sent))"
  shows "(\<exists>e. r = Inl e \<and> sent = []) \<or> (10 \<le> divider \<and> divider \<le> 50 \<and>
    (\<exists>raw st b1. read_status M b = Some (Inr (raw, st), b1) \<and> \<not> pl_busy st \<and> pl_safe st \<and>
      sent_ok (pl_ack st) divider r sent \<and> quiet_path (pl_ack st) divider))"
proof -
  have "quiet_path (pl_ack st) divider" if "read_status M b = Some (Inr (raw, st), b1)" "10 \<le> divider" "divider \<le> 50" for raw st b1
    using path_is_quiet read_status_ack [OF that(1)] that(2,3) by auto
  then show ?thesis using change_sent [OF assms] by blast
qed

text \<open>A mailbox whose controller never answers and whose clock jumps five seconds at a time.\<close>

definition deaf :: "int mailbox" where
  "deaf = \<lparr> mb_read = (\<lambda>b. Some (Inr 0x504c5c99, b)), mb_claim = (\<lambda>b. Some (Inr (), b)), mb_write = (\<lambda>v b. Some (Inr (), b)),
     mb_now = (\<lambda>b. Some (Inr b, b + 5000)), mb_sleep = (\<lambda>n b. Some (Inr (), b)) \<rparr>"

lemma deaf_word: "decode 0x504c5c99 = Inr \<lparr> pl_raw = 0x504c5c99, pl_divider = 25, pl_enabled = True, pl_busy = False,
    pl_error = False, pl_locked = True, pl_ack = 1, pl_safe = True, pl_reset = False \<rparr>"
  by (simp add: decode_def)

lemma deaf_change: "change (logged deaf) 14 (0, []) = Some (Inl (TimeoutError), (10000, steps_of 1 14))"
  unfolding change_def
  by (simp add: read_status_def bindIO_def logged_def logging_def deaf_def deaf_word ofE_def steps_of_def Let_def ack_loop.simps)

theorem change_commands_witness:
  "(\<exists>e. (Inl (TimeoutError) :: py_error + pll_change) = Inl e \<and> steps_of 1 14 = []) \<or> (10 \<le> (14 :: int) \<and> (14 :: int) \<le> 50 \<and>
    (\<exists>raw st b1. read_status deaf 0 = Some (Inr (raw, st), b1) \<and> \<not> pl_busy st \<and> pl_safe st \<and>
      sent_ok (pl_ack st) 14 (Inl (TimeoutError)) (steps_of 1 14) \<and> quiet_path (pl_ack st) 14))"
  by (rule change_commands [OF deaf_change])

subsection \<open>Lines and words\<close>

lemma bits_of_word: "sum_list (map (\<lambda>i. push_bit i (drop_bit i w AND 1)) [0..<n]) = take_bit n (w :: int)"
proof (induction n)
  case (Suc n)
  have "push_bit n (drop_bit n w AND 1) = (if bit w n then 2 ^ n else 0)"
    by (simp add: and_one_eq push_bit_eq_mult bit_iff_odd_drop_bit mod2_eq_if)
  then show ?case using Suc by (simp add: take_bit_Suc_from_most algebra_simps)
qed simp

definition lines_of :: "int \<Rightarrow> int list" where
  "lines_of w = map (\<lambda>i. drop_bit i w AND 1) [0..<64]"

lemma gather_lines: "0 \<le> w \<Longrightarrow> w < 2 ^ 31 \<Longrightarrow> gather (lines_of w) = w"
proof -
  assume w: "0 \<le> w" "w < 2 ^ 31"
  have n: "length STATUS_LINES = 31" by (simp add: STATUS_LINES_def)
  have "gather (lines_of w) = sum_list (map (\<lambda>i. push_bit i (drop_bit i w AND 1)) [0..<31])"
    unfolding gather_def n lines_of_def by (intro arg_cong [where f = sum_list] map_cong refl) (simp add: and.assoc)
  then show ?thesis using w by (simp only: bits_of_word take_bit_int_eq_self)
qed

text \<open>The word that sixteen command lines carry.\<close>

definition command_word :: "int list \<Rightarrow> int" where
  "command_word vs = sum_list (map (\<lambda>i. push_bit i (vs ! i)) [0..<16])"

lemma command_spread: "0 \<le> v \<Longrightarrow> v < 65536 \<Longrightarrow> command_word (spread v) = v"
proof -
  assume v: "0 \<le> v" "v < 65536"
  have "command_word (spread v) = sum_list (map (\<lambda>i. push_bit i (drop_bit i v AND 1)) [0..<16])"
    unfolding command_word_def spread_def by (intro arg_cong [where f = sum_list] map_cong refl) simp
  moreover have "v < 2 ^ 16" using v by simp
  ultimately show ?thesis using v by (simp only: bits_of_word take_bit_int_eq_self)
qed

subsection \<open>A reference controller\<close>

text \<open>
  A controller that takes \<open>latency\<close> milliseconds to reprogram and relock; while it is busy the clock is
  gated and the old divider is reported, at the end it acknowledges by its toggle.
\<close>

record controller =
  ct_ack :: int
  ct_div :: int
  ct_target :: int
  ct_left :: int
  ct_time :: int

definition ct_word :: "controller \<Rightarrow> int" where
  "ct_word c = 0x504c5000 + 2048 * ct_ack c + (if ct_left c > 0 then 256 else 1024 + 128) + ct_div c"

definition ct_command :: "int \<Rightarrow> int \<Rightarrow> controller \<Rightarrow> controller" where
  "ct_command latency w c = (if ct_left c = 0 \<and> requests (ct_ack c) w then c\<lparr> ct_target := w AND 127, ct_left := latency \<rparr> else c)"

definition ct_wait :: "int \<Rightarrow> controller \<Rightarrow> controller" where
  "ct_wait n c = (let c' = c\<lparr> ct_time := ct_time c + n \<rparr> in
     if ct_left c = 0 then c'
     else if ct_left c \<le> n then c'\<lparr> ct_left := 0, ct_ack := 1 - ct_ack c, ct_div := ct_target c \<rparr>
     else c'\<lparr> ct_left := ct_left c - n \<rparr>)"

definition pll_dev :: "int \<Rightarrow> controller gpio_dev" where
  "pll_dev latency = \<lparr> gd_info = (\<lambda>c. (''zynqmp_gpio'', 174)),
     gd_request = (\<lambda>r c. (4 + hr_flags r, if hr_flags r = 2 then ct_command latency 0 c else c)),
     gd_get = (\<lambda>fd c. (lines_of (ct_word c), c)), gd_set = (\<lambda>fd vs c. ct_command latency (command_word vs) c),
     gd_now = (\<lambda>c. (ct_time c, c)), gd_sleep = ct_wait \<rparr>"

definition ct_ok :: "controller \<Rightarrow> bool" where
  "ct_ok c \<longleftrightarrow> ct_ack c \<in> {0, 1} \<and> 0 \<le> ct_div c \<and> ct_div c < 128 \<and> 0 \<le> ct_left c"

definition ct_status :: "controller \<Rightarrow> pll_status" where
  "ct_status c = \<lparr> pl_raw = ct_word c, pl_divider = ct_div c, pl_enabled = (ct_left c = 0), pl_busy = (ct_left c > 0), pl_error = False,
     pl_locked = (ct_left c = 0), pl_ack = ct_ack c, pl_safe = True, pl_reset = False \<rparr>"

lemma and_power_nonzero: "(x :: int) AND 2 ^ n \<noteq> 0 \<longleftrightarrow> odd (x div 2 ^ n)"
  by (simp add: and_exp_eq_0_iff_not_bit bit_iff_odd)

lemma decode_ct: "ct_ok c \<Longrightarrow> decode (ct_word c) = Inr (ct_status c)"
proof -
  assume ok: "ct_ok c"
  let ?w = "ct_word c"
  have w: "?w = 0x504c5000 + 2048 * ct_ack c + (if ct_left c > 0 then 256 else 1152) + ct_div c" by (simp add: ct_word_def)
  have b: "ct_ack c = 0 \<or> ct_ack c = 1" "0 \<le> ct_div c" "ct_div c < 128" "0 \<le> ct_left c" using ok by (auto simp: ct_ok_def)
  have m: "?w AND 127 = ?w mod 128" "drop_bit 14 ?w AND 3 = (?w div 16384) mod 4" "drop_bit 11 ?w AND 1 = (?w div 2048) mod 2"
    "drop_bit 16 ?w = ?w div 65536"
    using and_mask_mod [of _ 7] and_mask_mod [of _ 2] by (simp_all add: drop_bit_eq_div and_one_eq)
  have p: "?w AND 128 \<noteq> 0 \<longleftrightarrow> odd (?w div 128)" "?w AND 256 \<noteq> 0 \<longleftrightarrow> odd (?w div 256)" "?w AND 512 \<noteq> 0 \<longleftrightarrow> odd (?w div 512)"
    "?w AND 1024 \<noteq> 0 \<longleftrightarrow> odd (?w div 1024)" "?w AND 4096 \<noteq> 0 \<longleftrightarrow> odd (?w div 4096)" "?w AND 8192 \<noteq> 0 \<longleftrightarrow> odd (?w div 8192)"
    using and_power_nonzero [of ?w 7] and_power_nonzero [of ?w 8] and_power_nonzero [of ?w 9] and_power_nonzero [of ?w 10]
      and_power_nonzero [of ?w 12] and_power_nonzero [of ?w 13] by simp_all
  define K where "K = 0xA098A0 + 16 * ct_ack c + (if ct_left c > 0 then 2 else 9)"
  have wK: "?w = ct_div c + 128 * K" unfolding w K_def by simp
  have q: "?w div 128 = K" "?w mod 128 = ct_div c" using b(2,3) unfolding wK by simp_all
  have deeper: "?w div (128 * k) = K div k" if "0 \<le> k" for k using zdiv_zmult2_eq [OF that, of ?w 128] q(1) by simp
  have d2: "?w div 256 = K div 2" using deeper [of 2] by simp
  have d4: "?w div 512 = K div 4" using deeper [of 4] by simp
  have d8: "?w div 1024 = K div 8" using deeper [of 8] by simp
  have d16: "?w div 2048 = K div 16" using deeper [of 16] by simp
  have d32: "?w div 4096 = K div 32" using deeper [of 32] by simp
  have d64: "?w div 8192 = K div 64" using deeper [of 64] by simp
  have d128: "?w div 16384 = K div 128" using deeper [of 128] by simp
  have d512: "?w div 65536 = K div 512" using deeper [of 512] by simp
  note divs = d2 d4 d8 d16 d32 d64 d128 d512
  consider "ct_ack c = 0" "ct_left c > 0" "K = 10524834" | "ct_ack c = 0" "ct_left c = 0" "K = 10524841"
    | "ct_ack c = 1" "ct_left c > 0" "K = 10524850" | "ct_ack c = 1" "ct_left c = 0" "K = 10524857"
    using b(1,4) by (cases "ct_left c > 0") (auto simp: K_def)
  then show ?thesis
    unfolding decode_def m p divs q by cases (simp_all add: ct_status_def q(2))
qed

lemma ct_word_range: "ct_ok c \<Longrightarrow> 0 \<le> ct_word c \<and> ct_word c < 2 ^ 31"
  by (auto simp: ct_ok_def ct_word_def)

lemma status_read:
  assumes "ct_ok (gb_hw b)" "gb_input b = Some fd"
  shows "read_status (gpio_mailbox (pll_dev lat)) b = Some (Inr (ct_word (gb_hw b), ct_status (gb_hw b)), b)"
proof -
  have "gather (lines_of (ct_word (gb_hw b))) = ct_word (gb_hw b)" using ct_word_range [OF assms(1)] by (intro gather_lines) auto
  then show ?thesis using decode_ct [OF assms(1)] assms(2)
    by (simp add: read_status_def gpio_mailbox_def gpio_read_def pll_dev_def)
qed

lemma ack_loop_round:
  assumes "ct_ok (gb_hw b)" "gb_input b = Some fd" "ct_time (gb_hw b) < dl" "ct_left (gb_hw b) > 0 \<or> ct_ack (gb_hw b) = tg"
    "ct_left (gb_hw b) = 0 \<longrightarrow> ct_div (gb_hw b) = d"
  shows "ack_loop (gpio_mailbox (pll_dev lat)) d tg dl held samples b =
    (if ct_left (gb_hw b) = 0 \<and> held = Some (ct_word (gb_hw b))
     then Some (Inr (ct_status (gb_hw b), add_sample (ct_status (gb_hw b)) samples), b)
     else ack_loop (gpio_mailbox (pll_dev lat)) d tg dl (if ct_left (gb_hw b) = 0 then Some (ct_word (gb_hw b)) else None)
       (add_sample (ct_status (gb_hw b)) samples) (b\<lparr> gb_hw := ct_wait 2 (gb_hw b) \<rparr>))"
proof -
  have now: "mb_now (gpio_mailbox (pll_dev lat)) b = Some (Inr (ct_time (gb_hw b)), b)"
    by (simp add: gpio_mailbox_def pll_dev_def)
  have sleep: "mb_sleep (gpio_mailbox (pll_dev lat)) 2 b = Some (Inr (), b\<lparr> gb_hw := ct_wait 2 (gb_hw b) \<rparr>)"
    by (simp add: gpio_mailbox_def pll_dev_def)
  show ?thesis
    using assms(1,3-5) status_read [OF assms(1,2)] now sleep
    by (subst ack_loop.simps) (auto simp: ct_status_def settled_def ct_ok_def)
qed

lemma ct_wait_ok: "ct_ok c \<Longrightarrow> 0 \<le> ct_target c \<Longrightarrow> ct_target c < 128 \<Longrightarrow> 0 \<le> n \<Longrightarrow> ct_ok (ct_wait n c)"
  by (auto simp: ct_wait_def ct_ok_def Let_def)

lemma ack_loop_settles:
  assumes "ct_ok (gb_hw b)" "gb_input b = Some fd" "ct_time (gb_hw b) + ct_left (gb_hw b) + (if ct_left (gb_hw b) > 0 then 5 else 4) < dl" "0 \<le> d" "d < 128"
    "if ct_left (gb_hw b) > 0 then ct_target (gb_hw b) = d \<and> ct_ack (gb_hw b) = 1 - tg else ct_ack (gb_hw b) = tg \<and> ct_div (gb_hw b) = d"
  shows "\<exists>st smp b'. ack_loop (gpio_mailbox (pll_dev lat)) d tg dl None samples b = Some (Inr (st, smp), b') \<and>
    settled d st \<and> ct_div (gb_hw b') = d \<and> ct_ack (gb_hw b') = tg \<and> ct_left (gb_hw b') = 0"
  using assms
proof (induction "nat (ct_left (gb_hw b))" arbitrary: b samples rule: less_induct)
  case less
  let ?c = "gb_hw b"
  have left: "0 \<le> ct_left ?c" using less.prems(1) by (simp add: ct_ok_def)
  show ?case
  proof (cases "ct_left ?c = 0")
    case True
    have fin: "ct_ack ?c = tg" "ct_div ?c = d" using less.prems(6) True by simp_all
    let ?b = "b\<lparr> gb_hw := ct_wait 2 ?c \<rparr>"
    have c': "ct_wait 2 ?c = ?c\<lparr> ct_time := ct_time ?c + 2 \<rparr>" using True by (simp add: ct_wait_def)
    have ok': "ct_ok (ct_wait 2 ?c)" using less.prems(1) by (simp add: c' ct_ok_def)
    have same: "ct_word (ct_wait 2 ?c) = ct_word ?c" by (simp add: c' ct_word_def)
    have "ack_loop (gpio_mailbox (pll_dev lat)) d tg dl None samples b =
        ack_loop (gpio_mailbox (pll_dev lat)) d tg dl (Some (ct_word ?c)) (add_sample (ct_status ?c) samples) ?b"
      using ack_loop_round [OF less.prems(1,2), where dl = dl and tg = tg and d = d and held = None] less.prems(3) True fin by simp
    also have "\<dots> = Some (Inr (ct_status (ct_wait 2 ?c), add_sample (ct_status (ct_wait 2 ?c)) (add_sample (ct_status ?c) samples)), ?b)"
      using ack_loop_round [of ?b fd dl tg d lat "Some (ct_word ?c)"] less.prems(2,3) True fin ok' same by (simp add: c')
    finally show ?thesis using True fin by (auto simp: c' settled_def ct_status_def)
  next
    case False
    let ?b = "b\<lparr> gb_hw := ct_wait 2 ?c \<rparr>"
    have pos: "ct_left ?c > 0" using left False by simp
    have tgt: "ct_target ?c = d" "ct_ack ?c = 1 - tg" using less.prems(6) pos by simp_all
    have step: "ack_loop (gpio_mailbox (pll_dev lat)) d tg dl None samples b =
        ack_loop (gpio_mailbox (pll_dev lat)) d tg dl None (add_sample (ct_status ?c) samples) ?b"
      using ack_loop_round [OF less.prems(1,2), where dl = dl and tg = tg and d = d and held = None] less.prems(3) pos by simp
    have "\<exists>st smp b'. ack_loop (gpio_mailbox (pll_dev lat)) d tg dl None (add_sample (ct_status ?c) samples) ?b = Some (Inr (st, smp), b') \<and>
        settled d st \<and> ct_div (gb_hw b') = d \<and> ct_ack (gb_hw b') = tg \<and> ct_left (gb_hw b') = 0"
      using less.prems pos tgt
      by (intro less.hyps) (auto simp: ct_wait_def ct_ok_def Let_def)
    then show ?thesis unfolding step .
  qed
qed

text \<open>
  C23. A change reaches the controller and is verified. Through the sixteen command lines and the
  status lines, against a controller that needs less than 1.9 seconds to reprogram and relock, every
  divider from 10 to 50 is accepted: the call succeeds, the reported state is settled at the ordered
  divider, and the controller runs at it with its toggle flipped exactly once.
\<close>

theorem change_programs:
  assumes "ct_ok c" "ct_left c = 0" "10 \<le> divider" "divider \<le> 50" "0 < latency" "latency < 1900"
  shows "\<exists>r b'. change (gpio_mailbox (pll_dev latency)) divider \<lparr> gb_input = Some fd, gb_output = None, gb_hw = c \<rparr> = Some (Inr r, b') \<and>
    settled divider (pc_after r) \<and> ct_div (gb_hw b') = divider \<and> ct_ack (gb_hw b') = 1 - ct_ack c \<and> ct_left (gb_hw b') = 0"
proof -
  let ?M = "gpio_mailbox (pll_dev latency)" and ?a = "ct_ack c"
  define B where "B k hw = \<lparr> gb_input = Some fd, gb_output = k, gb_hw = hw \<rparr>" for k and hw :: controller
  define staged where "staged = staged_word ?a divider"
  define req where "req = staged XOR 0x8000"
  have a: "?a \<in> {0, 1}" using assms(1) by (simp add: ct_ok_def)
  have d: "0 \<le> divider" "divider < 128" using assms(3,4) by simp_all
  have quiet: "\<not> requests ?a 0" "\<not> requests ?a (push_bit 15 ?a)" "\<not> requests ?a staged" "req AND 127 = divider"
    using path_is_quiet [OF a d] unfolding quiet_path_def Let_def staged_def req_def by (auto simp: between_def)
  have range: "0 \<le> push_bit 15 ?a \<and> push_bit 15 ?a \<le> 65535" "0 \<le> staged \<and> staged \<le> 65535" "0 \<le> req \<and> req \<le> 65535"
    using staged_range [OF a d] unfolding staged_def req_def by auto
  have toggled: "requests ?a req" "drop_bit 15 req = 1 - ?a"
    using request_word [OF a d] unfolding staged_def req_def by auto
  have wr: "mb_write ?M v (B (Some 6) hw) = Some (Inr (), B (Some 6) (ct_command latency v hw))" if "0 \<le> v \<and> v \<le> 65535" for v hw
    using that command_spread [of v] by (simp add: gpio_mailbox_def gpio_write_def B_def pll_dev_def)
  have sleep: "mb_sleep ?M n (B k hw) = Some (Inr (), B k (ct_wait n hw))" for n k hw
    by (simp add: gpio_mailbox_def B_def pll_dev_def)
  have now: "mb_now ?M (B k hw) = Some (Inr (ct_time hw), B k hw)" for k hw by (simp add: gpio_mailbox_def B_def pll_dev_def)
  have claim: "mb_claim ?M (B None c) = Some (Inr (), B (Some 6) c)"
    using quiet(1) by (simp add: gpio_mailbox_def claim_output_def request_lines_def B_def pll_dev_def ct_command_def Let_def)
  have read: "read_status ?M (B k hw) = Some (Inr (ct_word hw, ct_status hw), B k hw)" if "ct_ok hw" for k hw
    using status_read [of "B k hw" fd latency] that by (simp add: B_def)
  have step4: "ct_time c + 2 + 2 = ct_time c + 4" by simp
  let ?c4 = "c\<lparr> ct_time := ct_time c + 4 \<rparr>"
  have idle: "ct_command latency (push_bit 15 ?a) c = c" "ct_command latency staged (c\<lparr> ct_time := t \<rparr>) = c\<lparr> ct_time := t \<rparr>"
    "ct_wait 2 (c\<lparr> ct_time := t \<rparr>) = c\<lparr> ct_time := t + 2 \<rparr>" "ct_wait 2 c = c\<lparr> ct_time := ct_time c + 2 \<rparr>" for t
    using quiet(2,3) assms(2) by (simp_all add: ct_command_def ct_wait_def)
  let ?c5 = "?c4\<lparr> ct_target := divider, ct_left := latency \<rparr>"
  have go: "ct_command latency req ?c4 = ?c5" using toggled(1) quiet(4) assms(2) by (simp add: ct_command_def)
  have ok4: "ct_ok ?c4" "ct_ok ?c5" using assms(1,5) by (simp_all add: ct_ok_def)
  obtain st smp b' where loop: "ack_loop ?M divider (1 - ?a) (ct_time c + 4 + 2000) None [] (B (Some 6) ?c5) = Some (Inr (st, smp), b')"
    "settled divider st" "ct_div (gb_hw b') = divider" "ct_ack (gb_hw b') = 1 - ?a" "ct_left (gb_hw b') = 0"
    using ack_loop_settles [of "B (Some 6) ?c5" fd "ct_time c + 4 + 2000" divider "1 - ?a" latency "[]"] ok4(2) assms(5,6) d
    by (auto simp: B_def)
  have st: "ct_status c = ct_status c" "\<not> pl_busy (ct_status c)" "pl_safe (ct_status c)" "pl_ack (ct_status c) = ?a"
    "\<not> pl_busy (ct_status ?c4)" "pl_safe (ct_status ?c4)" "pl_ack (ct_status ?c4) = ?a"
    using assms(2) by (simp_all add: ct_status_def)
  have "change ?M divider (B None c) = Some (Inr \<lparr> pc_before = ct_status c, pc_after = st, pc_samples = smp, pc_divider = divider \<rparr>, b')"
  proof -
    have in_range: "\<not> \<not> (10 \<le> divider \<and> divider \<le> 50)" using assms(3,4) by simp
    have ok1: "\<not> (pl_busy (ct_status c) \<or> \<not> pl_safe (ct_status c))" using st by simp
    have ok2: "\<not> (pl_busy (ct_status ?c4) \<or> \<not> pl_safe (ct_status ?c4) \<or> pl_ack (ct_status ?c4) \<noteq> ?a)" using st by simp
    have time: "ct_time ?c5 = ct_time c + 4" by simp
    show ?thesis
      unfolding change_def if_not_P [OF in_range]
    proof (rule bindIO_eq, rule read [OF assms(1)], unfold prod.case if_not_P [OF ok1] st(4) Let_def staged_def [symmetric] req_def [symmetric])
      show "bindIO (mb_claim ?M) (\<lambda>_. bindIO (mb_write ?M (push_bit 15 ?a)) (\<lambda>_. bindIO (mb_sleep ?M 2) (\<lambda>_.
          bindIO (mb_write ?M staged) (\<lambda>_. bindIO (mb_sleep ?M 2) (\<lambda>_. bindIO (read_status ?M) (\<lambda>(_, ready).
            if pl_busy ready \<or> \<not> pl_safe ready \<or> pl_ack ready \<noteq> ?a then failIO (ValueError)
            else bindIO (mb_write ?M req) (\<lambda>_. bindIO (mb_now ?M) (\<lambda>t.
              bindIO (ack_loop ?M divider (drop_bit 15 req) (t + 2000) None []) (\<lambda>(st, samples).
                retIO \<lparr> pc_before = ct_status c, pc_after = st, pc_samples = samples, pc_divider = divider \<rparr>))))))))) (B None c) =
        Some (Inr \<lparr> pc_before = ct_status c, pc_after = st, pc_samples = smp, pc_divider = divider \<rparr>, b')"
        apply (rule bindIO_eq, rule claim)
        apply (rule bindIO_eq, rule wr [OF range(1)], unfold idle(1))
        apply (rule bindIO_eq, rule sleep, unfold idle(4))
        apply (rule bindIO_eq, rule wr [OF range(2)], unfold idle(2))
        apply (rule bindIO_eq, rule sleep, unfold idle(3) step4)
        apply (rule bindIO_eq, rule read [OF ok4(1)], unfold prod.case if_not_P [OF ok2])
        apply (rule bindIO_eq, rule wr [OF range(3)], unfold go)
        apply (rule bindIO_eq, rule now, unfold time toggled(2))
        apply (rule bindIO_eq, rule loop(1))
        apply simp
        done
    qed
  qed
  then show ?thesis using loop(2-5) by (auto simp: B_def)
qed

theorem change_programs_witness:
  "\<exists>r b'. change (gpio_mailbox (pll_dev 300)) 14 \<lparr> gb_input = Some 5, gb_output = None, gb_hw =
      \<lparr> ct_ack = 1, ct_div = 25, ct_target = 0, ct_left = 0, ct_time = 7 \<rparr> \<rparr> = Some (Inr r, b') \<and>
    settled 14 (pc_after r) \<and> ct_div (gb_hw b') = 14 \<and>
    ct_ack (gb_hw b') = 1 - ct_ack \<lparr> ct_ack = 1, ct_div = 25, ct_target = 0, ct_left = 0, ct_time = 7 \<rparr> \<and> ct_left (gb_hw b') = 0"
  by (rule change_programs) (simp_all add: ct_ok_def)

end
