(* ===== verification/Board_Mmio.thy ===== *)
theory Board_Mmio
  imports Py_IO Py_Json
begin

text \<open>
  The memory-mapped side of fpga/board-tools/ven_board_probe.py: register offsets, the 32-bit accesses
  to the control block and the 16-bit accesses to low guest memory, the gate that refuses an
  unconfigured FPGA, and the read of a split 64-bit counter. The board is a parameter: every access
  returns a value and may change the state of the hardware. Times are in milliseconds, except for \<open>monotonic_ns\<close>.
\<close>

subsection \<open>Registers\<close>

definition DDR_BASE :: int where "DDR_BASE = 0x60000000"
definition IDENT_MAGIC :: int where "IDENT_MAGIC = 0xA0486501"
definition R_IDENT :: int where "R_IDENT = 0x00"
definition R_DBG2 :: int where "R_DBG2 = 0x70"
definition R_DBG_LASTEIP :: int where "R_DBG_LASTEIP = 0x80"
definition R_DBG_FRZINFO :: int where "R_DBG_FRZINFO = 0x90"
definition R_DBG_FRZEIP :: int where "R_DBG_FRZEIP = 0xA0"
definition R_DBG_TRPC :: int where "R_DBG_TRPC = 0xB0"
definition R_DBG_TRAUX :: int where "R_DBG_TRAUX = 0xC0"
definition R_DBG_CYC_LO :: int where "R_DBG_CYC_LO = 0x100"
definition R_DBG_CYC_HI :: int where "R_DBG_CYC_HI = 0x110"
definition R_DBG_RET_LO :: int where "R_DBG_RET_LO = 0x120"
definition R_DBG_RET_HI :: int where "R_DBG_RET_HI = 0x130"
definition R_DBG_CR0 :: int where "R_DBG_CR0 = 0x160"
definition R_DBG_RDDATA_HI :: int where "R_DBG_RDDATA_HI = 0x30"
definition R_DBG_RDADDR :: int where "R_DBG_RDADDR = 0xD0"
definition R_DBG_RDDATA :: int where "R_DBG_RDDATA = 0xE0"
definition R_DBG_EXEC_CTRL :: int where "R_DBG_EXEC_CTRL = 0x280"
definition R_DBG_BP_ADDR :: int where "R_DBG_BP_ADDR = 0x290"
definition R_DBG_ARCH_SEL :: int where "R_DBG_ARCH_SEL = 0x2A0"
definition R_DBG_ARCH_DATA :: int where "R_DBG_ARCH_DATA = 0x2B0"
definition R_DBG_EXEC_CAP :: int where "R_DBG_EXEC_CAP = 0x2C0"
definition DBG_EXEC_CAP :: int where "DBG_EXEC_CAP = 0x56450005"
definition DBG_EXEC_HALT_REQ :: int where "DBG_EXEC_HALT_REQ = 0x1"
definition DBG_EXEC_BP_EN :: int where "DBG_EXEC_BP_EN = 0x2"
definition DBG_EXEC_HALTED :: int where "DBG_EXEC_HALTED = 0x4"
definition DBG_EXEC_STEP :: int where "DBG_EXEC_STEP = 0x100"
definition DBG_EXEC_BP_CLR :: int where "DBG_EXEC_BP_CLR = 0x200"
definition R_CAP_CTL :: int where "R_CAP_CTL = 0x300"
definition R_CAP_STATUS :: int where "R_CAP_STATUS = 0x310"
definition R_CAP_CYCLE_LO :: int where "R_CAP_CYCLE_LO = 0x320"
definition R_CAP_CYCLE_HI :: int where "R_CAP_CYCLE_HI = 0x330"
definition R_CAP_DIMS :: int where "R_CAP_DIMS = 0x340"
definition R_CAP_PIXELS :: int where "R_CAP_PIXELS = 0x350"
definition R_CAP_ADDR :: int where "R_CAP_ADDR = 0x360"
definition R_CAP_DATA :: int where "R_CAP_DATA = 0x370"
definition CAPTURE_MAX_BYTES :: int where "CAPTURE_MAX_BYTES = 512 * 1024"
definition CAP_STATUS_OVERRUN :: int where "CAP_STATUS_OVERRUN = 0x80000000"
definition CAP_STATUS_ACTIVE :: int where "CAP_STATUS_ACTIVE = 0x40000000"
definition CAP_STATUS_READY :: int where "CAP_STATUS_READY = 0x20000000"
definition CAP_STATUS_SEQUENCE_MASK :: int where "CAP_STATUS_SEQUENCE_MASK = 0x1FFFFFFF"
definition R_KBD_INJECT :: int where "R_KBD_INJECT = 0x380"
definition R_KBD_STATUS :: int where "R_KBD_STATUS = 0x390"
definition R_KBD_CAP :: int where "R_KBD_CAP = 0x3A0"
definition KBD_INJECT_CAP :: int where "KBD_INJECT_CAP = 0x564B0001"
definition KBD_STATUS_READY :: int where "KBD_STATUS_READY = 0x1"
definition W_DBG_CMP_CFG :: int where "W_DBG_CMP_CFG = 0xA0"
definition W_DBG_CMP_RANGE :: int where "W_DBG_CMP_RANGE = 0xB0"
definition W_DBG_CTL :: int where "W_DBG_CTL = 0x80"
definition W_DBG_FREEZE_THRESH :: int where "W_DBG_FREEZE_THRESH = 0x90"
definition VGA_TEXT_BASE :: int where "VGA_TEXT_BASE = 0xB8000"
definition VGA_TEXT_SIZE :: int where "VGA_TEXT_SIZE = 80 * 25 * 2"

subsection \<open>Accesses\<close>

record 'h board =
  bd_state :: "'h \<Rightarrow> string option"
  bd_read :: "int \<Rightarrow> 'h \<Rightarrow> int \<times> 'h"
  bd_write :: "int \<Rightarrow> int \<Rightarrow> 'h \<Rightarrow> 'h"
  bd_low16 :: "int \<Rightarrow> 'h \<Rightarrow> int \<times> 'h"
  bd_set_low16 :: "int \<Rightarrow> int \<Rightarrow> 'h \<Rightarrow> 'h"
  bd_now :: "'h \<Rightarrow> int \<times> 'h"
  bd_now_ns :: "'h \<Rightarrow> int \<times> 'h"
  bd_sleep :: "int \<Rightarrow> 'h \<Rightarrow> 'h"

text \<open>
  The exceptions of the probes, one constructor per message. The probes that retry a page walk leave the
  addresses out of their messages, which they discard.
\<close>

datatype walk_error = PdeOutside int | PdeAbsent int int | PteOutside int | PteAbsent int int | MapsOutside int int

datatype board_error = NotOperating "string option" | WrongIdent int | NoExecDebug int | WaitTimeout bool int | NotHalted
  | BadCount | StepOverrun int | StepTimeout int int bool | BadText | KeyNotConsumed | RingNotEmpty | NoKeyboard
  | KeyboardStuck | NoText | BadKey char | BadRaw | RecorderActive | RecorderTimeout int | RecorderOverrun
  | BadMetadata int int int int | EmptyScanout | UnsettledStartup | WrongMode | CaptureUsage | HeaderOverflow
  | RingLive | BadDepth | BadRange | BoardValue
  | Walk walk_error | StructError | BadWords | BadOffset | CrossesPage | EmptyEntries | EntryNotAllowed | NotCold | NotPrepared | BoardKey | CounterReset
  | RangeConflict | CaptureExists | NoParent | DiskFull | LiveCapture | FileFailed string | ClockReadback int int

type_synonym ('h, 'a) bio = "(board_error, 'h, 'a) eio"

definition rd32 :: "'h board \<Rightarrow> int \<Rightarrow> ('h, int) bio" where
  "rd32 B off h = (case bd_read B off h of (v, h) \<Rightarrow> Some (Inr v, h))"

definition rd16 :: "'h board \<Rightarrow> int \<Rightarrow> ('h, int) bio" where
  "rd16 B off h = (case bd_low16 B off h of (v, h) \<Rightarrow> Some (Inr v, h))"

definition poke :: "'h board \<Rightarrow> int \<Rightarrow> int \<Rightarrow> ('h, unit) bio" where
  "poke B off v h = Some (Inr (), bd_write B off v h)"

definition poke16 :: "'h board \<Rightarrow> int \<Rightarrow> int \<Rightarrow> ('h, unit) bio" where
  "poke16 B off v h = Some (Inr (), bd_set_low16 B off v h)"

definition now :: "'h board \<Rightarrow> ('h, int) bio" where
  "now B h = (case bd_now B h of (t, h) \<Rightarrow> Some (Inr t, h))"

definition now_ns :: "'h board \<Rightarrow> ('h, int) bio" where
  "now_ns B h = (case bd_now_ns B h of (t, h) \<Rightarrow> Some (Inr t, h))"

definition sleep :: "'h board \<Rightarrow> int \<Rightarrow> ('h, unit) bio" where
  "sleep B n h = Some (Inr (), bd_sleep B n h)"

definition guest_address :: "int \<Rightarrow> int" where
  "guest_address raw = (if DDR_BASE \<le> raw \<and> raw < DDR_BASE + 0x10000000 then raw - DDR_BASE else raw)"

partial_function (option) stable_u64 :: "'h board \<Rightarrow> int \<Rightarrow> int \<Rightarrow> 'h \<Rightarrow> ((board_error + int) \<times> 'h) option" where
  "stable_u64 B lo_off hi_off h =
    bindIO (rd32 B hi_off) (\<lambda>hi0. bindIO (rd32 B lo_off) (\<lambda>lo. bindIO (rd32 B hi_off) (\<lambda>hi1 h.
      if hi0 = hi1 then Some (Inr (push_bit 32 hi0 OR lo), h) else stable_u64 B lo_off hi_off h))) h"

text \<open>What every access keeps, a read of a split counter keeps.\<close>

lemma stable_reads:
  assumes "stable_u64 B lo hi h = Some y" "\<And>h. R h h" "\<And>a b c. R a b \<Longrightarrow> R b c \<Longrightarrow> R a c" "\<And>r h. R h (snd (bd_read B r h))"
  shows "R h (snd y)"
proof -
  let ?Q = "\<lambda>B' lo hi h y. B' = B \<longrightarrow> R h (snd y)"
  have "?Q B lo hi h y"
  proof (rule stable_u64.raw_induct [where P = ?Q, OF _ assms(1)], goal_cases)
    case (1 f B' lo hi h y)
    obtain a h1 where h1: "bd_read B hi h = (a, h1)" by fastforce
    obtain b h2 where h2: "bd_read B lo h1 = (b, h2)" by fastforce
    obtain c h3 where h3: "bd_read B hi h2 = (c, h3)" by fastforce
    have "R h h3" using assms(3,4) h1 h2 h3 by (metis snd_conv)
    then show ?case using 1(1) [of B lo hi h3 y] 1(2) assms(3)
      by (auto simp: rd32_def bindIO_def h1 h2 h3 split: if_splits)
  qed
  then show ?thesis by simp
qed

definition require_fpga_operating :: "'h board \<Rightarrow> ('h, unit) bio" where
  "require_fpga_operating B h = (case bd_state B h of None \<Rightarrow> Some (Inl (NotOperating None), h)
     | Some state \<Rightarrow> if strip state \<noteq> ''operating'' then Some (Inl (NotOperating (Some (strip state))), h) else Some (Inr (), h))"

definition open_mmio :: "'h board \<Rightarrow> ('h, unit) bio" where
  "open_mmio B = bindIO (require_fpga_operating B) (\<lambda>_. bindIO (rd32 B R_IDENT) (\<lambda>ident.
     if ident \<noteq> IDENT_MAGIC then failIO (WrongIdent ident) else retIO ()))"

subsection \<open>A split counter\<close>

lemma halves: "push_bit 32 (drop_bit 32 c) OR take_bit 32 c = (c :: int)"
  by (rule bit_eqI) (auto simp: bit_or_iff bit_push_bit_iff bit_drop_bit_eq bit_take_bit_iff)

text \<open>
  What the debug block promises of a free-running counter: a read of one half returns that half of the
  count at that moment, modulo \<open>2 ^ 64\<close>, and no access makes the count go back.
\<close>

locale split_counter =
  fixes B :: "'h board" and lo hi :: int and count :: "'h \<Rightarrow> int"
  assumes hi_read: "fst (bd_read B hi h) = take_bit 32 (drop_bit 32 (count h))"
    and lo_read: "fst (bd_read B lo h) = take_bit 32 (count h)"
    and monotone: "count h \<le> count (snd (bd_read B r h))"
    and in_range: "0 \<le> count h"
begin

definition read_monotone :: "('h \<Rightarrow> int) \<Rightarrow> bool" where
  "read_monotone m \<longleftrightarrow> (\<forall>r h. m h \<le> m (snd (bd_read B r h)))"

text \<open>A state on the way: whatever no access decreases has there a value between those at both ends.\<close>

definition passes :: "'h \<Rightarrow> 'h \<Rightarrow> 'h \<Rightarrow> bool" where
  "passes g h h' \<longleftrightarrow> (\<forall>m. read_monotone m \<longrightarrow> m h \<le> m g \<and> m g \<le> m h')"

lemma count_monotone: "read_monotone count"
  by (simp add: read_monotone_def monotone)

lemma same_half:
  assumes "a \<le> b" "b \<le> c" "drop_bit 32 a = drop_bit 32 (c :: int)"
  shows "drop_bit 32 b = drop_bit 32 a"
proof -
  have "drop_bit 32 a \<le> drop_bit 32 b" "drop_bit 32 b \<le> drop_bit 32 c"
    using assms(1,2) by (simp_all add: drop_bit_eq_div zdiv_mono1)
  then show ?thesis using assms(3) by linarith
qed

lemma hi_word: "count h < 2 ^ 64 \<Longrightarrow> bd_read B hi h = (drop_bit 32 (count h), snd (bd_read B hi h))"
  using drop_bit_take_bit [of 32 64 "count h"] in_range [of h] by (intro prod_eqI) (simp_all add: hi_read take_bit_int_eq_self)

lemma lo_word: "bd_read B lo h = (take_bit 32 (count h), snd (bd_read B lo h))"
  by (intro prod_eqI) (simp_all add: lo_read)

lemma stable_exact:
  assumes "stable_u64 B lo hi h = Some (r, h')" "count h' < 2 ^ 64"
  shows "\<exists>v g. r = Inr v \<and> v = count g \<and> passes g h h'"
proof -
  let ?Q = "\<lambda>B' lo' hi' h y. B' = B \<longrightarrow> lo' = lo \<longrightarrow> hi' = hi \<longrightarrow>
    count (snd y) < 2 ^ 64 \<longrightarrow> (\<exists>v g. fst y = Inr v \<and> v = count g \<and> passes g h (snd y))"
  have "?Q B lo hi h (r, h')"
  proof (rule stable_u64.raw_induct [where P = ?Q, OF _ assms(1)], goal_cases)
    case (1 f B' lo' hi' h y)
    show ?case
    proof (intro impI)
      assume eq: "B' = B" "lo' = lo" "hi' = hi" and fits: "count (snd y) < 2 ^ 64"
      let ?w = "\<lambda>c. take_bit 32 (drop_bit 32 c)"
      obtain h1 where h1: "bd_read B hi h = (?w (count h), h1)" by (metis hi_read prod.collapse)
      obtain h2 where h2: "bd_read B lo h1 = (take_bit 32 (count h1), h2)" by (metis lo_read prod.collapse)
      obtain h3 where h3: "bd_read B hi h2 = (?w (count h2), h3)" by (metis hi_read prod.collapse)
      have up: "count h \<le> count h1" "count h1 \<le> count h2" "count h2 \<le> count h3"
        using monotone [of h hi] monotone [of h1 lo] monotone [of h2 hi] h1 h2 h3 by simp_all
      have step: "(if ?w (count h) = ?w (count h2)
          then Some (Inr (push_bit 32 (?w (count h)) OR take_bit 32 (count h1)), h3) else f B lo hi h3) = Some y"
        using 1(2) unfolding eq by (simp add: rd32_def bindIO_def h1 h2 h3)
      have over: "m h \<le> m h1" "m h1 \<le> m h2" "m h2 \<le> m h3" if "read_monotone m" for m
        using that h1 h2 h3 unfolding read_monotone_def by (metis snd_conv)+
      show "\<exists>v g. fst y = Inr v \<and> v = count g \<and> passes g h (snd y)"
      proof (cases "?w (count h) = ?w (count h2)")
        case True
        then have "y = (Inr (push_bit 32 (?w (count h)) OR take_bit 32 (count h1)), h3)" using step by simp
        then have "count h2 < 2 ^ 64" "count h < 2 ^ 64" using fits up by simp_all
        then have w: "?w (count h) = drop_bit 32 (count h)" "?w (count h2) = drop_bit 32 (count h2)"
          using hi_word [of h] hi_word [of h2] h1 h3 by (metis fst_conv)+
        then have "drop_bit 32 (count h1) = drop_bit 32 (count h)" using True same_half up(1,2) by metis
        then have "push_bit 32 (?w (count h)) OR take_bit 32 (count h1) = count h1" using halves [of "count h1"] w by simp
        moreover have "passes h1 h h3" unfolding passes_def using over by (meson order_trans)
        ultimately show ?thesis using step True by (intro exI [of _ "count h1"] exI [of _ h1]) auto
      next
        case False
        then have "f B lo hi h3 = Some y" using step by simp
        then obtain v g where "fst y = Inr v" "v = count g" "passes g h3 (snd y)" using 1(1) fits by blast
        moreover have "m h \<le> m h3" if "read_monotone m" for m using over [OF that] by linarith
        ultimately show ?thesis unfolding passes_def by (intro exI [of _ v] exI [of _ g]) (meson order_trans)
      qed
    qed
  qed
  then show ?thesis using assms by fastforce
qed

end

text \<open>
  If the counter also moves slowly (by at most \<open>step\<close> at each access, five of which do not span the low
  half), the second attempt cannot be torn.
\<close>

locale slow_counter = split_counter B lo hi count for B :: "'h board" and lo hi count +
  fixes step :: int
  assumes slow: "count (snd (bd_read B r h)) \<le> count h + step"
    and narrow: "5 * step \<le> 2 ^ 32"
begin

lemma stable_returns:
  assumes "count h + 6 * step < 2 ^ 64"
  shows "\<exists>r h'. stable_u64 B lo hi h = Some (Inr r, h')"
proof -
  have step0: "0 \<le> step" using monotone [of h hi] slow [of hi h] by linarith
  have attempt: "\<exists>h1 h2 h3. stable_u64 B lo hi h = (if drop_bit 32 (count h) = drop_bit 32 (count h2)
      then Some (Inr (push_bit 32 (drop_bit 32 (count h)) OR take_bit 32 (count h1)), h3) else stable_u64 B lo hi h3) \<and>
      count h \<le> count h2 \<and> count h2 \<le> count h3 \<and> count h3 \<le> count h + 3 * step \<and> count h2 \<le> count h + 2 * step"
    if fits: "count h + 3 * step < 2 ^ 64" for h
  proof -
    obtain h1 where h1: "bd_read B hi h = (drop_bit 32 (count h), h1)" using hi_word [of h] fits step0 by auto
    obtain h2 where h2: "bd_read B lo h1 = (take_bit 32 (count h1), h2)" using lo_word by auto
    have "count h2 < 2 ^ 64" using slow [of hi h] slow [of lo h1] h1 h2 fits step0 by simp
    then obtain h3 where h3: "bd_read B hi h2 = (drop_bit 32 (count h2), h3)" using hi_word [of h2] by auto
    have "count h \<le> count h1" "count h1 \<le> count h2" "count h2 \<le> count h3"
      "count h1 \<le> count h + step" "count h2 \<le> count h1 + step" "count h3 \<le> count h2 + step"
      using monotone [of h hi] monotone [of h1 lo] monotone [of h2 hi] slow [of hi h] slow [of lo h1] slow [of hi h2] h1 h2 h3 by simp_all
    then show ?thesis
      by (intro exI [of _ h1] exI [of _ h2] exI [of _ h3]) (subst stable_u64.simps, simp add: rd32_def bindIO_def h1 h2 h3)
  qed
  from attempt [of h] assms step0 obtain h1 h2 h3 where a: "stable_u64 B lo hi h = (if drop_bit 32 (count h) = drop_bit 32 (count h2)
      then Some (Inr (push_bit 32 (drop_bit 32 (count h)) OR take_bit 32 (count h1)), h3) else stable_u64 B lo hi h3)"
    "count h \<le> count h2" "count h2 \<le> count h3" "count h3 \<le> count h + 3 * step" "count h2 \<le> count h + 2 * step" by fastforce
  show ?thesis
  proof (cases "drop_bit 32 (count h) = drop_bit 32 (count h2)")
    case True
    then show ?thesis using a(1) by auto
  next
    case False
    have "count h3 + 3 * step < 2 ^ 64" using assms a(4) by simp
    from attempt [OF this] obtain g1 g2 g3 where b: "stable_u64 B lo hi h3 = (if drop_bit 32 (count h3) = drop_bit 32 (count g2)
        then Some (Inr (push_bit 32 (drop_bit 32 (count h3)) OR take_bit 32 (count g1)), g3) else stable_u64 B lo hi g3)"
      "count h3 \<le> count g2" "count g2 \<le> count h3 + 2 * step" by blast
    define N :: int where "N = 2 ^ 32"
    have N: "0 < N" "5 * step \<le> N" using narrow by (simp_all add: N_def)
    have half: "drop_bit 32 x = x div N" for x :: int by (simp add: drop_bit_eq_div N_def)
    define k where "k = count h2 div N"
    have less: "count h div N < k" using False zdiv_mono1 [OF a(2) N(1)] by (simp add: k_def half)
    have "count h < k * N"
    proof (rule ccontr)
      assume "\<not> count h < k * N"
      then have "k * N div N \<le> count h div N" by (intro zdiv_mono1 N(1)) simp
      then show False using less N(1) by simp
    qed
    moreover have "k * N \<le> count h2"
      using div_mult_mod_eq [of "count h2" N] pos_mod_sign [OF N(1), of "count h2"] unfolding k_def by linarith
    ultimately have r: "k * N \<le> count h3" "count h3 \<le> count g2" "count g2 < k * N + N"
      using a(3,4) b(2,3) N by linarith+
    have at: "x div N = k" if "k * N \<le> x" "x < k * N + N" for x
      by (rule int_div_pos_eq [where r = "x - k * N"]) (use that in \<open>simp_all add: mult.commute\<close>)
    have "drop_bit 32 (count h3) = drop_bit 32 (count g2)"
      unfolding half using at [of "count h3"] at [of "count g2"] r by linarith
    then show ?thesis using a(1) b(1) False by auto
  qed
qed

end

end
