(* ===== verification/Board_Exec.thy ===== *)
theory Board_Exec
  imports Board_Mmio
begin

text \<open>
  The execution debugger of fpga/board-tools/ven_board_probe.py: waiting for the core to park or resume,
  the halt, run, step and breakpoint probes, and the dump of the architectural state of a halted core.
\<close>

subsection \<open>Waiting\<close>

definition require_exec_debug :: "'h board \<Rightarrow> ('h, unit) bio" where
  "require_exec_debug B = bindIO (rd32 B R_DBG_EXEC_CAP) (\<lambda>cap. if cap \<noteq> DBG_EXEC_CAP then failIO (NoExecDebug cap) else retIO ())"

definition execution_ctrl :: "'h board \<Rightarrow> ('h, int) bio" where
  "execution_ctrl B = bindIO (require_exec_debug B) (\<lambda>_. rd32 B R_DBG_EXEC_CTRL)"

definition halted_bit :: "int \<Rightarrow> bool" where
  "halted_bit w \<longleftrightarrow> w AND DBG_EXEC_HALTED \<noteq> 0"

partial_function (option) wait_loop :: "'h board \<Rightarrow> bool \<Rightarrow> int \<Rightarrow> 'h \<Rightarrow> ((board_error + int) \<times> 'h) option" where
  "wait_loop B expected deadline h =
    bindIO (execution_ctrl B) (\<lambda>w h. if halted_bit w = expected then Some (Inr w, h) else
      bindIO (now B) (\<lambda>t h. if t \<ge> deadline then Some (Inl (WaitTimeout expected w), h)
        else bindIO (sleep B 1) (\<lambda>_. wait_loop B expected deadline) h) h) h"

definition wait_execution_halted :: "'h board \<Rightarrow> bool \<Rightarrow> int \<Rightarrow> ('h, int) bio" where
  "wait_execution_halted B expected timeout = bindIO (now B) (\<lambda>t. wait_loop B expected (t + timeout))"

subsection \<open>The architectural state\<close>

definition ARCH_SELECTORS :: "(int \<times> string) list" where
  "ARCH_SELECTORS = [(0, ''eax''), (1, ''ecx''), (2, ''edx''), (3, ''ebx''), (4, ''esp''), (5, ''ebp''), (6, ''esi''), (7, ''edi''),
    (8, ''eip''), (9, ''eflags''), (10, ''cs_ss''), (11, ''ds_es''), (12, ''fs_gs''), (13, ''cr0''), (14, ''cr2''), (15, ''cr3''),
    (16, ''cr4''), (17, ''fctrl_fstat''), (18, ''ftag_top''), (43, ''fip''), (44, ''fdp''), (45, ''fcs_fds''),
    (46, ''seg_base_cs''), (47, ''seg_base_ss''), (48, ''seg_base_ds''), (49, ''seg_base_es''), (50, ''seg_base_fs''), (51, ''seg_base_gs''),
    (52, ''seg_limit_cs''), (53, ''seg_limit_ss''), (54, ''seg_limit_ds''), (55, ''seg_limit_es''), (56, ''seg_limit_fs''), (57, ''seg_limit_gs''),
    (58, ''seg_attr_cs_es''), (59, ''seg_attr_fs_gs_b''), (60, ''gdt_base''), (61, ''idt_base''), (62, ''dt_limits''), (63, ''ldt_tr_sel''),
    (64, ''dr0''), (65, ''dr1''), (66, ''dr2''), (67, ''dr3''), (68, ''dr6''), (69, ''dr7''),
    (70, ''tr_base''), (71, ''tr_limit''), (72, ''tr_attr_valid''), (73, ''ldt_base''), (74, ''ldt_limit''), (75, ''debug_stop_reason'')]"

definition select :: "'h board \<Rightarrow> int \<Rightarrow> ('h, int) bio" where
  "select B sel = bindIO (poke B R_DBG_ARCH_SEL sel) (\<lambda>_. rd32 B R_DBG_ARCH_DATA)"

fun read_selectors :: "'h board \<Rightarrow> (int \<times> string) list \<Rightarrow> ('h, (string, int) dict) bio" where
  "read_selectors B [] = retIO []"
| "read_selectors B ((sel, name) # ss) = bindIO (select B sel) (\<lambda>v. bindIO (read_selectors B ss) (\<lambda>raw. retIO ((name, v) # raw)))"

definition x87_slot :: "'h board \<Rightarrow> int \<Rightarrow> ('h, int) bio" where
  "x87_slot B phys = (let base = 19 + phys * 3
     in bindIO (select B base) (\<lambda>l. bindIO (select B (base + 1)) (\<lambda>m. bindIO (select B (base + 2)) (\<lambda>h.
          retIO (push_bit 64 (h AND 0xFFFF) OR push_bit 32 m OR l)))))"

fun x87_slots :: "'h board \<Rightarrow> int list \<Rightarrow> ('h, int list) bio" where
  "x87_slots B [] = retIO []"
| "x87_slots B (p # ps) = bindIO (x87_slot B p) (\<lambda>v. bindIO (x87_slots B ps) (\<lambda>vs. retIO (v # vs)))"

definition hex8 :: "int \<Rightarrow> json" where "hex8 v = JStr (hex_pad 8 v)"
definition lo16 :: "int \<Rightarrow> json" where "lo16 v = JStr (hex_pad 4 (v AND 0xFFFF))"
definition hi16 :: "int \<Rightarrow> json" where "hi16 v = JStr (hex_pad 4 (drop_bit 16 v))"

definition physical_view :: "int \<Rightarrow> int list \<Rightarrow> json list" where
  "physical_view ftag slots = map (\<lambda>p. JDict [(''physical'', JInt (int p)), (''empty'', JBool (ftag AND push_bit p 1 \<noteq> 0)),
     (''floatx80'', JStr (hex_pad 20 (slots ! p)))]) [0..<8]"

definition logical_view :: "int \<Rightarrow> int \<Rightarrow> int list \<Rightarrow> json list" where
  "logical_view ftag ftop slots = map (\<lambda>i. let phys = (ftop + int i) AND 7
     in JDict [(''st'', JInt (int i)), (''physical'', JInt phys), (''empty'', JBool (ftag AND push_bit (nat phys) 1 \<noteq> 0)),
          (''floatx80'', JStr (hex_pad 20 (slots ! nat phys)))]) [0..<8]"

definition segment_view :: "(string \<Rightarrow> int) \<Rightarrow> jdict \<Rightarrow> nat \<Rightarrow> string \<Rightarrow> string \<times> json" where
  "segment_view raw result i name =
    (let attr = (if i < 4 then drop_bit (i * 8) (raw ''seg_attr_cs_es'') AND 0xFF else drop_bit ((i - 4) * 8) (raw ''seg_attr_fs_gs_b'') AND 0xFF)
     in (name, JDict [(''selector'', the (map_of result name)), (''base'', hex8 (raw (''seg_base_'' @ name))),
          (''limit'', hex8 (raw (''seg_limit_'' @ name))), (''attr'', JStr (hex_pad 2 attr)),
          (''b'', JBool (drop_bit (16 + i) (raw ''seg_attr_fs_gs_b'') AND 1 \<noteq> 0))]))"

definition stop_reason :: "int \<Rightarrow> string" where
  "stop_reason w = (let r = w AND 3 in if r = 0 then ''none'' else if r = 1 then ''manual-halt'' else if r = 2 then ''breakpoint''
     else if r = 3 then ''single-step'' else ''reserved'')"

definition STATE_SCOPE :: string where
  "STATE_SCOPE = ''integer GPRs, debug registers, selectors, hidden segment cache, CR0..CR4, descriptor-table bases/limits, LDTR/TR hidden caches, complete x87 stack plus environment pointers, and debugger stop cause; '' @ ''not caches/TLBs or in-flight state''"

definition SEG_NAMES6 :: "string list" where "SEG_NAMES6 = [''cs'', ''ss'', ''ds'', ''es'', ''fs'', ''gs'']"

definition arch_result :: "(string, int) dict \<Rightarrow> int list \<Rightarrow> jdict" where
  "arch_result raws slots =
    (let raw = (\<lambda>k. the (map_of raws k));
         result = map (\<lambda>(k, v). (k, hex8 v)) raws;
         put = foldl (\<lambda>d (k, v). dset k v d);
         ftag = raw ''ftag_top'' AND 0xFF; ftop = drop_bit 8 (raw ''ftag_top'') AND 7;
         result = put result [(''cs'', lo16 (raw ''cs_ss'')), (''ss'', hi16 (raw ''cs_ss'')), (''ds'', lo16 (raw ''ds_es'')),
           (''es'', hi16 (raw ''ds_es'')), (''fs'', lo16 (raw ''fs_gs'')), (''gs'', hi16 (raw ''fs_gs'')),
           (''fctrl'', lo16 (raw ''fctrl_fstat'')), (''fstat'', hi16 (raw ''fctrl_fstat'')), (''ftag'', JStr (hex_pad 2 ftag)),
           (''ftop'', JInt ftop), (''fcs'', lo16 (raw ''fcs_fds'')), (''fds'', hi16 (raw ''fcs_fds'')),
           (''x87_physical'', JList (physical_view ftag slots)), (''x87_logical'', JList (logical_view ftag ftop slots))];
         segs = map (\<lambda>i. segment_view raw result i (SEG_NAMES6 ! i)) [0..<6]
     in put result [(''segments'', JDict segs), (''gdt_base'', hex8 (raw ''gdt_base'')), (''idt_base'', hex8 (raw ''idt_base'')),
          (''gdt_limit'', lo16 (raw ''dt_limits'')), (''idt_limit'', hi16 (raw ''dt_limits'')), (''ldt_selector'', lo16 (raw ''ldt_tr_sel'')),
          (''tr_selector'', hi16 (raw ''ldt_tr_sel'')), (''ldt_limit'', lo16 (raw ''ldt_limit'')),
          (''tr_valid'', JBool (drop_bit 8 (raw ''tr_attr_valid'') AND 1 \<noteq> 0)), (''tr_attr'', JStr (hex_pad 2 (raw ''tr_attr_valid'' AND 0xFF))),
          (''stop_reason'', JStr (stop_reason (raw ''debug_stop_reason''))), (''scope'', JStr STATE_SCOPE)])"

definition read_halted_arch_state :: "'h board \<Rightarrow> ('h, jdict) bio" where
  "read_halted_arch_state B = bindIO (execution_ctrl B) (\<lambda>w.
     if \<not> halted_bit w then failIO NotHalted
     else bindIO (read_selectors B ARCH_SELECTORS) (\<lambda>raws. bindIO (x87_slots B [0 .. 7]) (\<lambda>slots. retIO (arch_result raws slots))))"

subsection \<open>The probes\<close>

definition halt_probe :: "'h board \<Rightarrow> int \<Rightarrow> ('h, int) bio" where
  "halt_probe B timeout = bindIO (open_mmio B) (\<lambda>_. bindIO (require_exec_debug B) (\<lambda>_.
     bindIO (poke B R_DBG_EXEC_CTRL (DBG_EXEC_HALT_REQ OR DBG_EXEC_BP_CLR)) (\<lambda>_. wait_execution_halted B True timeout)))"

definition run_probe :: "'h board \<Rightarrow> int \<Rightarrow> ('h, int) bio" where
  "run_probe B timeout = bindIO (open_mmio B) (\<lambda>_. bindIO (require_exec_debug B) (\<lambda>_.
     bindIO (poke B R_DBG_EXEC_CTRL DBG_EXEC_BP_CLR) (\<lambda>_. wait_execution_halted B False timeout)))"

partial_function (option) step_wait :: "'h board \<Rightarrow> int \<Rightarrow> int \<Rightarrow> int \<Rightarrow> 'h \<Rightarrow> ((board_error + int) \<times> 'h) option" where
  "step_wait B number before deadline h =
    bindIO (stable_u64 B R_DBG_RET_LO R_DBG_RET_HI) (\<lambda>after. bindIO (execution_ctrl B) (\<lambda>w h.
      if after = before + 1 \<and> halted_bit w then Some (Inr after, h)
      else if after > before + 1 then Some (Inl (StepOverrun (after - before)), h)
      else bindIO (now B) (\<lambda>t h. if t \<ge> deadline then Some (Inl (StepTimeout number (after - before) (halted_bit w)), h)
        else bindIO (sleep B 1) (\<lambda>_. step_wait B number before deadline) h) h)) h"

definition step_one :: "'h board \<Rightarrow> int \<Rightarrow> int \<Rightarrow> ('h, int) bio" where
  "step_one B timeout number = bindIO (stable_u64 B R_DBG_RET_LO R_DBG_RET_HI) (\<lambda>before.
     bindIO (poke B R_DBG_EXEC_CTRL (DBG_EXEC_HALT_REQ OR DBG_EXEC_STEP)) (\<lambda>_.
       bindIO (now B) (\<lambda>t. step_wait B number before (t + timeout))))"

fun step_loop :: "'h board \<Rightarrow> int \<Rightarrow> int \<Rightarrow> nat \<Rightarrow> ('h, int list) bio" where
  "step_loop B timeout number 0 = retIO []"
| "step_loop B timeout number (Suc n) = bindIO (step_one B timeout number) (\<lambda>after.
     bindIO (step_loop B timeout (number + 1) n) (\<lambda>rs. retIO (after # rs)))"

text \<open>What is printed: the retirement count after each step, and the final state.\<close>

definition step_probe :: "'h board \<Rightarrow> int \<Rightarrow> int \<Rightarrow> ('h, int list \<times> jdict) bio" where
  "step_probe B count timeout = bindIO (open_mmio B) (\<lambda>_. bindIO (require_exec_debug B) (\<lambda>_.
     if count < 1 then failIO BadCount
     else bindIO (execution_ctrl B) (\<lambda>w. if \<not> halted_bit w then failIO NotHalted
       else bindIO (step_loop B timeout 1 (nat count)) (\<lambda>rs. bindIO (read_halted_arch_state B) (\<lambda>st. retIO (rs, st))))))"

definition breakpoint_probe :: "'h board \<Rightarrow> int \<Rightarrow> bool \<Rightarrow> int \<Rightarrow> ('h, (int \<times> jdict) option) bio" where
  "breakpoint_probe B eip wait timeout = bindIO (open_mmio B) (\<lambda>_. bindIO (require_exec_debug B) (\<lambda>_.
     bindIO (poke B R_DBG_BP_ADDR eip) (\<lambda>_. bindIO (poke B R_DBG_EXEC_CTRL (DBG_EXEC_BP_EN OR DBG_EXEC_BP_CLR)) (\<lambda>_.
       if wait then bindIO (wait_execution_halted B True timeout) (\<lambda>w. bindIO (read_halted_arch_state B) (\<lambda>st. retIO (Some (w, st))))
       else retIO None))))"

end
