(* ===== verification/Board_Core.thy ===== *)
theory Board_Core
  imports Board_Exec
begin

text \<open>
  The provider behind the execution debugger: the register block of fpga/rk/src/ven_mgmt_axil.v and the
  park logic of rtl/core/core.sv, at the granularity of bus transactions. The guest is a parameter: what
  one instruction does, where it would issue, what the architectural mux shows, and how many transactions
  a requested step takes. One instruction of a free-running core retires per transaction, and a thousand
  transactions fit in a millisecond of sleep.
\<close>

subsection \<open>The block\<close>

record 'm guest =
  gu_exec :: "'m \<Rightarrow> 'm"
  gu_eip :: "'m \<Rightarrow> int"
  gu_arch :: "'m \<Rightarrow> int \<Rightarrow> int"
  gu_latency :: nat

record 'm core =
  co_mach :: 'm
  co_retired :: nat
  co_halt_req :: bool
  co_bp_en :: bool
  co_bp_addr :: int
  co_bp_latched :: bool
  co_step :: nat
  co_reason :: int
  co_sel :: int
  co_time :: int

definition bp_hit :: "'m guest \<Rightarrow> 'm core \<Rightarrow> bool" where
  "bp_hit G c \<longleftrightarrow> co_bp_en c \<and> gu_eip G (co_mach c) = co_bp_addr c \<and> co_step c = 0"

definition park :: "'m core \<Rightarrow> bool" where
  "park c \<longleftrightarrow> co_halt_req c \<or> co_bp_latched c"

definition core_halted :: "'m guest \<Rightarrow> 'm core \<Rightarrow> bool" where
  "core_halted G c \<longleftrightarrow> (park c \<or> bp_hit G c) \<and> co_step c = 0"

definition retire_one :: "'m guest \<Rightarrow> 'm core \<Rightarrow> 'm core" where
  "retire_one G c = c\<lparr>co_mach := gu_exec G (co_mach c), co_retired := co_retired c + 1\<rparr>"

definition tick :: "'m guest \<Rightarrow> 'm core \<Rightarrow> 'm core" where
  "tick G c =
    (if 1 < co_step c then c\<lparr>co_step := co_step c - 1\<rparr>
     else if co_step c = 1 then (retire_one G c)\<lparr>co_step := 0, co_reason := 3\<rparr>
     else if bp_hit G c then c\<lparr>co_bp_latched := True, co_reason := 2\<rparr>
     else if park c then c
     else retire_one G c)"

definition ctrl_word :: "'m guest \<Rightarrow> 'm core \<Rightarrow> int" where
  "ctrl_word G c = of_bool (co_halt_req c) + 2 * of_bool (co_bp_en c) + 4 * of_bool (core_halted G c)"

definition core_read :: "'m guest \<Rightarrow> 'm core \<Rightarrow> int \<Rightarrow> int" where
  "core_read G c r =
    (if r = R_IDENT then IDENT_MAGIC
     else if r = R_DBG_RET_LO then take_bit 32 (int (co_retired c))
     else if r = R_DBG_RET_HI then take_bit 32 (drop_bit 32 (int (co_retired c)))
     else if r = R_DBG_EXEC_CTRL then ctrl_word G c
     else if r = R_DBG_BP_ADDR then co_bp_addr c
     else if r = R_DBG_ARCH_SEL then co_sel c
     else if r = R_DBG_ARCH_DATA then (if co_sel c = 75 then co_reason c else gu_arch G (co_mach c) (co_sel c))
     else if r = R_DBG_EXEC_CAP then DBG_EXEC_CAP
     else 0)"

definition exec_command :: "'m guest \<Rightarrow> int \<Rightarrow> 'm core \<Rightarrow> 'm core" where
  "exec_command G w c =
    (let d = c\<lparr>co_halt_req := bit w 0, co_bp_en := bit w 1\<rparr>;
         d = (if bit w 9 then d\<lparr>co_bp_latched := False, co_reason := (if bit w 0 then 1 else 0)\<rparr>
              else if bit w 0 \<and> \<not> co_halt_req c then d\<lparr>co_reason := 1\<rparr> else d)
     in if bit w 8 \<and> (bit w 0 \<or> co_bp_latched c) \<and> co_step c = 0 then d\<lparr>co_step := Suc (gu_latency G)\<rparr> else d)"

definition core_write :: "'m guest \<Rightarrow> int \<Rightarrow> int \<Rightarrow> 'm core \<Rightarrow> 'm core" where
  "core_write G r w c =
    (if r = R_DBG_EXEC_CTRL then exec_command G w c
     else if r = R_DBG_BP_ADDR then c\<lparr>co_bp_addr := w\<rparr>
     else if r = R_DBG_ARCH_SEL then c\<lparr>co_sel := w AND 0x7F\<rparr>
     else c)"

definition core_board :: "'m guest \<Rightarrow> 'm core board" where
  "core_board G = \<lparr>bd_state = (\<lambda>_. Some ''operating''), bd_read = (\<lambda>r c. (core_read G c r, tick G c)),
     bd_write = (\<lambda>r w c. tick G (core_write G r w c)), bd_low16 = (\<lambda>_ c. (0, c)), bd_set_low16 = (\<lambda>_ _ c. c),
     bd_now = (\<lambda>c. (co_time c, c)), bd_now_ns = (\<lambda>c. (1000000 * co_time c, c)), bd_sleep = (\<lambda>n c. (tick G ^^ (1000 * nat n)) (c\<lparr>co_time := co_time c + n\<rparr>))\<rparr>"

subsection \<open>One transaction\<close>

lemma tick_retired: "co_retired c \<le> co_retired (tick G c)" "co_retired (tick G c) \<le> co_retired c + 1"
  by (simp_all add: tick_def retire_one_def)

lemma tick_time [simp]: "co_time (tick G c) = co_time c"
  by (simp add: tick_def retire_one_def)

lemma tick_sel [simp]: "co_sel (tick G c) = co_sel c"
  by (simp add: tick_def retire_one_def)

lemma ticks_time [simp]: "co_time ((tick G ^^ n) c) = co_time c"
  by (induction n) simp_all

lemma rd32_core [simp]: "rd32 (core_board G) r c = Some (Inr (core_read G c r), tick G c)"
  by (simp add: rd32_def core_board_def)

lemma poke_core [simp]: "poke (core_board G) r w c = Some (Inr (), tick G (core_write G r w c))"
  by (simp add: poke_def core_board_def)

lemma now_core [simp]: "now (core_board G) c = Some (Inr (co_time c), c)"
  by (simp add: now_def core_board_def)

lemma sleep_core [simp]: "sleep (core_board G) n c = Some (Inr (), (tick G ^^ (1000 * nat n)) (c\<lparr>co_time := co_time c + n\<rparr>))"
  by (simp add: sleep_def core_board_def)

lemmas reg_defs = R_IDENT_def R_DBG_RET_LO_def R_DBG_RET_HI_def R_DBG_EXEC_CTRL_def R_DBG_BP_ADDR_def R_DBG_ARCH_SEL_def
  R_DBG_ARCH_DATA_def R_DBG_EXEC_CAP_def

lemma core_read_simps [simp]:
  "core_read G c R_IDENT = IDENT_MAGIC"
  "core_read G c R_DBG_RET_LO = take_bit 32 (int (co_retired c))"
  "core_read G c R_DBG_RET_HI = take_bit 32 (drop_bit 32 (int (co_retired c)))"
  "core_read G c R_DBG_EXEC_CTRL = ctrl_word G c"
  "core_read G c R_DBG_ARCH_DATA = (if co_sel c = 75 then co_reason c else gu_arch G (co_mach c) (co_sel c))"
  "core_read G c R_DBG_EXEC_CAP = DBG_EXEC_CAP"
  unfolding core_read_def by (simp_all add: reg_defs)

lemma core_write_simps [simp]:
  "core_write G R_DBG_EXEC_CTRL w c = exec_command G w c"
  "core_write G R_DBG_BP_ADDR w c = c\<lparr>co_bp_addr := w\<rparr>"
  "core_write G R_DBG_ARCH_SEL w c = c\<lparr>co_sel := w AND 0x7F\<rparr>"
  unfolding core_write_def by (simp_all add: reg_defs)

lemma halted_bit_core [simp]: "halted_bit (ctrl_word G c) \<longleftrightarrow> core_halted G c"
  by (cases "co_halt_req c"; cases "co_bp_en c"; cases "core_halted G c") (simp_all add: ctrl_word_def halted_bit_def DBG_EXEC_HALTED_def)

lemma require_exec_debug_core [simp]: "require_exec_debug (core_board G) c = Some (Inr (), tick G c)"
  unfolding require_exec_debug_def by (rule bindIO_eq, rule rd32_core) simp

lemma execution_ctrl_core [simp]:
  "execution_ctrl (core_board G) c = Some (Inr (ctrl_word G (tick G c)), tick G (tick G c))"
  unfolding execution_ctrl_def by (rule bindIO_eq, rule require_exec_debug_core) simp

lemma open_mmio_core [simp]: "open_mmio (core_board G) c = Some (Inr (), tick G c)"
proof -
  have "require_fpga_operating (core_board G) c = Some (Inr (), c)"
    by (simp add: require_fpga_operating_def core_board_def strip_def lstrip_def is_ws_def)
  then show ?thesis unfolding open_mmio_def by (rule bindIO_eq) (rule bindIO_eq, rule rd32_core, simp)
qed

end
