(* ===== verification/Board_Step.thy ===== *)
theory Board_Step
  imports Board_Core
begin

text \<open>
  The debugger's probes on the register block: a step probe executes exactly the requested instructions, a
  breakpoint probe parks the core before the target and nowhere else, and the state they dump is the
  machine's at that point.
\<close>

interpretation retired: slow_counter "core_board G" R_DBG_RET_LO R_DBG_RET_HI "\<lambda>c. int (co_retired c)" 1 for G
proof unfold_locales
  fix c :: "'a core" and r
  show "fst (bd_read (core_board G) R_DBG_RET_HI c) = take_bit 32 (drop_bit 32 (int (co_retired c)))"
    "fst (bd_read (core_board G) R_DBG_RET_LO c) = take_bit 32 (int (co_retired c))" by (simp_all add: core_board_def)
  show "int (co_retired c) \<le> int (co_retired (snd (bd_read (core_board G) r c)))"
    "int (co_retired (snd (bd_read (core_board G) r c))) \<le> int (co_retired c) + 1"
    using tick_retired [where c = c and G = G] by (simp_all add: core_board_def)
qed simp_all

subsection \<open>A frozen core\<close>

definition frozen :: "'m guest \<Rightarrow> 'm core \<Rightarrow> bool" where
  "frozen G c \<longleftrightarrow> core_halted G c \<and> tick G c = c"

lemma halted_tick:
  assumes "core_halted G c"
  shows "frozen G (tick G c)" "co_mach (tick G c) = co_mach c" "co_retired (tick G c) = co_retired c"
  using assms by (auto simp: frozen_def core_halted_def tick_def park_def bp_hit_def)

lemma frozen_halted [simp]: "frozen G c \<Longrightarrow> core_halted G c"
  by (simp add: frozen_def)

lemma frozen_tick [simp]: "frozen G c \<Longrightarrow> tick G c = c"
  by (simp add: frozen_def)

lemma sel_irrelevant [simp]:
  "bp_hit G (c\<lparr>co_sel := s\<rparr>) = bp_hit G c" "park (c\<lparr>co_sel := s\<rparr>) = park c"
  "core_halted G (c\<lparr>co_sel := s\<rparr>) = core_halted G c" "retire_one G (c\<lparr>co_sel := s\<rparr>) = (retire_one G c)\<lparr>co_sel := s\<rparr>"
  by (simp_all add: retire_one_def bp_hit_def park_def core_halted_def)

lemma tick_select: "tick G (c\<lparr>co_sel := s\<rparr>) = (tick G c)\<lparr>co_sel := s\<rparr>"
proof -
  consider "1 < co_step c" | "co_step c = 1" | "co_step c = 0" by linarith
  then show ?thesis by cases (simp_all add: tick_def)
qed

lemma frozen_sel [simp]: "frozen G c \<Longrightarrow> frozen G (c\<lparr>co_sel := s\<rparr>)"
  unfolding frozen_def tick_select sel_irrelevant by (elim conjE, intro conjI) (assumption, simp only:)

lemma stable_ticks:
  assumes "stable_u64 (core_board G) lo hi c = Some y"
  shows "\<exists>k. snd y = (tick G ^^ k) c"
proof (rule stable_reads [OF assms, where R = "\<lambda>c c'. \<exists>k. c' = (tick G ^^ k) c"])
  show "\<exists>k. c = (tick G ^^ k) c" for c by (rule exI [of _ 0]) simp
  show "\<exists>k. snd (bd_read (core_board G) r c) = (tick G ^^ k) c" for r c
    by (rule exI [of _ 1]) (simp add: core_board_def)
next
  fix a b c :: "'a core"
  assume "\<exists>k. b = (tick G ^^ k) a" "\<exists>k. c = (tick G ^^ k) b"
  then show "\<exists>k. c = (tick G ^^ k) a" by (metis funpow_add comp_apply)
qed

text \<open>What a split read of the retirement counter returns: the count somewhere between its start and its end.\<close>

lemma read_retired:
  assumes "\<And>k. co_retired ((tick G ^^ k) c) \<le> M" "M < 2 ^ 64 - 6"
  obtains v k where "stable_u64 (core_board G) R_DBG_RET_LO R_DBG_RET_HI c = Some (Inr (int v), (tick G ^^ k) c)"
    "co_retired c \<le> v" "v \<le> co_retired ((tick G ^^ k) c)"
proof -
  have "co_retired c \<le> M" using assms(1) [of 0] by simp
  then have "int (co_retired c) + 6 * 1 < 2 ^ 64" using assms(2) by simp
  from retired.stable_returns [OF this] obtain v c' where
    r: "stable_u64 (core_board G) R_DBG_RET_LO R_DBG_RET_HI c = Some (Inr v, c')" by blast
  then obtain k where k: "c' = (tick G ^^ k) c" using stable_ticks [OF r] by auto
  have "co_retired c' < 2 ^ 64" using assms(1) [of k] assms(2) unfolding k by simp
  then have "int (co_retired c') < 2 ^ 64" by (simp add: of_nat_less_numeral_power_cancel_iff)
  from retired.stable_exact [OF r this] have "int (co_retired c) \<le> v" "v \<le> int (co_retired c')"
    unfolding retired.passes_def using retired.count_monotone by auto
  then show ?thesis using that [of "nat v" k] r k by (simp add: nat_le_iff le_nat_iff)
qed

subsection \<open>A requested step\<close>

definition finished :: "'m guest \<Rightarrow> 'm core \<Rightarrow> 'm core" where
  "finished G c = (retire_one G c)\<lparr>co_step := 0, co_reason := 3\<rparr>"

lemma finished_fields [simp]:
  "co_mach (finished G c) = gu_exec G (co_mach c)" "co_retired (finished G c) = co_retired c + 1"
  "co_step (finished G c) = 0" "co_reason (finished G c) = 3" "co_halt_req (finished G c) = co_halt_req c"
  "co_bp_en (finished G c) = co_bp_en c" "co_time (finished G c) = co_time c"
  by (simp_all add: finished_def retire_one_def)

lemma finished_updates [simp]:
  "finished G (c\<lparr>co_step := n\<rparr>) = finished G c" "finished G (c\<lparr>co_time := t\<rparr>) = (finished G c)\<lparr>co_time := t\<rparr>"
  by (simp_all add: finished_def retire_one_def)

lemma parked_frozen [simp]: "co_halt_req c \<Longrightarrow> \<not> co_bp_en c \<Longrightarrow> co_step c = 0 \<Longrightarrow> frozen G c"
  by (simp add: frozen_def core_halted_def tick_def park_def bp_hit_def)

lemma frozen_ticks [simp]: "frozen G c \<Longrightarrow> (tick G ^^ k) c = c"
  by (induction k) simp_all

lemma ticks_stepping:
  assumes "co_halt_req c" "\<not> co_bp_en c" "0 < co_step c"
  shows "(tick G ^^ k) c = (if k < co_step c then c\<lparr>co_step := co_step c - k\<rparr> else finished G c)"
proof (induction k)
  case (Suc k)
  consider "Suc k < co_step c" | "Suc k = co_step c" | "co_step c \<le> k" by linarith
  then show ?case
  proof cases
    case 1
    then show ?thesis using Suc by (simp add: tick_def)
  next
    case 2
    then have "co_step c - k = 1" "k < co_step c" by simp_all
    then have "(tick G ^^ k) c = c\<lparr>co_step := 1\<rparr>" using Suc by simp
    then have "(tick G ^^ Suc k) c = finished G c" by (simp add: tick_def finished_def retire_one_def)
    then show ?thesis using 2 by simp
  next
    case 3
    then show ?thesis using Suc assms by simp
  qed
qed (use assms in simp)

lemma read_retired_frozen:
  assumes "frozen G c" "co_retired c < 2 ^ 64 - 6"
  shows "stable_u64 (core_board G) R_DBG_RET_LO R_DBG_RET_HI c = Some (Inr (int (co_retired c)), c)"
proof -
  obtain v k where "stable_u64 (core_board G) R_DBG_RET_LO R_DBG_RET_HI c = Some (Inr (int v), (tick G ^^ k) c)"
    "co_retired c \<le> v" "v \<le> co_retired ((tick G ^^ k) c)"
    using read_retired [of G c "co_retired c"] assms by (metis frozen_ticks order_refl)
  then show ?thesis using assms(1) by simp
qed

lemma step_wait_done:
  assumes "frozen G c" "co_retired c < 2 ^ 64 - 6" "int (co_retired c) = before + 1"
  shows "step_wait (core_board G) number before D c = Some (Inr (before + 1), c)"
  by (subst step_wait.simps, rule bindIO_eq, rule read_retired_frozen [OF assms(1,2)], rule bindIO_eq, rule execution_ctrl_core)
    (use assms in simp)

lemma step_wait_runs:
  assumes "co_halt_req c" "\<not> co_bp_en c" "0 < co_step c" "co_retired c < 2 ^ 64 - 7"
    "1000 * co_time c + int (co_step c) \<le> 1000 * D"
  shows "\<exists>t. step_wait (core_board G) number (int (co_retired c)) D c = Some (Inr (int (co_retired c) + 1), (finished G c)\<lparr>co_time := t\<rparr>)"
  using assms
proof (induction "co_step c" arbitrary: c rule: less_induct)
  case less
  note ticks = ticks_stepping [OF less.prems(1,2,3)]
  obtain v k where r: "stable_u64 (core_board G) R_DBG_RET_LO R_DBG_RET_HI c = Some (Inr (int v), (tick G ^^ k) c)"
    "co_retired c \<le> v" "v \<le> co_retired ((tick G ^^ k) c)"
    by (rule read_retired [of G c "co_retired c + 1"]) (use less.prems(4) in \<open>auto simp: ticks\<close>)
  show ?case
  proof (cases "v = co_retired c")
    case False
    then have k: "\<not> k < co_step c" using r(2,3) by (auto simp: ticks)
    then have v: "v = co_retired c + 1" using False r(2,3) by (simp add: ticks)
    have "frozen G (finished G c)" using less.prems by simp
    then have "step_wait (core_board G) number (int (co_retired c)) D c = Some (Inr (int (co_retired c) + 1), finished G c)"
      using r(1) k v by (subst step_wait.simps) (simp add: ticks)
    then show ?thesis by (metis core.surjective core.update_convs(10))
  next
    case True
    define d where "d = (tick G ^^ (k + 2)) c"
    define e where "e = (tick G ^^ 1000) (d\<lparr>co_time := co_time d + 1\<rparr>)"
    have time: "co_time c < D" "co_time d = co_time c" using less.prems(3,5) by (simp_all add: d_def)
    have "step_wait (core_board G) number (int (co_retired c)) D c = step_wait (core_board G) number (int (co_retired c)) D e"
      using r(1) True time by (subst step_wait.simps) (simp add: d_def e_def)
    moreover have "\<exists>t. step_wait (core_board G) number (int (co_retired c)) D e = Some (Inr (int (co_retired c) + 1), (finished G c)\<lparr>co_time := t\<rparr>)"
    proof (cases "k + 1002 < co_step c")
      case True
      then have "d = c\<lparr>co_step := co_step c - (k + 2)\<rparr>" by (simp only: d_def ticks) simp
      then have e: "e = c\<lparr>co_step := co_step c - (k + 1002), co_time := co_time c + 1\<rparr>"
        using less.prems(1,2) True by (simp add: e_def ticks_stepping)
      show ?thesis using less.hyps [of e] less.prems True by (simp add: e)
    next
      case False
      have e: "e = (finished G c)\<lparr>co_time := co_time c + 1\<rparr>"
      proof (cases "k + 2 < co_step c")
        case True
        then have "d = c\<lparr>co_step := co_step c - (k + 2)\<rparr>" by (simp only: d_def ticks) simp
        then show ?thesis using less.prems(1,2) True False by (simp add: e_def ticks_stepping)
      next
        case False
        then have "d = finished G c" by (simp only: d_def ticks) simp
        then show ?thesis using less.prems(1,2) by (simp add: e_def)
      qed
      have "step_wait (core_board G) number (int (co_retired c)) D e = Some (Inr (int (co_retired c) + 1), e)"
        using less.prems by (intro step_wait_done) (simp_all add: e)
      then show ?thesis using e by blast
    qed
    ultimately show ?thesis by simp
  qed
qed

lemma halted_ticks:
  assumes "core_halted G c"
  shows "core_halted G ((tick G ^^ k) c)" "co_mach ((tick G ^^ k) c) = co_mach c" "co_retired ((tick G ^^ k) c) = co_retired c"
proof (induction k)
  case (Suc k)
  note t = halted_tick [OF Suc(1)]
  case 1 show ?case using t(1) by simp
  case 2 show ?case using t(2) Suc(2) by simp
  case 3 show ?case using t(3) Suc(3) by simp
qed (use assms in simp_all)

lemma step_command:
  assumes "core_halted G c"
  defines "d \<equiv> exec_command G (DBG_EXEC_HALT_REQ OR DBG_EXEC_STEP) c"
  shows "co_halt_req d" "\<not> co_bp_en d" "co_step d = Suc (gu_latency G)" "co_mach d = co_mach c" "co_retired d = co_retired c"
    "co_time d = co_time c"
  using assms(1) unfolding d_def
  by (simp_all add: exec_command_def DBG_EXEC_HALT_REQ_def DBG_EXEC_STEP_def core_halted_def Let_def)

definition stopped_after :: "'m guest \<Rightarrow> nat \<Rightarrow> 'm core \<Rightarrow> 'm core \<Rightarrow> bool" where
  "stopped_after G n c c' \<longleftrightarrow> co_halt_req c' \<and> \<not> co_bp_en c' \<and> co_step c' = 0 \<and> co_reason c' = 3 \<and>
     co_mach c' = (gu_exec G ^^ n) (co_mach c) \<and> co_retired c' = co_retired c + n"

lemma step_one_core:
  assumes "core_halted G c" "co_retired c < 2 ^ 64 - 7" "int (gu_latency G) \<le> 1000 * timeout"
  obtains c' where "step_one (core_board G) timeout number c = Some (Inr (int (co_retired c) + 1), c')" "stopped_after G 1 c c'"
proof -
  note halted = halted_ticks [OF assms(1)]
  obtain v k where r: "stable_u64 (core_board G) R_DBG_RET_LO R_DBG_RET_HI c = Some (Inr (int v), (tick G ^^ k) c)"
    "co_retired c \<le> v" "v \<le> co_retired ((tick G ^^ k) c)"
    by (rule read_retired [of G c "co_retired c"]) (use assms(2) halted in auto)
  then have v: "v = co_retired c" using halted by simp
  define d where "d = exec_command G (DBG_EXEC_HALT_REQ OR DBG_EXEC_STEP) ((tick G ^^ k) c)"
  note d = step_command [OF halted(1), of k, folded d_def, unfolded halted(2,3)]
  define e where "e = tick G d"
  have e: "e = (if 0 < gu_latency G then d\<lparr>co_step := gu_latency G\<rparr> else finished G d)"
    using ticks_stepping [OF d(1,2), where G = G and k = 1] d(3) by (simp add: e_def)
  have "step_one (core_board G) timeout number c = step_wait (core_board G) number (int (co_retired c)) (co_time e + timeout) e"
    unfolding step_one_def
    by (rule bindIO_eq, rule r(1), rule bindIO_eq, rule poke_core, rule bindIO_eq, rule now_core) (simp add: v e_def d_def)
  moreover have "\<exists>t. step_wait (core_board G) number (int (co_retired c)) (co_time e + timeout) e =
      Some (Inr (int (co_retired c) + 1), (finished G d)\<lparr>co_time := t\<rparr>)"
  proof (cases "0 < gu_latency G")
    case True
    have "co_retired e = co_retired c" using d True by (simp add: e)
    moreover have "\<exists>t. step_wait (core_board G) number (int (co_retired e)) (co_time e + timeout) e =
        Some (Inr (int (co_retired e) + 1), (finished G e)\<lparr>co_time := t\<rparr>)"
      by (rule step_wait_runs) (use d True assms(2,3) in \<open>simp_all add: e\<close>)
    ultimately show ?thesis using True by (simp add: e)
  next
    case False
    then have e: "e = finished G d" by (simp add: e)
    have "step_wait (core_board G) number (int (co_retired c)) (co_time e + timeout) e = Some (Inr (int (co_retired c) + 1), e)"
      by (rule step_wait_done) (use d assms(2) in \<open>simp_all add: e\<close>)
    then show ?thesis unfolding e by (metis core.surjective core.update_convs(10))
  qed
  ultimately show ?thesis using that d by (auto simp: stopped_after_def)
qed

lemma step_loop_core:
  assumes "core_halted G c" "co_retired c + n < 2 ^ 64 - 7" "int (gu_latency G) \<le> 1000 * timeout"
  shows "\<exists>c'. step_loop (core_board G) timeout number n c = Some (Inr (map (\<lambda>i. int (co_retired c + i)) [1..<n + 1]), c') \<and>
    (if n = 0 then c' = c else stopped_after G n c c')"
  using assms(1,2)
proof (induction n arbitrary: c number)
  case (Suc n)
  have lim: "co_retired c < 2 ^ 64 - 7" using Suc.prems(2) by simp
  obtain d where d: "step_one (core_board G) timeout number c = Some (Inr (int (co_retired c) + 1), d)" "stopped_after G 1 c d"
    using step_one_core [OF Suc.prems(1) lim assms(3)] by blast
  have "core_halted G d" "co_retired d + n < 2 ^ 64 - 7" using d(2) Suc.prems(2) by (simp_all add: stopped_after_def)
  from Suc.IH [OF this, of "number + 1"] obtain c' where
    c': "step_loop (core_board G) timeout (number + 1) n d = Some (Inr (map (\<lambda>i. int (co_retired d + i)) [1..<n + 1]), c')"
      "if n = 0 then c' = d else stopped_after G n d c'" by auto
  have rs: "(int (co_retired c) + 1) # map (\<lambda>i. int (co_retired d + i)) [1..<n + 1] = map (\<lambda>i. int (co_retired c + i)) [1..<Suc n + 1]"
    using d(2) by (simp add: stopped_after_def upt_conv_Cons map_Suc_upt [symmetric] del: upt_Suc)
  have "stopped_after G (Suc n) c c'"
    using c'(2) d(2) by (auto simp: stopped_after_def funpow_swap1 split: if_splits)
  moreover have "step_loop (core_board G) timeout number (Suc n) c = Some (Inr (map (\<lambda>i. int (co_retired c + i)) [1..<Suc n + 1]), c')"
    unfolding step_loop.simps by (rule bindIO_eq, rule d(1), rule bindIO_eq, rule c'(1)) (simp only: retIO_apply rs)
  ultimately show ?case by auto
qed simp

subsection \<open>The dump of a frozen core\<close>

definition arch_view :: "'m guest \<Rightarrow> 'm core \<Rightarrow> int \<Rightarrow> int" where
  "arch_view G c sel = (if sel = 75 then co_reason c else gu_arch G (co_mach c) sel)"

definition x87_view :: "'m guest \<Rightarrow> 'm core \<Rightarrow> int \<Rightarrow> int" where
  "x87_view G c p = push_bit 64 (arch_view G c (21 + p * 3) AND 0xFFFF) OR push_bit 32 (arch_view G c (20 + p * 3)) OR arch_view G c (19 + p * 3)"

definition core_state :: "'m guest \<Rightarrow> 'm core \<Rightarrow> jdict" where
  "core_state G c = arch_result (map (\<lambda>(s, n). (n, arch_view G c s)) ARCH_SELECTORS) (map (x87_view G c) [0 .. 7])"

lemma arch_view_sel [simp]: "arch_view G (c\<lparr>co_sel := s\<rparr>) = arch_view G c" "x87_view G (c\<lparr>co_sel := s\<rparr>) = x87_view G c"
  by (simp_all add: arch_view_def x87_view_def fun_eq_iff)

lemma select_core:
  assumes "frozen G c" "0 \<le> s" "s < 128"
  shows "select (core_board G) s c = Some (Inr (arch_view G c s), c\<lparr>co_sel := s\<rparr>)"
proof -
  have "s AND 0x7F = s" using take_bit_eq_mask [of 7 s] take_bit_int_eq_self [of s 7] assms(2,3) by (simp add: mask_eq_exp_minus_1)
  then show ?thesis unfolding select_def
    by (intro bindIO_eq [OF poke_core]) (simp add: arch_view_def frozen_tick [OF frozen_sel [OF assms(1)]])
qed

lemma read_selectors_core:
  assumes "frozen G c" "list_all (\<lambda>(s, n). 0 \<le> s \<and> s < 128) ss"
  shows "\<exists>s. read_selectors (core_board G) ss c = Some (Inr (map (\<lambda>(s, n). (n, arch_view G c s)) ss), c\<lparr>co_sel := s\<rparr>)"
  using assms
proof (induction ss arbitrary: c)
  case Nil
  show ?case by (rule exI [of _ "co_sel c"]) simp
next
  case (Cons x ss)
  obtain s n where x: "x = (s, n)" by fastforce
  have s: "0 \<le> s" "s < 128" using Cons.prems(2) x by simp_all
  have "list_all (\<lambda>(s, n). 0 \<le> s \<and> s < 128) ss" using Cons.prems(2) by simp
  from Cons.IH [OF frozen_sel [OF Cons.prems(1)] this, of s] obtain s' where
    IH: "read_selectors (core_board G) ss (c\<lparr>co_sel := s\<rparr>) = Some (Inr (map (\<lambda>(s, n). (n, arch_view G c s)) ss), c\<lparr>co_sel := s'\<rparr>)"
    by auto
  have "read_selectors (core_board G) (x # ss) c = Some (Inr (map (\<lambda>(s, n). (n, arch_view G c s)) (x # ss)), c\<lparr>co_sel := s'\<rparr>)"
    unfolding x read_selectors.simps
    by (rule bindIO_eq, rule select_core [OF Cons.prems(1) s], rule bindIO_eq, rule IH) simp
  then show ?case by blast
qed

lemma x87_slot_core:
  assumes "frozen G c" "0 \<le> p" "p < 8"
  shows "\<exists>s. x87_slot (core_board G) p c = Some (Inr (x87_view G c p), c\<lparr>co_sel := s\<rparr>)"
proof -
  note sel = select_core [where G = G]
  have "x87_slot (core_board G) p c = Some (Inr (x87_view G c p), c\<lparr>co_sel := 19 + p * 3 + 2\<rparr>)"
    unfolding x87_slot_def Let_def
    by (rule bindIO_eq, rule sel, use assms in simp_all, rule bindIO_eq, rule sel, use assms in simp_all,
        rule bindIO_eq, rule sel, use assms in \<open>simp_all add: x87_view_def add_ac\<close>)
  then show ?thesis by blast
qed

lemma x87_slots_core:
  assumes "frozen G c" "list_all (\<lambda>p. 0 \<le> p \<and> p < 8) ps"
  shows "\<exists>s. x87_slots (core_board G) ps c = Some (Inr (map (x87_view G c) ps), c\<lparr>co_sel := s\<rparr>)"
  using assms
proof (induction ps arbitrary: c)
  case Nil
  show ?case by (rule exI [of _ "co_sel c"]) simp
next
  case (Cons p ps)
  have p: "0 \<le> p" "p < 8" "list_all (\<lambda>p. 0 \<le> p \<and> p < 8) ps" using Cons.prems(2) by simp_all
  obtain s where s: "x87_slot (core_board G) p c = Some (Inr (x87_view G c p), c\<lparr>co_sel := s\<rparr>)"
    using x87_slot_core [OF Cons.prems(1) p(1,2)] by blast
  from Cons.IH [OF frozen_sel [OF Cons.prems(1)] p(3), of s] obtain s' where
    IH: "x87_slots (core_board G) ps (c\<lparr>co_sel := s\<rparr>) = Some (Inr (map (x87_view G c) ps), c\<lparr>co_sel := s'\<rparr>)" by auto
  have "x87_slots (core_board G) (p # ps) c = Some (Inr (map (x87_view G c) (p # ps)), c\<lparr>co_sel := s'\<rparr>)"
    unfolding x87_slots.simps by (rule bindIO_eq, rule s, rule bindIO_eq, rule IH) simp
  then show ?case by blast
qed

lemma read_state_core:
  assumes "frozen G c"
  shows "\<exists>s. read_halted_arch_state (core_board G) c = Some (Inr (core_state G c), c\<lparr>co_sel := s\<rparr>)"
proof -
  have "list_all (\<lambda>(s, n). 0 \<le> s \<and> s < 128) ARCH_SELECTORS" by (simp add: ARCH_SELECTORS_def)
  from read_selectors_core [OF assms this] obtain s where
    s: "read_selectors (core_board G) ARCH_SELECTORS c = Some (Inr (map (\<lambda>(s, n). (n, arch_view G c s)) ARCH_SELECTORS), c\<lparr>co_sel := s\<rparr>)"
    by blast
  have "list_all (\<lambda>p. 0 \<le> p \<and> p < 8) [0 .. (7 :: int)]" by (simp add: list_all_iff)
  from x87_slots_core [OF frozen_sel [OF assms] this, of s] obtain s' where
    s': "x87_slots (core_board G) [0 .. 7] (c\<lparr>co_sel := s\<rparr>) = Some (Inr (map (x87_view G c) [0 .. 7]), c\<lparr>co_sel := s'\<rparr>)" by auto
  have c: "execution_ctrl (core_board G) c = Some (Inr (ctrl_word G c), c)" using assms by simp
  have "read_halted_arch_state (core_board G) c = Some (Inr (core_state G c), c\<lparr>co_sel := s'\<rparr>)"
    unfolding read_halted_arch_state_def
    by (rule bindIO_eq, rule c, subst if_not_P, use assms in simp, rule bindIO_eq, rule s, rule bindIO_eq, rule s')
      (simp add: core_state_def)
  then show ?thesis by blast
qed

lemma core_state_sel [simp]: "core_state G (c\<lparr>co_sel := s\<rparr>) = core_state G c"
  by (simp add: core_state_def)

subsection \<open>Stepping\<close>

text \<open>
  C21. The step probe on a halted core executes exactly the requested number of instructions: it prints the
  retirement count after each one, leaves the core halted with the cause single-step, and the state it
  prints is the state of the machine after those instructions. A step must finish within the timeout, and
  the 64-bit retirement counter must not wrap.
\<close>
theorem step_probe_steps:
  assumes "core_halted G c" "1 \<le> n" "co_retired c + n < 2 ^ 64 - 7" "int (gu_latency G) \<le> 1000 * timeout"
  shows "\<exists>c'. step_probe (core_board G) (int n) timeout c =
      Some (Inr (map (\<lambda>i. int (co_retired c + i)) [1..<n + 1], core_state G c'), c') \<and>
    co_mach c' = (gu_exec G ^^ n) (co_mach c) \<and> co_retired c' = co_retired c + n \<and> core_halted G c' \<and> co_reason c' = 3"
proof -
  note t = halted_tick [OF assms(1)]
  define d where "d = tick G c"
  have d: "frozen G d" "co_mach d = co_mach c" "co_retired d = co_retired c" using t by (simp_all add: d_def)
  obtain e where e: "step_loop (core_board G) timeout 1 n d = Some (Inr (map (\<lambda>i. int (co_retired c + i)) [1..<n + 1]), e)"
    "stopped_after G n d e"
    using step_loop_core [OF frozen_halted [OF d(1)], of n timeout 1] assms(2,3,4) d(3) by auto
  have fe: "frozen G e" using e(2) by (simp add: stopped_after_def)
  then obtain s where s: "read_halted_arch_state (core_board G) e = Some (Inr (core_state G e), e\<lparr>co_sel := s\<rparr>)"
    using read_state_core by blast
  have o1: "open_mmio (core_board G) c = Some (Inr (), d)" by (simp add: d_def)
  have o2: "require_exec_debug (core_board G) d = Some (Inr (), d)" "execution_ctrl (core_board G) d = Some (Inr (ctrl_word G d), d)"
    using d(1) by simp_all
  have "step_probe (core_board G) (int n) timeout c =
      Some (Inr (map (\<lambda>i. int (co_retired c + i)) [1..<n + 1], core_state G e), e\<lparr>co_sel := s\<rparr>)"
    unfolding step_probe_def
    by (rule bindIO_eq, rule o1, rule bindIO_eq, rule o2(1), subst if_not_P, use assms(2) in simp, rule bindIO_eq, rule o2(2),
        subst if_not_P, use d(1) in simp, subst nat_int, rule bindIO_eq, rule e(1), rule bindIO_eq, rule s) simp
  then show ?thesis using e(2) d fe by (intro exI [of _ "e\<lparr>co_sel := s\<rparr>"]) (simp add: stopped_after_def)
qed

definition demo_guest :: "int guest" where
  "demo_guest = \<lparr>gu_exec = (\<lambda>m. m + 4), gu_eip = (\<lambda>m. m), gu_arch = (\<lambda>m s. if s = 8 then m else 0), gu_latency = 3\<rparr>"

definition demo_core :: "int core" where
  "demo_core = \<lparr>co_mach = 0x1000, co_retired = 41, co_halt_req = True, co_bp_en = False, co_bp_addr = 0, co_bp_latched = False,
     co_step = 0, co_reason = 1, co_sel = 0, co_time = 0\<rparr>"

lemma step_probe_steps_witness:
  "\<exists>c'. step_probe (core_board demo_guest) 2 1 demo_core = Some (Inr ([42, 43], core_state demo_guest c'), c') \<and> co_mach c' = 0x1008"
proof -
  have h: "core_halted demo_guest demo_core" "co_retired demo_core + 2 < 2 ^ 64 - 7" "int (gu_latency demo_guest) \<le> 1000 * 1"
    by (simp_all add: demo_guest_def demo_core_def core_halted_def park_def)
  have "map (\<lambda>i. int (co_retired demo_core + i)) [1..<2 + 1] = [42, 43]" "(gu_exec demo_guest ^^ 2) (co_mach demo_core) = 0x1008"
    by (simp_all add: demo_guest_def demo_core_def upt_rec eval_nat_numeral)
  then show ?thesis using step_probe_steps [OF h(1) _ h(2,3)] by (metis of_nat_numeral one_le_numeral)
qed

subsection \<open>A breakpoint\<close>

definition toward :: "'m guest \<Rightarrow> int \<Rightarrow> nat \<Rightarrow> 'm core \<Rightarrow> bool" where
  "toward G e d c \<longleftrightarrow> co_step c = 0 \<and> \<not> co_halt_req c \<and> co_bp_en c \<and> co_bp_addr c = e \<and> (co_bp_latched c \<longrightarrow> d = 0) \<and>
     (\<forall>i<d. gu_eip G ((gu_exec G ^^ i) (co_mach c)) \<noteq> e) \<and> gu_eip G ((gu_exec G ^^ d) (co_mach c)) = e"

lemma toward_halted: "toward G e d c \<Longrightarrow> core_halted G c \<longleftrightarrow> d = 0"
  by (cases d) (auto simp: toward_def core_halted_def park_def bp_hit_def)

lemma toward_time [simp]: "toward G e d (c\<lparr>co_time := t\<rparr>) = toward G e d c"
  by (simp add: toward_def)

lemma toward_arrived: "toward G e 0 c \<Longrightarrow> toward G e 0 (tick G c) \<and> co_reason (tick G c) = 2 \<and>
    co_mach (tick G c) = co_mach c \<and> co_retired (tick G c) = co_retired c"
proof -
  assume t: "toward G e 0 c"
  then have eq: "tick G c = c\<lparr>co_bp_latched := True, co_reason := 2\<rparr>" by (simp add: toward_def tick_def bp_hit_def)
  show ?thesis using t unfolding eq by (simp add: toward_def)
qed

lemma toward_step:
  assumes "toward G e (Suc d) c"
  shows "toward G e d (tick G c)" "co_mach (tick G c) = gu_exec G (co_mach c)" "co_retired (tick G c) = co_retired c + 1"
proof -
  have eq: "tick G c = retire_one G c" using assms by (auto simp: toward_def tick_def bp_hit_def park_def)
  show "co_mach (tick G c) = gu_exec G (co_mach c)" "co_retired (tick G c) = co_retired c + 1" unfolding eq by (simp_all add: retire_one_def)
  have "gu_eip G ((gu_exec G ^^ i) (gu_exec G (co_mach c))) \<noteq> e" if "i < d" for i
    using assms that by (auto simp: toward_def funpow_swap1 dest: spec [of _ "Suc i"])
  then show "toward G e d (tick G c)" using assms unfolding eq by (auto simp: toward_def retire_one_def funpow_swap1)
qed

lemma toward_ticks:
  assumes "toward G e d c"
  shows "toward G e (d - k) ((tick G ^^ k) c) \<and> co_mach ((tick G ^^ k) c) = (gu_exec G ^^ min k d) (co_mach c) \<and>
    co_retired ((tick G ^^ k) c) = co_retired c + min k d"
proof (induction k)
  case (Suc k)
  show ?case
  proof (cases "k < d")
    case True
    then obtain j where j: "d - k = Suc j" "d - Suc k = j" "min k d = k" "min (Suc k) d = Suc k" by (metis Suc_diff_Suc Suc_leI min.absorb1 less_imp_le)
    then show ?thesis using Suc toward_step [of G e j "(tick G ^^ k) c"] by simp
  next
    case False
    then have "d - k = 0" "d - Suc k = 0" "min k d = d" "min (Suc k) d = d" by simp_all
    then show ?thesis using Suc toward_arrived [of G e "(tick G ^^ k) c"] by simp
  qed
qed (use assms in simp)

lemma wait_toward:
  assumes "toward G e d c" "1000 * co_time c + int d \<le> 1000 * D"
  shows "\<exists>w c'. wait_loop (core_board G) True D c = Some (Inr w, c') \<and> toward G e 0 c' \<and> frozen G c' \<and> co_reason c' = 2 \<and>
    co_mach c' = (gu_exec G ^^ d) (co_mach c) \<and> co_retired c' = co_retired c + d"
  using assms
proof (induction d arbitrary: c rule: less_induct)
  case (less d)
  note one = toward_ticks [OF less.prems(1), of 1, simplified]
  note two = toward_ticks [OF less.prems(1), of 2]
  have t2: "(tick G ^^ 2) c = tick G (tick G c)" by (simp add: eval_nat_numeral)
  have ctrl: "execution_ctrl (core_board G) c = Some (Inr (ctrl_word G (tick G c)), (tick G ^^ 2) c)" by (simp add: t2)
  have bit: "halted_bit (ctrl_word G (tick G c)) \<longleftrightarrow> d \<le> 1" using toward_halted one by fastforce
  show ?case
  proof (cases "d \<le> 1")
    case True
    then have here: "toward G e 0 (tick G c)" "min 2 d = d" "d - 2 = 0" using one by simp_all
    have "wait_loop (core_board G) True D c = Some (Inr (ctrl_word G (tick G c)), (tick G ^^ 2) c)"
      by (subst wait_loop.simps, rule bindIO_eq, rule ctrl) (use True bit in simp)
    moreover have "frozen G ((tick G ^^ 2) c)" "co_reason ((tick G ^^ 2) c) = 2"
      using halted_tick(1) toward_halted [OF here(1)] toward_arrived [OF here(1)] unfolding t2 by auto
    ultimately show ?thesis using two here by (intro exI) auto
  next
    case False
    define e' where "e' = (tick G ^^ 1000) (((tick G ^^ 2) c)\<lparr>co_time := co_time c + 1\<rparr>)"
    have time: "co_time c < D" using less.prems(2) False by simp
    have loop: "wait_loop (core_board G) True D c = wait_loop (core_board G) True D e'"
      by (subst wait_loop.simps, rule bindIO_eq, rule ctrl) (use False bit time in \<open>simp add: e'_def\<close>)
    have "toward G e (d - 2) (((tick G ^^ 2) c)\<lparr>co_time := co_time c + 1\<rparr>)" using two by simp
    from toward_ticks [OF this, of 1000] have e': "toward G e (d - 2 - 1000) e'"
      "co_mach e' = (gu_exec G ^^ min 1000 (d - 2)) ((gu_exec G ^^ 2) (co_mach c))"
      "co_retired e' = co_retired c + 2 + min 1000 (d - 2)" "co_time e' = co_time c + 1"
      using two False by (simp_all add: e'_def del: funpow.simps)
    have "1000 * co_time e' + int (d - 2 - 1000) \<le> 1000 * D" using less.prems(2) e'(4) time by linarith
    from less.IH [OF _ e'(1) this] False obtain w c' where c': "wait_loop (core_board G) True D e' = Some (Inr w, c')" "toward G e 0 c'"
      "frozen G c'" "co_reason c' = 2" "co_mach c' = (gu_exec G ^^ (d - 2 - 1000)) (co_mach e')" "co_retired c' = co_retired e' + (d - 2 - 1000)"
      by auto
    have sum: "d - 2 - 1000 + (min 1000 (d - 2) + 2) = d" "2 + min 1000 (d - 2) + (d - 2 - 1000) = d" using False by auto
    have "co_mach c' = (gu_exec G ^^ d) (co_mach c)"
      using c'(5) e'(2) sum(1) by (metis funpow_add comp_apply)
    moreover have "co_retired c' = co_retired c + d" using c'(6) e'(3) sum(2) by simp
    ultimately show ?thesis using loop c' by auto
  qed
qed

lemma breakpoint_command:
  fixes G :: "'m guest"
  assumes "co_step c = 0"
  defines "d \<equiv> exec_command G (DBG_EXEC_BP_EN OR DBG_EXEC_BP_CLR) c"
  shows "\<not> co_halt_req d" "co_bp_en d" "co_step d = 0" "co_mach d = co_mach c" "co_retired d = co_retired c"
    "co_time d = co_time c" "\<not> co_bp_latched d" "co_bp_addr d = co_bp_addr c"
  using assms(1) unfolding d_def by (simp_all add: exec_command_def DBG_EXEC_BP_EN_def DBG_EXEC_BP_CLR_def Let_def)

text \<open>
  C22. A breakpoint probe that waits parks a halted core before the first instruction at the target
  address: it lets exactly the instructions before it retire, leaves the core halted with the cause
  breakpoint, and prints the state of the machine at that point, if the target is reached in time.
\<close>
theorem breakpoint_probe_stops:
  assumes "core_halted G c" "gu_eip G ((gu_exec G ^^ n) (co_mach c)) = target"
    "\<forall>i<n. gu_eip G ((gu_exec G ^^ i) (co_mach c)) \<noteq> target" "int n \<le> 1000 * timeout"
  shows "\<exists>w c'. breakpoint_probe (core_board G) target True timeout c = Some (Inr (Some (w, core_state G c')), c') \<and>
    co_mach c' = (gu_exec G ^^ n) (co_mach c) \<and> co_retired c' = co_retired c + n \<and> core_halted G c' \<and> co_reason c' = 2"
proof -
  note t = halted_tick [OF assms(1)]
  define d where "d = tick G c"
  have d: "frozen G d" "co_mach d = co_mach c" "co_retired d = co_retired c" using t by (simp_all add: d_def)
  define e where "e = d\<lparr>co_bp_addr := target\<rparr>"
  have "core_halted G e"
  proof -
    have "park d" using d(1) by (auto simp: frozen_def core_halted_def tick_def dest: arg_cong [where f = co_bp_latched] simp: park_def)
    then show ?thesis using frozen_halted [OF d(1)] by (simp add: core_halted_def e_def park_def)
  qed
  note te = halted_tick [OF this]
  have e: "co_mach (tick G e) = co_mach c" "co_retired (tick G e) = co_retired c" "co_step (tick G e) = 0" "co_bp_addr (tick G e) = target"
    using te d frozen_halted [OF te(1)] by (simp_all add: e_def core_halted_def) (simp add: tick_def retire_one_def)
  define f where "f = exec_command G (DBG_EXEC_BP_EN OR DBG_EXEC_BP_CLR) (tick G e)"
  note f = breakpoint_command [OF e(3), where G = G, folded f_def, unfolded e]
  have "toward G target n f" using f assms(2,3) by (simp add: toward_def)
  note tf = toward_ticks [OF this, of 1, simplified]
  have "1000 * co_time (tick G f) + int (n - Suc 0) \<le> 1000 * (co_time (tick G f) + timeout)" using assms(4) by simp
  from wait_toward [OF conjunct1 [OF tf] this] obtain w c' where w:
    "wait_loop (core_board G) True (co_time (tick G f) + timeout) (tick G f) = Some (Inr w, c')" "frozen G c'" "co_reason c' = 2"
    "co_mach c' = (gu_exec G ^^ (n - Suc 0)) (co_mach (tick G f))" "co_retired c' = co_retired (tick G f) + (n - Suc 0)" by blast
  have at: "co_mach c' = (gu_exec G ^^ n) (co_mach c)" "co_retired c' = co_retired c + n"
    using w(4,5) tf f by (cases n; simp add: funpow_swap1)+
  obtain s where s: "read_halted_arch_state (core_board G) c' = Some (Inr (core_state G c'), c'\<lparr>co_sel := s\<rparr>)"
    using read_state_core [OF w(2)] by blast
  have o1: "open_mmio (core_board G) c = Some (Inr (), d)" by (simp add: d_def)
  have o2: "require_exec_debug (core_board G) d = Some (Inr (), d)" using d(1) by simp
  have o3: "poke (core_board G) R_DBG_BP_ADDR target d = Some (Inr (), tick G e)" by (simp add: e_def)
  have o4: "poke (core_board G) R_DBG_EXEC_CTRL (DBG_EXEC_BP_EN OR DBG_EXEC_BP_CLR) (tick G e) = Some (Inr (), tick G f)" by (simp add: f_def)
  have o5: "wait_execution_halted (core_board G) True timeout (tick G f) = Some (Inr w, c')"
    unfolding wait_execution_halted_def by (rule bindIO_eq, rule now_core, rule w(1))
  have "breakpoint_probe (core_board G) target True timeout c = Some (Inr (Some (w, core_state G c')), c'\<lparr>co_sel := s\<rparr>)"
    unfolding breakpoint_probe_def if_True
    by (rule bindIO_eq, rule o1, rule bindIO_eq, rule o2, rule bindIO_eq, rule o3, rule bindIO_eq, rule o4,
        rule bindIO_eq, rule o5, rule bindIO_eq, rule s) simp
  then show ?thesis using w(2,3) at by (intro exI [of _ w] exI [of _ "c'\<lparr>co_sel := s\<rparr>"]) simp
qed

lemma breakpoint_probe_stops_witness:
  "\<exists>w c'. breakpoint_probe (core_board demo_guest) 0x1008 True 1 demo_core = Some (Inr (Some (w, core_state demo_guest c')), c') \<and>
    co_mach c' = 0x1008"
proof -
  have h: "core_halted demo_guest demo_core" "gu_eip demo_guest ((gu_exec demo_guest ^^ 2) (co_mach demo_core)) = 0x1008"
    "\<forall>i<2. gu_eip demo_guest ((gu_exec demo_guest ^^ i) (co_mach demo_core)) \<noteq> 0x1008" "int 2 \<le> 1000 * 1"
    "(gu_exec demo_guest ^^ 2) (co_mach demo_core) = 0x1008"
    by (auto simp: demo_guest_def demo_core_def core_halted_def park_def eval_nat_numeral less_Suc_eq)
  show ?thesis using breakpoint_probe_stops [OF h(1,2,3,4)] h(5) by auto
qed

end
