(* ===== verification/Board_Cold.thy ===== *)
theory Board_Cold
  imports Board_Exec
begin

text \<open>
  fpga/board-tools/ven_cold_clock.py: the frequency of a core that is held in reset, measured by reading
  its cycle counter between two readings of the host's clock at each end of an interval. Times are in
  nanoseconds here (sleeps in milliseconds); the quotients, floats in the source, are exact rationals.
\<close>

subsection \<open>Measuring\<close>

record sample_point =
  ep_cycles :: int
  ep_retired :: int
  ep_t0 :: int
  ep_t1 :: int

definition held_reset :: "'h board \<Rightarrow> ('h, bool) bio" where
  "held_reset B = bindIO (rd32 B R_IDENT) (\<lambda>a. if a \<noteq> IDENT_MAGIC then retIO False
     else bindIO (rd32 B 0x20) (\<lambda>b. if b \<noteq> 1 then retIO False
     else bindIO (rd32 B R_DBG_FRZINFO) (\<lambda>c. if c AND 0x80000000 \<noteq> 0 then retIO False
     else bindIO (rd32 B R_DBG_CR0) (\<lambda>d. retIO (d = 0x60000010)))))"

definition end_point :: "'h board \<Rightarrow> bool \<Rightarrow> ('h, sample_point) bio" where
  "end_point B allow = bindIO (require_exec_debug B) (\<lambda>_. bindIO (held_reset B) (\<lambda>ok.
     if \<not> ok then failIO BoardValue
     else bindIO (now_ns B) (\<lambda>t0. bindIO (stable_u64 B R_DBG_CYC_LO R_DBG_CYC_HI) (\<lambda>cycles. bindIO (now_ns B) (\<lambda>t1.
       bindIO (stable_u64 B R_DBG_RET_LO R_DBG_RET_HI) (\<lambda>retired.
         if retired \<noteq> 0 \<and> \<not> allow then failIO BoardValue
         else if t1 < t0 then failIO BoardValue
         else retIO \<lparr>ep_cycles = cycles, ep_retired = retired, ep_t0 = t0, ep_t1 = t1\<rparr>))))))"

partial_function (option) measure_loop ::
  "'h board \<Rightarrow> bool \<Rightarrow> sample_point \<Rightarrow> int \<Rightarrow> sample_point \<Rightarrow> int \<Rightarrow> 'h \<Rightarrow> ((board_error + sample_point \<times> int) \<times> 'h) option" where
  "measure_loop B allow before deadline previous checks h =
    bindIO (now_ns B) (\<lambda>t h. if \<not> t < deadline then Some (Inr (previous, checks), h)
      else bindIO (sleep B 50) (\<lambda>_. bindIO (end_point B allow) (\<lambda>current h.
        if ep_cycles current < ep_cycles previous then Some (Inl BoardValue, h)
        else if ep_retired current \<noteq> ep_retired before then Some (Inl BoardValue, h)
        else measure_loop B allow before deadline current (checks + 1) h)) h) h"

record clock_verdict =
  cr_verdict :: string
  cr_before :: sample_point
  cr_after :: sample_point
  cr_delta :: int
  cr_elapsed :: rat
  cr_measured :: rat
  cr_lower :: rat
  cr_upper :: rat
  cr_checks :: int

definition clock_report :: "rat \<Rightarrow> sample_point \<Rightarrow> sample_point \<Rightarrow> int \<Rightarrow> board_error + clock_verdict" where
  "clock_report expected before after checks =
    (let minimum_ns = ep_t0 after - ep_t1 before; maximum_ns = ep_t1 after - ep_t0 before; delta = ep_cycles after - ep_cycles before
     in if \<not> (4800000000 \<le> minimum_ns \<and> minimum_ns \<le> maximum_ns \<and> maximum_ns \<le> 6000000000) then Inl BoardValue
        else let lower = of_int (delta * 1000) / of_int maximum_ns; upper = of_int (delta * 1000) / of_int minimum_ns
          in if \<not> (expected * (9875 / 10000) \<le> lower \<and> lower \<le> upper \<and> upper \<le> expected * (10125 / 10000)) then Inl BoardValue
             else let elapsed = of_int (minimum_ns + maximum_ns) / 2000000000
               in Inr \<lparr>cr_verdict = (if expected = 40 then ''PASS_HELD_RESET_40MHZ_ONLY'' else ''PASS_HELD_RESET_EXPERIMENTAL_CLOCK_ONLY''),
                    cr_before = before, cr_after = after, cr_delta = delta, cr_elapsed = elapsed,
                    cr_measured = of_int delta / elapsed / 1000000, cr_lower = lower, cr_upper = upper, cr_checks = checks\<rparr>)"

text \<open>An expected frequency of \<open>None\<close> is one that is not finite.\<close>

definition measure_clock :: "'h board \<Rightarrow> rat option \<Rightarrow> bool \<Rightarrow> ('h, clock_verdict) bio" where
  "measure_clock B expected allow = (case expected of None \<Rightarrow> failIO BoardValue
     | Some mhz \<Rightarrow> if \<not> (20 \<le> mhz \<and> mhz \<le> 100) then failIO BoardValue
         else bindIO (end_point B allow) (\<lambda>before. bindIO (measure_loop B allow before (ep_t1 before + 5000000000) before 1) (\<lambda>(after, checks) h.
           Some (clock_report mhz before after checks, h))))"

subsection \<open>The counter and the clock\<close>

text \<open>A cycle counter beside a clock: the clock reads the time, and neither runs backwards.\<close>

locale clocked = split_counter B R_DBG_CYC_LO R_DBG_CYC_HI count for B :: "'h board" and count +
  fixes time :: "'h \<Rightarrow> int"
  assumes time_read: "time h \<le> time (snd (bd_read B r h))"
    and time_now: "time h \<le> fst (bd_now_ns B h)" "fst (bd_now_ns B h) \<le> time (snd (bd_now_ns B h))"
    and time_sleep: "time h \<le> time (bd_sleep B n h)"
    and count_now: "count h \<le> count (snd (bd_now_ns B h))"
    and count_sleep: "count h \<le> count (bd_sleep B n h)"
begin

definition later :: "'h \<Rightarrow> 'h \<Rightarrow> bool" where
  "later h h' \<longleftrightarrow> time h \<le> time h' \<and> count h \<le> count h'"

lemma later_refl [simp]: "later h h" by (simp add: later_def)
lemma later_trans: "later a b \<Longrightarrow> later b c \<Longrightarrow> later a c" by (simp add: later_def)

lemma later_read: "rd32 B r h = Some (v, h') \<Longrightarrow> later h h'"
  using time_read [of h r] monotone [of h r] by (auto simp: rd32_def later_def split: prod.splits)

lemma later_now: "now_ns B h = Some (Inr t, h') \<Longrightarrow> later h h' \<and> time h \<le> t \<and> t \<le> time h'"
  using time_now [of h] count_now [of h] by (auto simp: now_ns_def later_def split: prod.splits)

lemma later_sleep: "sleep B n h = Some (v, h') \<Longrightarrow> later h h'"
  using time_sleep [of h n] count_sleep [of h n] by (auto simp: sleep_def later_def)

lemma later_stable: "stable_u64 B a b h = Some (v, h') \<Longrightarrow> later h h'"
  using stable_reads [where R = later, of B a b h "(v, h')"] later_trans time_read monotone by (auto simp: later_def)

lemma stable_between:
  assumes "stable_u64 B R_DBG_CYC_LO R_DBG_CYC_HI h = Some (Inr v, h')" "count h' < 2 ^ 64"
  shows "\<exists>g. v = count g \<and> later h g \<and> later g h'"
proof -
  obtain g where "v = count g" "passes g h h'" using stable_exact [OF assms] by auto
  moreover have "read_monotone time" by (simp add: read_monotone_def time_read)
  ultimately show ?thesis using count_monotone by (auto simp: passes_def later_def)
qed

lemma later_reset: "held_reset B h = Some (Inr v, h') \<Longrightarrow> later h h'"
  unfolding held_reset_def
  by (auto elim!: bindIO_cases dest!: later_read split: if_splits simp: later_def)

lemma later_exec: "require_exec_debug B h = Some (Inr v, h') \<Longrightarrow> later h h'"
  unfolding require_exec_debug_def by (auto elim!: bindIO_cases dest!: later_read split: if_splits)

definition brackets :: "sample_point \<Rightarrow> 'h \<Rightarrow> 'h \<Rightarrow> 'h \<Rightarrow> bool" where
  "brackets e g h h' \<longleftrightarrow> ep_cycles e = count g \<and> later h g \<and> later g h' \<and> time h \<le> ep_t0 e \<and> ep_t0 e \<le> time g \<and>
     time g \<le> ep_t1 e \<and> ep_t1 e \<le> time h'"

lemma end_point_brackets:
  assumes "end_point B allow h = Some (Inr e, h')" "count h' < 2 ^ 64"
  shows "\<exists>g. brackets e g h h'"
proof -
  from assms(1) obtain h1 h2 h3 h4 h5 u t0 c t1 v where
    s: "require_exec_debug B h = Some (Inr u, h1)" "held_reset B h1 = Some (Inr True, h2)" "now_ns B h2 = Some (Inr t0, h3)"
      "stable_u64 B R_DBG_CYC_LO R_DBG_CYC_HI h3 = Some (Inr c, h4)" "now_ns B h4 = Some (Inr t1, h5)"
      "stable_u64 B R_DBG_RET_LO R_DBG_RET_HI h5 = Some (Inr v, h')"
      "e = \<lparr>ep_cycles = c, ep_retired = v, ep_t0 = t0, ep_t1 = t1\<rparr>"
    unfolding end_point_def by (auto elim!: bindIO_cases split: if_splits)
  note l = later_exec [OF s(1)] later_reset [OF s(2)] later_now [OF s(3)] later_now [OF s(5)] later_stable [OF s(6)]
  have "count h4 < 2 ^ 64" using assms(2) l(4,5) by (auto simp: later_def)
  from stable_between [OF s(4) this] obtain g where g: "c = count g" "later h3 g" "later g h4" by blast
  show ?thesis unfolding brackets_def s(7) using l g by (intro exI [of _ g]) (auto simp: later_def)
qed

lemma end_point_later: "end_point B allow h = Some (Inr e, h') \<Longrightarrow> later h h'"
  unfolding end_point_def
  by (auto elim!: bindIO_cases dest!: later_exec later_reset later_now later_stable split: if_splits simp: later_def)

lemma brackets_later: "brackets e g a b \<Longrightarrow> later a b"
  by (auto simp: brackets_def later_def)

lemma measure_loop_brackets:
  assumes "measure_loop B allow before D previous checks h = Some (Inr (after, n), h')" "count h' < 2 ^ 64"
  shows "later h h' \<and> ((\<exists>g a b. brackets previous g a b \<and> later a' a \<and> later b h) \<longrightarrow>
    (\<exists>g a b. brackets after g a b \<and> later a' a \<and> later b h'))"
proof -
  let ?Q = "\<lambda>B' (allow :: bool) (before :: sample_point) (D :: int) previous (checks :: int) h (y :: (board_error + sample_point \<times> int) \<times> 'h). \<forall>after n. B' = B \<longrightarrow> fst y = Inr (after, n) \<longrightarrow> count (snd y) < 2 ^ 64 \<longrightarrow>
    later h (snd y) \<and> ((\<exists>g a b. brackets previous g a b \<and> later a' a \<and> later b h) \<longrightarrow>
      (\<exists>g a b. brackets after g a b \<and> later a' a \<and> later b (snd y)))"
  have "?Q B allow before D previous checks h (Inr (after, n), h')"
  proof (rule measure_loop.raw_induct [where P = ?Q, OF _ assms(1)], goal_cases)
    case (1 f B' allow before D previous checks h y)
    note hyp = 1(1)
    show ?case
    proof (intro allI impI)
      fix after n
      assume B: "B' = B" and y: "fst y = Inr (after, n)" and fits: "count (snd y) < 2 ^ 64"
      obtain s where y': "y = (Inr (after, n), s)" using y by (cases y) simp
      have eq: "bindIO (now_ns B) (\<lambda>t h. if \<not> t < D then Some (Inr (previous, checks), h)
          else bindIO (sleep B 50) (\<lambda>_. bindIO (end_point B allow) (\<lambda>current h.
            if ep_cycles current < ep_cycles previous then Some (Inl BoardValue, h)
            else if ep_retired current \<noteq> ep_retired before then Some (Inl BoardValue, h)
            else f B allow before D current (checks + 1) h)) h) h = Some (Inr (after, n), s)"
        using 1(2) unfolding B y' .
      from eq consider
        t h1 where "now_ns B h = Some (Inr t, h1)" "previous = after" "s = h1"
        | t h1 u h2 e h3 where "now_ns B h = Some (Inr t, h1)" "sleep B 50 h1 = Some (Inr u, h2)" "end_point B allow h2 = Some (Inr e, h3)"
            "f B allow before D e (checks + 1) h3 = Some (Inr (after, n), s)"
        by (auto elim!: bindIO_cases split: if_splits)
      then show "later h (snd y) \<and> ((\<exists>g a b. brackets previous g a b \<and> later a' a \<and> later b h) \<longrightarrow>
          (\<exists>g a b. brackets after g a b \<and> later a' a \<and> later b (snd y)))"
      proof cases
        case 1
        have "later h h1" using later_now [OF 1(1)] by simp
        then show ?thesis unfolding y' snd_conv 1(2) 1(3) by (blast intro: later_trans)
      next
        case (2 t h1 u h2 e h3)
        have l: "later h h2" "later h2 h3"
          using later_now [OF 2(1)] later_sleep [OF 2(2)] end_point_later [OF 2(3)] later_trans by blast+
        have IH: "later h3 s \<and> ((\<exists>g a b. brackets e g a b \<and> later a' a \<and> later b h3) \<longrightarrow>
            (\<exists>g a b. brackets after g a b \<and> later a' a \<and> later b s))"
          using hyp [OF 2(4)] fits y' by auto
        have "count h3 < 2 ^ 64" using IH fits y' by (simp add: later_def)
        from end_point_brackets [OF 2(3) this] obtain g where g: "brackets e g h2 h3" by blast
        show ?thesis unfolding y' snd_conv
        proof (intro conjI impI)
          show "later h s" using IH l later_trans by blast
          assume "\<exists>g a b. brackets previous g a b \<and> later a' a \<and> later b h"
          then have "later a' h2" using l(1) by (blast intro: later_trans brackets_later)
          then show "\<exists>g a b. brackets after g a b \<and> later a' a \<and> later b s" using IH g later_refl by blast
        qed
      qed
    qed
  qed
  then show ?thesis using assms by auto
qed

lemma report_frequency:
  assumes "clock_report mhz before after n = Inr r" "20 \<le> mhz" "brackets before g0 a0 b0" "brackets after g1 a1 b1"
  shows "time g0 < time g1 \<and> (\<exists>f. f = of_int ((count g1 - count g0) * 1000) / of_int (time g1 - time g0) \<and>
    cr_lower r \<le> f \<and> f \<le> cr_upper r \<and> mhz * (9875 / 10000) \<le> f \<and> f \<le> mhz * (10125 / 10000))"
proof -
  define lo where "lo = ep_t0 after - ep_t1 before"
  define hi where "hi = ep_t1 after - ep_t0 before"
  define d where "d = (count g1 - count g0) * 1000"
  define t where "t = time g1 - time g0"
  define L :: rat where "L = of_int ((ep_cycles after - ep_cycles before) * 1000) / of_int hi"
  define U :: rat where "U = of_int ((ep_cycles after - ep_cycles before) * 1000) / of_int lo"
  have "\<exists>v e m. clock_report mhz before after n = (if \<not> (4800000000 \<le> lo \<and> lo \<le> hi \<and> hi \<le> 6000000000) then Inl BoardValue
      else if \<not> (mhz * (9875 / 10000) \<le> L \<and> L \<le> U \<and> U \<le> mhz * (10125 / 10000)) then Inl BoardValue
      else Inr \<lparr>cr_verdict = v, cr_before = before, cr_after = after, cr_delta = ep_cycles after - ep_cycles before, cr_elapsed = e,
        cr_measured = m, cr_lower = L, cr_upper = U, cr_checks = n\<rparr>)"
    unfolding clock_report_def Let_def L_def U_def lo_def hi_def by (intro exI) (rule refl)
  then have report: "4800000000 \<le> lo" "cr_lower r = L" "cr_upper r = U" "mhz * (9875 / 10000) \<le> L" "U \<le> mhz * (10125 / 10000)"
    using assms(1) by (auto split: if_splits)
  have d: "d = (ep_cycles after - ep_cycles before) * 1000" using assms(3,4) by (simp add: d_def brackets_def)
  note r = report [unfolded L_def U_def, folded d]
  have t: "lo \<le> t" "t \<le> hi" using assms(3,4) by (auto simp: t_def lo_def hi_def brackets_def)
  have "0 < mhz * (9875 / 10000)" using assms(2) by simp
  then have "0 < (of_int d / of_int hi :: rat)" using r(4) by linarith
  then have "0 < d" using r(1,2) t by (simp add: zero_less_divide_iff)
  then have "of_int d / of_int hi \<le> (of_int d / of_int t :: rat)" "of_int d / of_int t \<le> (of_int d / of_int lo :: rat)"
    using r(1) t by (auto intro!: divide_left_mono mult_pos_pos)
  then have "cr_lower r \<le> of_int d / of_int t" "of_int d / of_int t \<le> cr_upper r"
    "mhz * (9875 / 10000) \<le> of_int d / of_int t" "of_int d / of_int t \<le> mhz * (10125 / 10000)"
    using r(2,3,4,5) by linarith+
  moreover have "time g0 < time g1" using r(1) t unfolding t_def by linarith
  ultimately show ?thesis unfolding d_def t_def by blast
qed

lemma measure_exact:
  assumes "measure_clock B (Some mhz) allow h = Some (Inr r, h')" "count h' < 2 ^ 64"
  shows "\<exists>g0 g1 f. later h g0 \<and> later g1 h' \<and> time g0 < time g1 \<and> f = of_int ((count g1 - count g0) * 1000) / of_int (time g1 - time g0) \<and>
    cr_lower r \<le> f \<and> f \<le> cr_upper r \<and> mhz * (9875 / 10000) \<le> f \<and> f \<le> mhz * (10125 / 10000)"
proof -
  from assms(1) obtain before h1 after n where s: "20 \<le> mhz" "end_point B allow h = Some (Inr before, h1)"
    "measure_loop B allow before (ep_t1 before + 5000000000) before 1 h1 = Some (Inr (after, n), h')" "clock_report mhz before after n = Inr r"
    unfolding measure_clock_def by (auto elim!: bindIO_cases split: if_splits)
  have "later h1 h'" using measure_loop_brackets [OF s(3) assms(2)] by blast
  then have "count h1 < 2 ^ 64" using assms(2) by (simp add: later_def)
  from end_point_brackets [OF s(2) this] obtain g0 where g0: "brackets before g0 h h1" by blast
  from measure_loop_brackets [OF s(3) assms(2), of h] g0 later_refl obtain g1 a b where
    g1: "brackets after g1 a b" "later b h'" by blast
  have "later h g0" "later g1 h'" using g0 g1 later_trans unfolding brackets_def by blast+
  then show ?thesis using report_frequency [OF s(4,1) g0 g1(1)] by blast
qed

end

subsection \<open>A core held in reset\<close>

text \<open>
  The register block while the guest is held in reset: the cycle counter follows the clock of the core at
  a fixed number of cycles per microsecond, nothing retires, and a sleep takes as long as it likes
  beyond what was asked for.
\<close>

definition held_cycles :: "int \<Rightarrow> nat \<Rightarrow> int" where
  "held_cycles mhz t = int t * mhz div 1000"

definition held_read :: "int \<Rightarrow> int \<Rightarrow> nat \<Rightarrow> int" where
  "held_read mhz r t =
    (if r = R_IDENT then IDENT_MAGIC else if r = 0x20 then 1 else if r = R_DBG_CR0 then 0x60000010
     else if r = R_DBG_EXEC_CAP then DBG_EXEC_CAP
     else if r = R_DBG_CYC_LO then take_bit 32 (held_cycles mhz t)
     else if r = R_DBG_CYC_HI then take_bit 32 (drop_bit 32 (held_cycles mhz t)) else 0)"

definition held_board :: "nat \<Rightarrow> nat \<Rightarrow> nat board" where
  "held_board mhz extra = \<lparr>bd_state = (\<lambda>_. Some ''operating''), bd_read = (\<lambda>r t. (held_read (int mhz) r t, t + 1000)),
     bd_write = (\<lambda>_ _ t. t + 1000), bd_low16 = (\<lambda>_ t. (0, t)), bd_set_low16 = (\<lambda>_ _ t. t),
     bd_now = (\<lambda>t. (int t div 1000000, t + 100)), bd_now_ns = (\<lambda>t. (int t, t + 100)),
     bd_sleep = (\<lambda>n t. t + 1000000 * nat n + extra)\<rparr>"

lemma held_cycles_mono: "t \<le> u \<Longrightarrow> held_cycles (int mhz) t \<le> held_cycles (int mhz) u"
  by (simp add: held_cycles_def zdiv_mono1 mult_right_mono)

interpretation held: clocked "held_board mhz extra" "held_cycles (int mhz)" int for mhz extra
proof unfold_locales
  fix t r
  show "fst (bd_read (held_board mhz extra) R_DBG_CYC_HI t) = take_bit 32 (drop_bit 32 (held_cycles (int mhz) t))"
    "fst (bd_read (held_board mhz extra) R_DBG_CYC_LO t) = take_bit 32 (held_cycles (int mhz) t)"
    by (simp_all add: held_board_def held_read_def R_DBG_CYC_LO_def R_DBG_CYC_HI_def R_IDENT_def R_DBG_CR0_def R_DBG_EXEC_CAP_def)
qed (simp_all add: held_board_def held_cycles_mono held_cycles_def pos_imp_zdiv_nonneg_iff zdiv_mono1 mult_right_mono)

lemma rd32_held [simp]: "rd32 (held_board mhz x) r t = Some (Inr (held_read (int mhz) r t), t + 1000)"
  by (simp add: rd32_def held_board_def)

lemma now_held [simp]: "now_ns (held_board mhz x) t = Some (Inr (int t), t + 100)"
  by (simp add: now_ns_def held_board_def)

lemma sleep_held [simp]: "sleep (held_board mhz x) n t = Some (Inr (), t + 1000000 * nat n + x)"
  by (simp add: sleep_def held_board_def)

lemmas held_regs = held_read_def R_DBG_CYC_LO_def R_DBG_CYC_HI_def R_IDENT_def R_DBG_CR0_def R_DBG_EXEC_CAP_def R_DBG_FRZINFO_def
  R_DBG_RET_LO_def R_DBG_RET_HI_def

lemma held_end_point:
  assumes "held_cycles (int mhz) (t + 7100) < 2 ^ 32"
  shows "end_point (held_board mhz x) allow t =
    Some (Inr \<lparr>ep_cycles = held_cycles (int mhz) (t + 6100), ep_retired = 0, ep_t0 = int t + 5000, ep_t1 = int t + 8100\<rparr>, t + 11200)"
proof -
  have small: "take_bit 32 (held_cycles (int mhz) u) = held_cycles (int mhz) u" "drop_bit 32 (held_cycles (int mhz) u) = 0" if "u \<le> t + 7100" for u
  proof -
    have "0 \<le> held_cycles (int mhz) u" "held_cycles (int mhz) u < 2 ^ 32"
      using held_cycles_mono [OF that, of mhz] assms by (simp_all add: held_cycles_def pos_imp_zdiv_nonneg_iff)
    then show "take_bit 32 (held_cycles (int mhz) u) = held_cycles (int mhz) u" "drop_bit 32 (held_cycles (int mhz) u) = 0"
      by (simp_all add: take_bit_int_eq_self drop_bit_eq_div)
  qed
  have cyc: "stable_u64 (held_board mhz x) R_DBG_CYC_LO R_DBG_CYC_HI (t + 5100) = Some (Inr (held_cycles (int mhz) (t + 6100)), t + 8100)"
    by (subst stable_u64.simps) (simp add: held_regs small add.commute)
  have ret: "stable_u64 (held_board mhz x) R_DBG_RET_LO R_DBG_RET_HI (t + 8200) = Some (Inr 0, t + 11200)"
    by (subst stable_u64.simps) (simp add: held_regs)
  have req: "require_exec_debug (held_board mhz x) t = Some (Inr (), t + 1000)" by (simp add: require_exec_debug_def held_regs)
  have reset: "held_reset (held_board mhz x) (t + 1000) = Some (Inr True, t + 5000)" by (simp add: held_reset_def held_regs)
  have t0: "now_ns (held_board mhz x) (t + 5000) = Some (Inr (int t + 5000), t + 5100)"
    and t1: "now_ns (held_board mhz x) (t + 8100) = Some (Inr (int t + 8100), t + 8200)" by simp_all
  show ?thesis unfolding end_point_def
    by (rule bindIO_eq, rule req, rule bindIO_eq, rule reset, subst if_not_P, simp, rule bindIO_eq, rule t0, rule bindIO_eq, rule cyc,
        rule bindIO_eq, rule t1, rule bindIO_eq, rule ret) simp
qed

text \<open>
  C27. A reported frequency is sandwiched. Whatever the board does, if the cycle counter and the host's
  clock never run backwards and the counter does not wrap, a successful measurement means that there are
  two instants during it between which the core's average frequency lies within the reported bounds, and
  so within 1.25 percent of the expected one.
\<close>
theorem measure_bounds:
  assumes "clocked B count time" "measure_clock B (Some mhz) allow h = Some (Inr r, h')" "count h' < 2 ^ 64"
  shows "\<exists>g0 g1 f. time h \<le> time g0 \<and> time g0 < time g1 \<and> time g1 \<le> time h' \<and>
    f = of_int ((count g1 - count g0) * 1000) / of_int (time g1 - time g0) \<and>
    cr_lower r \<le> f \<and> f \<le> cr_upper r \<and> mhz * (9875 / 10000) \<le> f \<and> f \<le> mhz * (10125 / 10000)"
  using clocked.measure_exact [OF assms] unfolding clocked.later_def [OF assms(1)] by blast

definition demo_loop_start :: sample_point where
  "demo_loop_start = \<lparr>ep_cycles = 244, ep_retired = 0, ep_t0 = 5000, ep_t1 = 8100\<rparr>"

lemma measure_bounds_witness:
  "\<exists>g0 g1 f :: rat. (0 :: int) \<le> int g0 \<and> int g0 < int g1 \<and> f = of_int ((held_cycles 40 g1 - held_cycles 40 g0) * 1000) / of_int (int g1 - int g0) \<and>
    39.5 \<le> f \<and> f \<le> 40.5"
proof -
  let ?B = "held_board 40 5000000000"
  have e: "end_point ?B False 0 = Some (Inr demo_loop_start, 11200)"
    "end_point ?B False 5050011300 = Some (Inr \<lparr>ep_cycles = 202000696, ep_retired = 0, ep_t0 = 5050016300, ep_t1 = 5050019400\<rparr>, 5050022500)"
    using held_end_point [of 40 0 5000000000 False] held_end_point [of 40 5050011300 5000000000 False]
    by (simp_all add: held_cycles_def demo_loop_start_def)
  have "measure_loop ?B False demo_loop_start 5000008100 demo_loop_start 1 11200 =
      Some (Inr (\<lparr>ep_cycles = 202000696, ep_retired = 0, ep_t0 = 5050016300, ep_t1 = 5050019400\<rparr>, 2), 5050022600)"
    by (subst measure_loop.simps, simp add: e(2), simp add: demo_loop_start_def, subst measure_loop.simps, simp)
  then have "\<exists>r. measure_clock ?B (Some 40) False 0 = Some (Inr r, 5050022600)"
    unfolding measure_clock_def by (simp add: e(1)) (simp add: demo_loop_start_def clock_report_def)
  then obtain r where r: "measure_clock ?B (Some 40) False 0 = Some (Inr r, 5050022600)" by blast
  have c: "clocked ?B (held_cycles (int 40)) int" by (rule held.clocked_axioms)
  have "held_cycles (int 40) 5050022600 < 2 ^ 64" by (simp add: held_cycles_def)
  from measure_bounds [OF c r this] show ?thesis by auto
qed

end
