(* ===== verification/Board_Keys.thy ===== *)
theory Board_Keys
  imports Board_Exec
begin

text \<open>
  Keyboard input of fpga/board-tools/ven_board_probe.py: keys put into the BIOS ring in low guest memory
  (one at a time, or a short command at once), and keys sent as Set-2 bytes to the hosted PS/2 device.
\<close>

subsection \<open>The BIOS ring\<close>

definition encode_ascii :: "string \<Rightarrow> board_error + int list" where
  "encode_ascii s = (if list_all (\<lambda>c. (of_char c :: int) < 128) s then Inr (map of_char s) else Inl BoardValue)"

definition typable :: "int \<Rightarrow> bool" where
  "typable b \<longleftrightarrow> b = 0x0D \<or> \<not> (b < 0x20 \<or> 0x7E < b)"

definition key_payload :: "nat \<Rightarrow> string \<Rightarrow> board_error + int list" where
  "key_payload limit s = (case encode_ascii s of Inl e \<Rightarrow> Inl e
     | Inr payload \<Rightarrow> if payload = [] \<or> limit < length payload \<or> \<not> list_all typable payload then Inl BadText else Inr payload)"

definition key_word :: "int \<Rightarrow> int" where
  "key_word b = (if b = 0x0D then 0x1C0D else b)"

definition ring_start :: "int \<Rightarrow> int" where
  "ring_start tail = (if tail < 0x1E \<or> 0x3C < tail then 0x1E else tail)"

definition ring_next :: "int \<Rightarrow> int" where
  "ring_next tail = (if 0x3E \<le> tail + 2 then 0x1E else tail + 2)"

definition flush :: "'h board \<Rightarrow> int \<Rightarrow> int \<Rightarrow> ('h, unit) bio" where
  "flush B base phase = poke B W_DBG_CMP_RANGE (base XOR phase)"

definition flush_base :: "'h board \<Rightarrow> ('h, int) bio" where
  "flush_base B = bindIO (rd32 B W_DBG_CMP_RANGE) (\<lambda>w. retIO (w AND 0x7FFFFFFF))"

partial_function (option) wait_drained :: "'h board \<Rightarrow> int \<Rightarrow> 'h \<Rightarrow> ((board_error + int) \<times> 'h) option" where
  "wait_drained B deadline h =
    bindIO (rd16 B 0x41A) (\<lambda>head. bindIO (rd16 B 0x41C) (\<lambda>tail h. if head = tail then Some (Inr tail, h)
      else bindIO (now B) (\<lambda>t h. if t \<ge> deadline then Some (Inl KeyNotConsumed, h)
        else bindIO (sleep B 10) (\<lambda>_. wait_drained B deadline) h) h)) h"

fun inject_loop :: "'h board \<Rightarrow> int \<Rightarrow> int \<Rightarrow> int \<Rightarrow> int \<Rightarrow> int list \<Rightarrow> ('h, unit) bio" where
  "inject_loop B timeout interval base phase [] = retIO ()"
| "inject_loop B timeout interval base phase (byte # bytes) =
    bindIO (now B) (\<lambda>t. bindIO (wait_drained B (t + timeout)) (\<lambda>tail.
      bindIO (poke16 B (0x400 + ring_start tail) (key_word byte)) (\<lambda>_.
      bindIO (poke16 B 0x41C (ring_next (ring_start tail))) (\<lambda>_.
      bindIO (flush B base (phase XOR 0x80000000)) (\<lambda>_. bindIO (sleep B interval) (\<lambda>_.
        inject_loop B timeout interval base (phase XOR 0x80000000) bytes))))))"

definition inject_keys_probe :: "'h board \<Rightarrow> string \<Rightarrow> int \<Rightarrow> int \<Rightarrow> ('h, nat) bio" where
  "inject_keys_probe B keys timeout interval = (case key_payload 160 keys of Inl e \<Rightarrow> failIO e
     | Inr payload \<Rightarrow> bindIO (open_mmio B) (\<lambda>_. bindIO (flush_base B) (\<lambda>base. bindIO (flush B base 0x80000000) (\<lambda>_.
         bindIO (inject_loop B timeout interval base 0x80000000 payload) (\<lambda>_. retIO (length payload))))))"

fun queue_loop :: "'h board \<Rightarrow> int \<Rightarrow> int list \<Rightarrow> ('h, int) bio" where
  "queue_loop B tail [] = retIO tail"
| "queue_loop B tail (byte # bytes) = bindIO (poke16 B (0x400 + tail) (key_word byte)) (\<lambda>_. queue_loop B (ring_next tail) bytes)"

definition queue_keys_probe :: "'h board \<Rightarrow> string \<Rightarrow> ('h, nat) bio" where
  "queue_keys_probe B keys = (case key_payload 15 keys of Inl e \<Rightarrow> failIO e
     | Inr payload \<Rightarrow> bindIO (open_mmio B) (\<lambda>_. bindIO (rd16 B 0x41A) (\<lambda>head. bindIO (rd16 B 0x41C) (\<lambda>tail.
         if head \<noteq> tail then failIO RingNotEmpty
         else bindIO (queue_loop B (ring_start tail) payload) (\<lambda>tail. bindIO (poke16 B 0x41C tail) (\<lambda>_.
           bindIO (flush_base B) (\<lambda>base. bindIO (flush B base 0x80000000) (\<lambda>_. retIO (length payload)))))))))"

subsection \<open>The PS/2 device\<close>

definition SET2_ASCII :: "(char \<times> int) list" where
  "SET2_ASCII = zip ''abcdefghijklmnopqrstuvwxyz'' [0x1C, 0x32, 0x21, 0x23, 0x24, 0x2B, 0x34, 0x33, 0x43, 0x3B,
       0x42, 0x4B, 0x3A, 0x31, 0x44, 0x4D, 0x15, 0x2D, 0x1B, 0x2C, 0x3C, 0x2A, 0x1D, 0x22, 0x35, 0x1A] @
     zip ''123456789'' [0x16, 0x1E, 0x26, 0x25, 0x2E, 0x36, 0x3D, 0x3E, 0x46] @
     [(CHR ''0'', 0x45), (CHR '' '', 0x29), (CHR ''.'', 0x49), (CHR '','', 0x41), (CHR ''/'', 0x4A),
      (CHR ''-'', 0x4E), (CHR ''='', 0x55), (CHR '';'', 0x4C), (CHR ''~'', 0x0E), (CHR 0x60, 0x0E),
      (CHR ''_'', 0x4E), (CHR 0x0D, 0x5A)]"

partial_function (option) ready_loop :: "'h board \<Rightarrow> int \<Rightarrow> 'h \<Rightarrow> ((board_error + unit) \<times> 'h) option" where
  "ready_loop B deadline h =
    bindIO (rd32 B R_KBD_STATUS) (\<lambda>status h. if status AND KBD_STATUS_READY \<noteq> 0 then Some (Inr (), h)
      else bindIO (now B) (\<lambda>t h. if t \<ge> deadline then Some (Inl KeyboardStuck, h)
        else bindIO (sleep B 1) (\<lambda>_. ready_loop B deadline) h) h) h"

definition kbd_wait_ready :: "'h board \<Rightarrow> int \<Rightarrow> ('h, unit) bio" where
  "kbd_wait_ready B timeout = bindIO (now B) (\<lambda>t. ready_loop B (t + timeout))"

fun send_loop :: "'h board \<Rightarrow> int \<Rightarrow> int list \<Rightarrow> ('h, unit) bio" where
  "send_loop B timeout [] = retIO ()"
| "send_loop B timeout (byte # bytes) = bindIO (kbd_wait_ready B timeout) (\<lambda>_.
     bindIO (poke B R_KBD_INJECT (0x100 OR byte)) (\<lambda>_. send_loop B timeout bytes))"

definition kbd_send_raw :: "'h board \<Rightarrow> int list \<Rightarrow> int \<Rightarrow> ('h, unit) bio" where
  "kbd_send_raw B payload timeout = bindIO (rd32 B R_KBD_CAP) (\<lambda>cap. if cap \<noteq> KBD_INJECT_CAP then failIO NoKeyboard
     else bindIO (send_loop B timeout payload) (\<lambda>_. kbd_wait_ready B timeout))"

fun set2_payload :: "string \<Rightarrow> board_error + int list" where
  "set2_payload [] = Inr []"
| "set2_payload (c # cs) = (case map_of SET2_ASCII c of None \<Rightarrow> Inl (BadKey c)
     | Some code \<Rightarrow> (case set2_payload cs of Inl e \<Rightarrow> Inl e | Inr bs \<Rightarrow> Inr ([code, 0xF0, code] @ bs)))"

definition ps2_keys_probe :: "'h board \<Rightarrow> string \<Rightarrow> bool \<Rightarrow> int \<Rightarrow> ('h, nat \<times> nat) bio" where
  "ps2_keys_probe B keys enter timeout =
    (let keys = keys @ (if enter then [CHR 0x0D] else [])
     in if keys = [] then failIO NoText
        else case set2_payload keys of Inl e \<Rightarrow> failIO e
          | Inr payload \<Rightarrow> bindIO (open_mmio B) (\<lambda>_. bindIO (kbd_send_raw B payload timeout) (\<lambda>_. retIO (length keys, length payload))))"

definition ps2_raw_probe :: "'h board \<Rightarrow> int list \<Rightarrow> int \<Rightarrow> ('h, nat) bio" where
  "ps2_raw_probe B payload timeout =
    (if payload = [] \<or> 256 < length payload then failIO BadRaw
     else if list_ex (\<lambda>b. b < 0 \<or> 0xFF < b) payload then failIO BadRaw
     else bindIO (open_mmio B) (\<lambda>_. bindIO (kbd_send_raw B payload timeout) (\<lambda>_. retIO (length payload))))"

subsection \<open>The guest's side of the ring\<close>

text \<open>
  Low guest memory in bytes, and the keyboard service of the BIOS: the next key is the word at the head,
  which then moves on by two and wraps at the end of the buffer.
\<close>

type_synonym lowmem = "int \<Rightarrow> int"

definition word_at :: "lowmem \<Rightarrow> int \<Rightarrow> int" where
  "word_at m a = m a + 256 * m (a + 1)"

definition put_word :: "int \<Rightarrow> int \<Rightarrow> lowmem \<Rightarrow> lowmem" where
  "put_word a v m = m(a := v mod 256, a + 1 := v div 256 mod 256)"

definition ram_board :: "lowmem board" where
  "ram_board = \<lparr>bd_state = (\<lambda>_. Some ''operating''), bd_read = (\<lambda>r m. (if r = R_IDENT then IDENT_MAGIC else 0, m)),
     bd_write = (\<lambda>_ _ m. m), bd_low16 = (\<lambda>a m. (word_at m a, m)), bd_set_low16 = put_word,
     bd_now = (\<lambda>m. (0, m)), bd_now_ns = (\<lambda>m. (0, m)), bd_sleep = (\<lambda>_ m. m)\<rparr>"

definition bios_key :: "lowmem \<Rightarrow> (int \<times> lowmem) option" where
  "bios_key m = (let head = word_at m 0x41A
     in if head = word_at m 0x41C then None
        else Some (word_at m (0x400 + head), put_word 0x41A (if head + 2 = 0x3E then 0x1E else head + 2) m))"

fun bios_keys :: "nat \<Rightarrow> lowmem \<Rightarrow> int list \<times> lowmem" where
  "bios_keys 0 m = ([], m)"
| "bios_keys (Suc n) m = (case bios_key m of None \<Rightarrow> ([], m)
     | Some (k, m) \<Rightarrow> (case bios_keys n m of (ks, m) \<Rightarrow> (k # ks, m)))"

definition slot :: "nat \<Rightarrow> int" where
  "slot s = 0x1E + 2 * int s"

lemma word_at_put: "0 \<le> v \<Longrightarrow> v < 65536 \<Longrightarrow> word_at (put_word a v m) a = v"
  by (simp add: word_at_def put_word_def)

lemma word_at_other: "b + 1 < a \<or> a + 1 < b \<Longrightarrow> word_at (put_word a v m) b = word_at m b"
  by (auto simp: word_at_def put_word_def)

lemma key_word_range: "typable b \<Longrightarrow> 0 \<le> key_word b \<and> key_word b < 65536"
  by (auto simp: typable_def key_word_def)

lemma slot_range: "s < 16 \<Longrightarrow> 0x1E \<le> slot s \<and> slot s \<le> 0x3C"
  by (simp add: slot_def)

lemma slot_eq [simp]: "slot s = slot t \<longleftrightarrow> s = t"
  by (simp add: slot_def)

lemma ring_slot:
  assumes "s < 16"
  shows "ring_start (slot s) = slot s" "ring_next (slot s) = slot ((s + 1) mod 16)"
    "(if slot s + 2 = 0x3E then 0x1E else slot s + 2) = slot ((s + 1) mod 16)"
  using assms by (cases "s = 15"; simp add: ring_start_def ring_next_def slot_def)+

lemma around: "s < 16 \<Longrightarrow> 0 < k \<Longrightarrow> k < 16 \<Longrightarrow> (s + k) mod 16 \<noteq> (s :: nat)"
proof -
  assume a: "s < 16" "0 < k" "k < 16"
  have "(s + k) mod 16 = (if s + k < 16 then s + k else s + k - 16)" using a by (simp add: mod_if)
  then show "(s + k) mod 16 \<noteq> s" using a by (simp only: split: if_split) linarith
qed

text \<open>The memory after the words of some keys were put into consecutive slots.\<close>

fun fill :: "nat \<Rightarrow> int list \<Rightarrow> lowmem \<Rightarrow> lowmem" where
  "fill s [] m = m"
| "fill s (b # bs) m = fill ((s + 1) mod 16) bs (put_word (0x400 + slot s) (key_word b) m)"

lemma poke16_ram [simp]: "poke16 ram_board a v m = Some (Inr (), put_word a v m)"
  by (simp add: poke16_def ram_board_def)

lemma rd16_ram [simp]: "rd16 ram_board a m = Some (Inr (word_at m a), m)"
  by (simp add: rd16_def ram_board_def)

lemma rd32_ram [simp]: "rd32 ram_board a m = Some (Inr (if a = R_IDENT then IDENT_MAGIC else 0), m)"
  by (simp add: rd32_def ram_board_def)

lemma flush_ram [simp]: "flush ram_board base phase m = Some (Inr (), m)"
  by (simp add: flush_def poke_def ram_board_def)

lemma open_mmio_ram [simp]: "open_mmio ram_board m = Some (Inr (), m)"
proof -
  have "require_fpga_operating ram_board m = Some (Inr (), m)"
    by (simp add: require_fpga_operating_def ram_board_def strip_def lstrip_def is_ws_def)
  then show ?thesis unfolding open_mmio_def by (rule bindIO_eq) (rule bindIO_eq, rule rd32_ram, simp)
qed

lemma queue_loop_ram:
  "s < 16 \<Longrightarrow> queue_loop ram_board (slot s) bs m = Some (Inr (slot ((s + length bs) mod 16)), fill s bs m)"
proof (induction bs arbitrary: s m)
  case (Cons b bs)
  have "((s + 1) mod 16 + length bs) mod 16 = (s + length (b # bs)) mod 16" by (simp add: mod_simps)
  then show ?case using Cons.IH [of "(s + 1) mod 16"] Cons.prems by (simp add: ring_slot)
qed simp

lemma fill_below: "s < 16 \<Longrightarrow> a \<le> 0x41C \<Longrightarrow> word_at (fill s bs m) a = word_at m a"
proof (induction bs arbitrary: s m)
  case (Cons b bs)
  then show ?case using slot_range [of s] by (simp add: word_at_other)
qed simp

lemma fill_outside:
  assumes "s < 16" "\<And>i. i < length bs \<Longrightarrow> (s + i) mod 16 \<noteq> t" "t < 16"
  shows "word_at (fill s bs m) (0x400 + slot t) = word_at m (0x400 + slot t)"
  using assms(1,2)
proof (induction bs arbitrary: s m)
  case (Cons b bs)
  have "((s + 1) mod 16 + i) mod 16 \<noteq> t" if "i < length bs" for i
    using Cons.prems(2) [of "Suc i"] that by (simp add: mod_simps)
  then have "word_at (fill ((s + 1) mod 16) bs (put_word (0x400 + slot s) (key_word b) m)) (0x400 + slot t) =
      word_at (put_word (0x400 + slot s) (key_word b) m) (0x400 + slot t)" using Cons.IH [of "(s + 1) mod 16"] by simp
  moreover have "s \<noteq> t" using Cons.prems(2) [of 0] Cons.prems(1) by simp
  then have "0x400 + slot t + 1 < 0x400 + slot s \<or> 0x400 + slot s + 1 < 0x400 + slot t" unfolding slot_def by linarith
  ultimately show ?case by (simp add: word_at_other)
qed simp

lemma fill_inside:
  assumes "s < 16" "length bs < 16" "list_all typable bs" "i < length bs"
  shows "word_at (fill s bs m) (0x400 + slot ((s + i) mod 16)) = key_word (bs ! i)"
  using assms
proof (induction bs arbitrary: s m i)
  case (Cons b bs)
  let ?m = "put_word (0x400 + slot s) (key_word b) m"
  show ?case
  proof (cases i)
    case 0
    have "((s + 1) mod 16 + j) mod 16 \<noteq> s" if "j < length bs" for j
    proof -
      have "(s + (1 + j)) mod 16 \<noteq> s" using that Cons.prems(1,2) by (intro around) auto
      then show ?thesis by (simp add: mod_simps add.assoc)
    qed
    then have "word_at (fill ((s + 1) mod 16) bs ?m) (0x400 + slot s) = word_at ?m (0x400 + slot s)"
      by (intro fill_outside) (use Cons.prems in auto)
    moreover have "word_at ?m (0x400 + slot s) = key_word b" using key_word_range Cons.prems(3) by (intro word_at_put) auto
    ultimately show ?thesis using 0 Cons.prems(1) by simp
  next
    case (Suc j)
    have "((s + 1) mod 16 + j) mod 16 = (s + i) mod 16" using Suc by (simp add: mod_simps)
    then show ?thesis using Cons.IH [of "(s + 1) mod 16" j ?m] Cons.prems Suc by simp
  qed
qed simp

lemma bios_drains:
  assumes "word_at m 0x41A = slot s" "word_at m 0x41C = slot ((s + length ks) mod 16)" "s < 16" "length ks < 16" "length ks \<le> n"
    and "\<And>i. i < length ks \<Longrightarrow> word_at m (0x400 + slot ((s + i) mod 16)) = ks ! i"
  shows "fst (bios_keys n m) = ks \<and> word_at (snd (bios_keys n m)) 0x41A = word_at m 0x41C \<and> word_at (snd (bios_keys n m)) 0x41C = word_at m 0x41C"
  using assms
proof (induction ks arbitrary: s m n)
  case Nil
  then show ?case by (cases n) (simp_all add: bios_key_def)
next
  case (Cons k ks)
  obtain n' where n: "n = Suc n'" using Cons.prems(5) by (cases n) auto
  have "(s + length (k # ks)) mod 16 \<noteq> s"
    using Cons.prems(3,4) by (intro around) auto
  then have ne: "word_at m 0x41A \<noteq> word_at m 0x41C" using Cons.prems(1,2) by simp
  let ?m = "put_word 0x41A (slot ((s + 1) mod 16)) m"
  have k: "word_at m (0x400 + slot s) = k" using Cons.prems(3) Cons.prems(6) [of 0] by simp
  have key: "bios_key m = Some (k, ?m)"
    unfolding bios_key_def Let_def Cons.prems(1) using ne Cons.prems(1) k ring_slot(3) [OF Cons.prems(3)] by simp
  have h: "word_at ?m 0x41A = slot ((s + 1) mod 16)"
    using slot_range [of "(s + 1) mod 16"] by (intro word_at_put) auto
  have t: "word_at ?m 0x41C = word_at m 0x41C" by (simp add: word_at_other)
  have t': "word_at ?m 0x41C = slot (((s + 1) mod 16 + length ks) mod 16)" using t Cons.prems(2) by (simp add: mod_simps)
  have w: "word_at ?m (0x400 + slot (((s + 1) mod 16 + i) mod 16)) = ks ! i" if "i < length ks" for i
  proof -
    have e: "((s + 1) mod 16 + i) mod 16 = (s + Suc i) mod 16" by (simp add: mod_simps)
    have "word_at ?m (0x400 + slot ((s + Suc i) mod 16)) = word_at m (0x400 + slot ((s + Suc i) mod 16))"
      using slot_range [of "(s + Suc i) mod 16"] by (intro word_at_other) auto
    then show ?thesis unfolding e using Cons.prems(6) [of "Suc i"] that by simp
  qed
  have "fst (bios_keys n' ?m) = ks \<and> word_at (snd (bios_keys n' ?m)) 0x41A = word_at ?m 0x41C \<and>
      word_at (snd (bios_keys n' ?m)) 0x41C = word_at ?m 0x41C"
    by (rule Cons.IH [OF h t' _ _ _ w]) (use Cons.prems(4,5) n in auto)
  then show ?case unfolding n t by (simp add: key split_beta)
qed

text \<open>
  C26. A queued command is typed. For a text of 1 to 15 printable characters and an empty ring whose head
  and tail are at any of its sixteen slots, the command succeeds, and the guest's keyboard service then
  reads exactly these keys in order, after which the ring is empty again, wherever the ring wraps.
\<close>
theorem queue_keys_typed:
  assumes "word_at m 0x41A = slot s" "word_at m 0x41C = slot s" "s < 16"
    and "keys \<noteq> []" "length keys \<le> 15" "list_all (\<lambda>c. typable (of_char c)) keys"
  shows "\<exists>m'. queue_keys_probe ram_board keys m = Some (Inr (length keys), m') \<and>
    fst (bios_keys 16 m') = map (\<lambda>c. key_word (of_char c)) keys \<and>
    word_at (snd (bios_keys 16 m')) 0x41A = word_at (snd (bios_keys 16 m')) 0x41C"
proof -
  let ?p = "map of_char keys :: int list"
  have "(of_char c :: int) < 128" if "c \<in> set keys" for c
    using assms(6) that by (auto simp: list_all_iff typable_def)
  then have p: "key_payload 15 keys = Inr ?p"
    using assms(4,5,6) by (auto simp: key_payload_def encode_ascii_def list_all_iff)
  have ty: "list_all typable ?p" using assms(6) by (simp add: list_all_iff)
  define e where "e = slot ((s + length keys) mod 16)"
  define m' where "m' = put_word 0x41C e (fill s ?p m)"
  have loop: "queue_loop ram_board (ring_start (word_at m 0x41C)) ?p m = Some (Inr e, fill s ?p m)"
    using queue_loop_ram [OF assms(3)] ring_slot(1) [OF assms(3)] assms(2) by (simp add: e_def)
  have run: "queue_keys_probe ram_board keys m = Some (Inr (length keys), m')"
    unfolding queue_keys_probe_def p sum.case
    by (rule bindIO_eq, rule open_mmio_ram, rule bindIO_eq, rule rd16_ram, rule bindIO_eq, rule rd16_ram, subst if_not_P,
        use assms(1,2) in simp, rule bindIO_eq, rule loop) (simp add: flush_base_def m'_def)
  have tail: "word_at m' 0x41C = e"
    unfolding m'_def e_def using slot_range [of "(s + length keys) mod 16"] by (intro word_at_put) auto
  have head: "word_at m' 0x41A = slot s"
    unfolding m'_def using fill_below [OF assms(3), where a = "0x41A"] assms(1) by (simp add: word_at_other)
  have words: "word_at m' (0x400 + slot ((s + i) mod 16)) = map key_word ?p ! i" if "i < length (map key_word ?p)" for i
  proof -
    have "word_at m' (0x400 + slot ((s + i) mod 16)) = word_at (fill s ?p m) (0x400 + slot ((s + i) mod 16))"
      unfolding m'_def using slot_range [of "(s + i) mod 16"] by (intro word_at_other) auto
    then show ?thesis using fill_inside [OF assms(3) _ ty, of i m] that assms(5) by simp
  qed
  have "fst (bios_keys 16 m') = map key_word ?p \<and> word_at (snd (bios_keys 16 m')) 0x41A = word_at m' 0x41C \<and>
      word_at (snd (bios_keys 16 m')) 0x41C = word_at m' 0x41C"
    by (rule bios_drains [OF head _ assms(3)]) (use tail assms(5) words in \<open>auto simp: e_def\<close>)
  then show ?thesis using run by (auto simp: comp_def)
qed

definition demo_low :: lowmem where
  "demo_low = put_word 0x41A (slot 14) (put_word 0x41C (slot 14) (\<lambda>_. 0))"

lemma queue_keys_typed_witness:
  "\<exists>m'. queue_keys_probe ram_board (''DIR'' @ [CHR 0x0D]) demo_low = Some (Inr 4, m') \<and> fst (bios_keys 16 m') = [0x44, 0x49, 0x52, 0x1C0D]"
proof -
  have h: "word_at demo_low 0x41A = slot 14" "word_at demo_low 0x41C = slot 14"
    by (simp_all add: demo_low_def word_at_def put_word_def slot_def)
  have "list_all (\<lambda>c. typable (of_char c)) (''DIR'' @ [CHR 0x0D])" by (simp add: typable_def)
  from queue_keys_typed [OF h _ _ _ this] show ?thesis by (auto simp: key_word_def)
qed

end
