(* ===== verification/Vga_Stream.thy ===== *)
theory Vga_Stream
  imports Py_Base
begin

text \<open>
  The VENVCAP1 stream that fpga/board-tools/ven_board_probe.py writes and ven_vga_stream_to_video.py
  reads: its two headers, the checksum of a frame, and the expansion of RGB332 samples. Streams and
  payloads are lists of byte values.
\<close>

subsection \<open>Checksum\<close>

text \<open>The reflected CRC-32 of zlib, one bit at a time.\<close>

definition crc_bit :: "int \<Rightarrow> int" where
  "crc_bit c = (if odd c then (c div 2) XOR 0xEDB88320 else c div 2)"

definition crc_byte :: "int \<Rightarrow> int \<Rightarrow> int" where
  "crc_byte c b = (crc_bit ^^ 8) (c XOR b)"

definition crc32 :: "int list \<Rightarrow> int" where
  "crc32 bs = foldl crc_byte 0xFFFFFFFF bs XOR 0xFFFFFFFF"

lemma crc32_check: "crc32 (map of_char ''123456789'') = 0xCBF43926"
  by code_simp

subsection \<open>Headers\<close>

definition STREAM_MAGIC :: "int list" where "STREAM_MAGIC = map of_char ''VENVCAP1''"
definition STREAM_VERSION :: int where "STREAM_VERSION = 1"
definition FRAME_MARKER :: "int list" where "FRAME_MARKER = map of_char ''VFRM''"

definition pack_stream_header :: "int \<Rightarrow> int list result" where
  "pack_stream_header frames = bindE (pack_le 4 STREAM_VERSION) (\<lambda>v. bindE (pack_le 4 frames) (\<lambda>n. Inr (STREAM_MAGIC @ v @ n)))"

text \<open>The fields of a frame header in order: sequence, host time, cycle, width, height, pixels, checksum.\<close>

definition FRAME_FIELDS :: "nat list" where "FRAME_FIELDS = [4, 8, 8, 2, 2, 4, 4]"

fun pack_fields :: "nat list \<Rightarrow> int list \<Rightarrow> int list result" where
  "pack_fields (n # ns) (v # vs) = bindE (pack_le n v) (\<lambda>b. bindE (pack_fields ns vs) (\<lambda>bs. Inr (b @ bs)))"
| "pack_fields _ _ = Inr []"

fun unpack_fields :: "nat list \<Rightarrow> int list \<Rightarrow> int list" where
  "unpack_fields [] bs = []"
| "unpack_fields (n # ns) bs = from_le (take n bs) # unpack_fields ns (drop n bs)"

definition pack_frame_header :: "int list \<Rightarrow> int list result" where
  "pack_frame_header vs = bindE (pack_fields FRAME_FIELDS vs) (\<lambda>bs. Inr (FRAME_MARKER @ bs))"

lemma pack_fields_length: "pack_fields ns vs = Inr bs \<Longrightarrow> length vs = length ns \<Longrightarrow> length bs = sum_list ns"
  by (induction ns vs arbitrary: bs rule: pack_fields.induct) (auto simp: bindE_def pack_le_ok split: sum.splits)

lemma unpack_packed: "pack_fields ns vs = Inr bs \<Longrightarrow> length vs = length ns \<Longrightarrow> unpack_fields ns bs = vs"
  by (induction ns vs arbitrary: bs rule: pack_fields.induct) (auto simp: bindE_def pack_le_ok from_packed split: sum.splits)

lemma frame_header_length:
  assumes "pack_frame_header vs = Inr bs" "length vs = 7"
  shows "length bs = 36" "take 4 bs = FRAME_MARKER" "unpack_fields FRAME_FIELDS (drop 4 bs) = vs"
proof -
  obtain cs where cs: "pack_fields FRAME_FIELDS vs = Inr cs" "bs = FRAME_MARKER @ cs"
    using assms(1) by (auto simp: pack_frame_header_def bindE_def split: sum.splits)
  have l: "length vs = length FRAME_FIELDS" "length FRAME_MARKER = 4" using assms(2) by (simp_all add: FRAME_FIELDS_def FRAME_MARKER_def)
  show "length bs = 36" using pack_fields_length [OF cs(1) l(1)] l(2) cs(2) by (simp add: FRAME_FIELDS_def)
  show "take 4 bs = FRAME_MARKER" using cs(2) l(2) by simp
  show "unpack_fields FRAME_FIELDS (drop 4 bs) = vs" using unpack_packed [OF cs(1) l(1)] cs(2) l(2) by simp
qed

lemma stream_header_fields:
  assumes "pack_stream_header n = Inr bs"
  shows "length bs = 16" "take 8 bs = STREAM_MAGIC" "from_le (take 4 (drop 8 bs)) = STREAM_VERSION" "from_le (drop 12 bs) = n" "0 \<le> n"
proof -
  have m: "length STREAM_MAGIC = 8" by (simp add: STREAM_MAGIC_def)
  have bs: "bs = STREAM_MAGIC @ to_le 4 STREAM_VERSION @ to_le 4 n" "0 \<le> n" "n < 256 ^ 4"
    using assms by (auto simp: pack_stream_header_def bindE_def pack_le_ok split: sum.splits)
  show "length bs = 16" "take 8 bs = STREAM_MAGIC" using m by (simp_all add: bs(1))
  have "drop 8 bs = to_le 4 STREAM_VERSION @ to_le 4 n" using m by (simp add: bs(1))
  moreover have "drop 12 bs = drop 4 (drop 8 bs)" by simp
  then have "drop 12 bs = to_le 4 n" unfolding \<open>drop 8 bs = _\<close> by simp
  ultimately show "from_le (take 4 (drop 8 bs)) = STREAM_VERSION" "from_le (drop 12 bs) = n"
    using bs by (simp_all add: STREAM_VERSION_def from_packed)
  show "0 \<le> n" by (rule bs)
qed

subsection \<open>Colours\<close>

definition rgb_of :: "int \<Rightarrow> int list" where
  "rgb_of v = (let r = drop_bit 5 v AND 7; g = drop_bit 2 v AND 7; b = v AND 3
     in [push_bit 5 r OR push_bit 2 r OR drop_bit 1 r, push_bit 5 g OR push_bit 2 g OR drop_bit 1 g,
         push_bit 6 b OR push_bit 4 b OR push_bit 2 b OR b])"

definition rgb332_to_rgb24 :: "int list \<Rightarrow> int list" where
  "rgb332_to_rgb24 pixels = concat (map rgb_of pixels)"

lemma rgb_length [simp]: "length (rgb332_to_rgb24 ps) = 3 * length ps"
  by (induction ps) (simp_all add: rgb332_to_rgb24_def rgb_of_def Let_def)

subsection \<open>Rounding up to words\<close>

lemma drop_low_bits: "x AND NOT 3 = 4 * (x div 4)" for x :: int
proof -
  have "x AND NOT 3 = x AND NOT (mask 2)" by (simp add: mask_eq_exp_minus_1)
  also have "\<dots> = push_bit 2 (drop_bit 2 x)" by (rule bit_eqI) (auto simp: bit_and_iff bit_not_iff bit_mask_iff bit_push_bit_iff bit_drop_bit_eq,
      (metis add_2_eq_Suc le_add_diff_inverse leI)+)
  also have "\<dots> = 4 * (x div 4)" by (simp add: push_bit_eq_mult drop_bit_eq_div)
  finally show ?thesis .
qed

end
