(* ===== verification/Board_Capture.thy ===== *)
theory Board_Capture
  imports Board_Mmio Vga_Stream
begin

text \<open>
  The passive recorder of rendered frames in fpga/board-tools/ven_board_probe.py: arming it and draining
  one frozen frame, and the loop of vga-capture with its filters. What the command sends to its output is
  kept beside the state of the board; progress messages are left out. A stop request (SIGUSR1) is a
  predicate of the state, looked at where the code looks at its flag.
\<close>

subsection \<open>One frame\<close>

record frame =
  fr_sequence :: int
  fr_cycle :: int
  fr_width :: int
  fr_height :: int
  fr_pixels :: int
  fr_payload :: "int list"

partial_function (option) poll_frame :: "'h board \<Rightarrow> int \<Rightarrow> int \<Rightarrow> int \<Rightarrow> 'h \<Rightarrow> ((board_error + int) \<times> 'h) option" where
  "poll_frame B previous deadline interval h =
    bindIO (rd32 B R_CAP_STATUS) (\<lambda>status h.
      if status AND CAP_STATUS_READY \<noteq> 0 \<and> status AND CAP_STATUS_SEQUENCE_MASK \<noteq> previous then Some (Inr status, h)
      else bindIO (now B) (\<lambda>t h. if t \<ge> deadline then Some (Inl (RecorderTimeout status), h)
        else bindIO (sleep B interval) (\<lambda>_. poll_frame B previous deadline interval) h) h) h"

fun drain_words :: "'h board \<Rightarrow> int list \<Rightarrow> ('h, int list) bio" where
  "drain_words B [] = retIO []"
| "drain_words B (a # as) = bindIO (poke B R_CAP_ADDR a) (\<lambda>_. bindIO (rd32 B R_CAP_DATA) (\<lambda>w.
     bindIO (drain_words B as) (\<lambda>bs. retIO (to_le 4 w @ bs))))"

definition drain_frame :: "'h board \<Rightarrow> int \<Rightarrow> ('h, int list) bio" where
  "drain_frame B pixels = (let rounded = (pixels + 3) AND NOT 3
     in bindIO (drain_words B [0 .. rounded div 4 - 1]) (\<lambda>payload. retIO (take (nat pixels) payload)))"

definition read_frame :: "'h board \<Rightarrow> int \<Rightarrow> ('h, frame) bio" where
  "read_frame B sequence = bindIO (stable_u64 B R_CAP_CYCLE_LO R_CAP_CYCLE_HI) (\<lambda>cycle. bindIO (rd32 B R_CAP_DIMS) (\<lambda>dims.
     let width = dims AND 0xFFF; height = drop_bit 12 dims AND 0xFFF in bindIO (rd32 B R_CAP_PIXELS) (\<lambda>w.
     let pixels = w AND 0xFFFFF
     in if width = 0 \<or> height = 0 \<or> pixels \<noteq> width * height \<or> CAPTURE_MAX_BYTES < pixels
        then failIO (BadMetadata sequence width height pixels)
        else bindIO (drain_frame B pixels) (\<lambda>payload. retIO \<lparr>fr_sequence = sequence, fr_cycle = cycle, fr_width = width,
          fr_height = height, fr_pixels = pixels, fr_payload = payload\<rparr>))))"

definition capture_scanout_frame :: "'h board \<Rightarrow> int \<Rightarrow> int \<Rightarrow> ('h, frame) bio" where
  "capture_scanout_frame B timeout interval = bindIO (rd32 B R_CAP_STATUS) (\<lambda>before.
     if before AND CAP_STATUS_ACTIVE \<noteq> 0 then failIO RecorderActive
     else bindIO (poke B R_CAP_CTL 1) (\<lambda>_. bindIO (now B) (\<lambda>t.
       bindIO (poll_frame B (before AND CAP_STATUS_SEQUENCE_MASK) (t + timeout) interval) (\<lambda>status.
         if status AND CAP_STATUS_OVERRUN \<noteq> 0 then failIO RecorderOverrun
         else read_frame B (status AND CAP_STATUS_SEQUENCE_MASK)))))"

subsection \<open>The capture command\<close>

record capture_args =
  ca_frames :: int
  ca_output :: "string option"
  ca_stream :: bool
  ca_width :: int
  ca_height :: int
  ca_timeout :: int
  ca_interval :: int
  ca_skip :: bool

datatype out_item = Sent "int list" | Picture string "int list" int frame

record capture_state =
  cs_completed :: int
  cs_oversized :: int
  cs_startup :: int
  cs_startup_deadline :: "int option"
  cs_empty :: int
  cs_empty_deadline :: "int option"

type_synonym ('h, 'a) cio = "(board_error, 'h \<times> out_item list, 'a) eio"

definition onboard :: "('h, 'a) bio \<Rightarrow> ('h, 'a) cio" where
  "onboard m s = map_option (\<lambda>(r, h). (r, (h, snd s))) (m (fst s))"

definition emit :: "out_item \<Rightarrow> ('h, unit) cio" where
  "emit x s = Some (Inr (), (fst s, snd s @ [x]))"

text \<open>An attempt whose exception is caught: the result says which.\<close>

definition attempt :: "('e, 's, 'a) eio \<Rightarrow> ('e, 's, 'e + 'a) eio" where
  "attempt m s = map_option (\<lambda>(r, s). (Inr r, s)) (m s)"

definition ofStruct :: "'a result \<Rightarrow> ('h, 'a) cio" where
  "ofStruct r s = (case r of Inl _ \<Rightarrow> Some (Inl HeaderOverflow, s) | Inr x \<Rightarrow> Some (Inr x, s))"

definition usage_ok :: "capture_args \<Rightarrow> bool" where
  "usage_ok a \<longleftrightarrow> \<not> ca_frames a < 1 \<and> \<not> (ca_output a \<noteq> None \<and> ca_output a \<noteq> Some [] \<and> ca_stream a) \<and>
     \<not> (ca_output a \<noteq> None \<and> ca_output a \<noteq> Some [] \<and> ca_frames a \<noteq> 1) \<and>
     \<not> (ca_width a < 0 \<or> ca_height a < 0 \<or> (ca_width a \<noteq> 0) \<noteq> (ca_height a \<noteq> 0))"

definition is_empty_scanout :: "capture_args \<Rightarrow> board_error \<Rightarrow> bool" where
  "is_empty_scanout a e \<longleftrightarrow> (case e of BadMetadata _ w h p \<Rightarrow> ca_skip a \<and> ca_width a \<noteq> 0 \<and> w = 0 \<and> h = 0 \<and> p = 0 | _ \<Rightarrow> False)"

definition is_startup_raster :: "capture_args \<Rightarrow> int \<Rightarrow> board_error \<Rightarrow> bool" where
  "is_startup_raster a completed e \<longleftrightarrow> (case e of BadMetadata _ w h p \<Rightarrow> ca_skip a \<and> ca_width a \<noteq> 0 \<and> completed = 0 \<and>
     0 < w \<and> w \<le> 0xFFF \<and> 0 < h \<and> h \<le> 0xFFF \<and> 0 < p \<and> p \<le> CAPTURE_MAX_BYTES \<and> (w \<noteq> ca_width a \<or> h \<noteq> ca_height a) | _ \<Rightarrow> False)"

text \<open>What an exception of one attempt leads to: another attempt with these counters, or an exception.\<close>

definition handle_failure :: "'h board \<Rightarrow> capture_args \<Rightarrow> capture_state \<Rightarrow> board_error \<Rightarrow> ('h, capture_state) bio" where
  "handle_failure B a c e =
    (if is_empty_scanout a e then bindIO (now B) (\<lambda>t.
       let d = (case cs_empty_deadline c of None \<Rightarrow> t + ca_timeout a | Some d \<Rightarrow> d)
       in if t \<ge> d then failIO EmptyScanout
          else bindIO (sleep B 250) (\<lambda>_. retIO (c\<lparr>cs_empty_deadline := Some d, cs_empty := cs_empty c + 1\<rparr>)))
     else if is_startup_raster a (cs_completed c) e then bindIO (now B) (\<lambda>t.
       let d = (case cs_startup_deadline c of None \<Rightarrow> t + ca_timeout a | Some d \<Rightarrow> d)
       in if t \<ge> d then failIO UnsettledStartup
          else bindIO (sleep B 250) (\<lambda>_. retIO (c\<lparr>cs_startup_deadline := Some d, cs_startup := cs_startup c + 1\<rparr>)))
     else if ca_skip a \<and> e = RecorderOverrun then bindIO (sleep B 250) (\<lambda>_. retIO (c\<lparr>cs_oversized := cs_oversized c + 1\<rparr>))
     else failIO e)"

definition frame_fields :: "int \<Rightarrow> frame \<Rightarrow> int list" where
  "frame_fields host_ns f = [fr_sequence f, host_ns, fr_cycle f, fr_width f, fr_height f, fr_pixels f, crc32 (fr_payload f)]"

definition ppm :: "frame \<Rightarrow> int list" where
  "ppm f = map of_char (''P6'' @ [CHR 0x0A] @ dec (fr_width f) @ '' '' @ dec (fr_height f) @ [CHR 0x0A] @ ''255'' @ [CHR 0x0A]) @
     rgb332_to_rgb24 (fr_payload f)"

definition publish :: "capture_args \<Rightarrow> int \<Rightarrow> frame \<Rightarrow> ('h, unit) cio" where
  "publish a host_ns f =
    (if ca_stream a then bindIO (ofStruct (pack_frame_header (frame_fields host_ns f))) (\<lambda>hdr.
       bindIO (emit (Sent hdr)) (\<lambda>_. emit (Sent (fr_payload f))))
     else case ca_output a of None \<Rightarrow> retIO () | Some path \<Rightarrow> if path = [] then retIO () else emit (Picture path (ppm f) host_ns f))"

definition accept_frame :: "'h board \<Rightarrow> capture_args \<Rightarrow> capture_state \<Rightarrow> frame \<Rightarrow> ('h, capture_state) cio" where
  "accept_frame B a c f =
    (if ca_width a \<noteq> 0 \<and> (fr_width f \<noteq> ca_width a \<or> fr_height f \<noteq> ca_height a)
     then (if ca_skip a then retIO c else failIO WrongMode)
     else bindIO (onboard (now_ns B)) (\<lambda>host_ns. bindIO (publish a host_ns f) (\<lambda>_.
       retIO (c\<lparr>cs_empty_deadline := None, cs_completed := cs_completed c + 1\<rparr>))))"

definition attempt_timeout :: "'h board \<Rightarrow> capture_args \<Rightarrow> capture_state \<Rightarrow> ('h, int) bio" where
  "attempt_timeout B a c = (case cs_empty_deadline c of None \<Rightarrow> retIO (ca_timeout a)
     | Some d \<Rightarrow> bindIO (now B) (\<lambda>t. if d - t \<le> 0 then failIO EmptyScanout else retIO (min (ca_timeout a) (d - t))))"

definition capture_round :: "'h board \<Rightarrow> capture_args \<Rightarrow> capture_state \<Rightarrow> ('h, capture_state) cio" where
  "capture_round B a c = bindIO (onboard (attempt_timeout B a c)) (\<lambda>timeout.
     bindIO (attempt (onboard (capture_scanout_frame B timeout (ca_interval a)))) (\<lambda>r.
       case r of Inl e \<Rightarrow> onboard (handle_failure B a c e) | Inr f \<Rightarrow> accept_frame B a c f))"

partial_function (option) capture_loop ::
  "'h board \<Rightarrow> ('h \<Rightarrow> bool) \<Rightarrow> capture_args \<Rightarrow> capture_state \<Rightarrow> 'h \<times> out_item list \<Rightarrow> ((board_error + capture_state) \<times> ('h \<times> out_item list)) option" where
  "capture_loop B stop a c s =
    (if \<not> cs_completed c < ca_frames a then Some (Inr c, s)
     else if stop (fst s) then Some (Inr c, s)
     else bindIO (capture_round B a c) (capture_loop B stop a) s)"

definition START :: capture_state where
  "START = \<lparr>cs_completed = 0, cs_oversized = 0, cs_startup = 0, cs_startup_deadline = None, cs_empty = 0, cs_empty_deadline = None\<rparr>"

definition vga_capture_probe :: "'h board \<Rightarrow> ('h \<Rightarrow> bool) \<Rightarrow> capture_args \<Rightarrow> ('h, capture_state) cio" where
  "vga_capture_probe B stop a =
    (if \<not> usage_ok a then failIO CaptureUsage
     else bindIO (onboard (open_mmio B)) (\<lambda>_.
       bindIO (if ca_stream a then bindIO (ofStruct (pack_stream_header (ca_frames a))) (\<lambda>hdr. emit (Sent hdr)) else retIO ()) (\<lambda>_.
         capture_loop B stop a START)))"

end
