(* ===== verification/Board_Recorder.thy ===== *)
theory Board_Recorder
  imports Board_Capture
begin

text \<open>
  The recorder behind the capture command: fpga/ven_video_capture.sv between vertical syncs. What the
  guest shows is a parameter, one picture for each interval between two syncs; syncs come every
  \<open>period\<close> milliseconds, and accesses take no time.
\<close>

record picture =
  pi_width :: int
  pi_height :: int
  pi_samples :: "int list"

record recorder =
  rc_pending :: bool
  rc_active :: bool
  rc_ready :: bool
  rc_overrun :: bool
  rc_sequence :: nat
  rc_image :: nat
  rc_frame :: nat
  rc_addr :: int
  rc_time :: int

definition vsync :: "(nat \<Rightarrow> picture) \<Rightarrow> recorder \<Rightarrow> recorder" where
  "vsync scr r =
    (let d = (if rc_active r then r\<lparr>rc_active := False, rc_ready := True, rc_sequence := rc_sequence r + 1, rc_image := rc_frame r,
                rc_overrun := CAPTURE_MAX_BYTES < int (length (pi_samples (scr (rc_frame r))))\<rparr> else r);
         e = (if rc_pending r then d\<lparr>rc_active := True, rc_pending := False\<rparr> else d)
     in e\<lparr>rc_frame := rc_frame r + 1\<rparr>)"

definition arm :: "recorder \<Rightarrow> recorder" where
  "arm r = (if rc_active r then r else r\<lparr>rc_pending := True, rc_ready := False, rc_overrun := False\<rparr>)"

definition rc_status :: "recorder \<Rightarrow> int" where
  "rc_status r = take_bit 29 (int (rc_sequence r)) + (if rc_ready r then 2 ^ 29 else 0) + (if rc_active r then 2 ^ 30 else 0) +
     (if rc_overrun r then 2 ^ 31 else 0)"

definition image_cycle :: "nat \<Rightarrow> recorder \<Rightarrow> int" where
  "image_cycle period r = take_bit 64 (1000 * int period * int (rc_image r + 1))"

definition word_of :: "int list \<Rightarrow> int \<Rightarrow> int" where
  "word_of bs a = from_le (take 4 (drop (nat (4 * a)) (bs @ [0, 0, 0])))"

definition rc_read :: "(nat \<Rightarrow> picture) \<Rightarrow> nat \<Rightarrow> recorder \<Rightarrow> int \<Rightarrow> int" where
  "rc_read scr period r reg =
    (let p = scr (rc_image r)
     in if reg = R_IDENT then IDENT_MAGIC
        else if reg = R_CAP_STATUS then rc_status r
        else if reg = R_CAP_CYCLE_LO then take_bit 32 (image_cycle period r)
        else if reg = R_CAP_CYCLE_HI then drop_bit 32 (image_cycle period r)
        else if reg = R_CAP_DIMS then pi_width p + push_bit 12 (pi_height p)
        else if reg = R_CAP_PIXELS then int (length (pi_samples p))
        else if reg = R_CAP_DATA then (if rc_ready r then word_of (pi_samples p) (rc_addr r) else 0)
        else 0)"

definition rc_write :: "int \<Rightarrow> int \<Rightarrow> recorder \<Rightarrow> recorder" where
  "rc_write reg v r = (if reg = R_CAP_CTL then (if bit v 0 then arm r else r) else if reg = R_CAP_ADDR then r\<lparr>rc_addr := v AND 0x1FFFF\<rparr> else r)"

definition rc_sleep :: "(nat \<Rightarrow> picture) \<Rightarrow> nat \<Rightarrow> int \<Rightarrow> recorder \<Rightarrow> recorder" where
  "rc_sleep scr period n r =
    (vsync scr ^^ nat ((rc_time r + n) div int period - rc_time r div int period)) (r\<lparr>rc_time := rc_time r + n\<rparr>)"

definition recorder_board :: "(nat \<Rightarrow> picture) \<Rightarrow> nat \<Rightarrow> recorder board" where
  "recorder_board scr period = \<lparr>bd_state = (\<lambda>_. Some ''operating''), bd_read = (\<lambda>reg r. (rc_read scr period r reg, r)),
     bd_write = rc_write, bd_low16 = (\<lambda>_ r. (0, r)), bd_set_low16 = (\<lambda>_ _ r. r), bd_now = (\<lambda>r. (rc_time r, r)),
     bd_now_ns = (\<lambda>r. (1000000 * rc_time r, r)), bd_sleep = rc_sleep scr period\<rparr>"

subsection \<open>The status word\<close>

lemma status_bits:
  fixes q :: int and a b c :: bool
  assumes "0 \<le> q" "q < 2 ^ 29"
  defines "s \<equiv> q + (if a then 2 ^ 29 else 0) + (if b then 2 ^ 30 else 0) + (if c then 2 ^ 31 else (0 :: int))"
  shows "s AND CAP_STATUS_SEQUENCE_MASK = q" "s AND CAP_STATUS_READY \<noteq> 0 \<longleftrightarrow> a" "s AND CAP_STATUS_ACTIVE \<noteq> 0 \<longleftrightarrow> b"
    "s AND CAP_STATUS_OVERRUN \<noteq> 0 \<longleftrightarrow> c"
proof -
  have single: "x AND 2 ^ n \<noteq> 0 \<longleftrightarrow> odd (x div 2 ^ n)" for x :: int and n
    by (metis and_exp_eq_0_iff_not_bit bit_iff_odd)
  have mask: "s AND CAP_STATUS_SEQUENCE_MASK = s mod 2 ^ 29" using take_bit_eq_mask [of 29 s]
    by (simp add: CAP_STATUS_SEQUENCE_MASK_def mask_eq_exp_minus_1 take_bit_eq_mod)
  define x where "x = (if a then 1 else 0) + (if b then 2 else 0) + (if c then 4 else (0 :: int))"
  have s: "s = q + 2 ^ 29 * x" by (simp add: s_def x_def)
  have d: "s div 2 ^ 29 = x" "s mod 2 ^ 29 = q" using assms(1,2) unfolding s by simp_all
  have d2: "s div 2 ^ 30 = x div 2" "s div 2 ^ 31 = x div 4"
    using zdiv_zmult2_eq [of 2 s "2 ^ 29"] zdiv_zmult2_eq [of 4 s "2 ^ 29"] d(1) by simp_all
  show "s AND CAP_STATUS_SEQUENCE_MASK = q" using mask d by simp
  show "s AND CAP_STATUS_READY \<noteq> 0 \<longleftrightarrow> a" using single [of s 29] d(1) by (simp add: CAP_STATUS_READY_def x_def)
  show "s AND CAP_STATUS_ACTIVE \<noteq> 0 \<longleftrightarrow> b" using single [of s 30] d2 by (simp add: CAP_STATUS_ACTIVE_def x_def)
  show "s AND CAP_STATUS_OVERRUN \<noteq> 0 \<longleftrightarrow> c" using single [of s 31] d2 by (simp add: CAP_STATUS_OVERRUN_def x_def)
qed

lemma rc_status_bits:
  "rc_status r AND CAP_STATUS_SEQUENCE_MASK = take_bit 29 (int (rc_sequence r))"
  "rc_status r AND CAP_STATUS_READY = 0 \<longleftrightarrow> \<not> rc_ready r" "rc_status r AND CAP_STATUS_ACTIVE = 0 \<longleftrightarrow> \<not> rc_active r"
  "rc_status r AND CAP_STATUS_OVERRUN = 0 \<longleftrightarrow> \<not> rc_overrun r"
proof -
  have q: "0 \<le> take_bit 29 (int (rc_sequence r))" "take_bit 29 (int (rc_sequence r)) < 2 ^ 29"
    using take_bit_int_less_exp [of 29 "int (rc_sequence r)"] by simp_all
  note b = status_bits [OF q, of "rc_ready r" "rc_active r" "rc_overrun r", folded rc_status_def]
  show "rc_status r AND CAP_STATUS_SEQUENCE_MASK = take_bit 29 (int (rc_sequence r))" by (rule b(1))
  show "rc_status r AND CAP_STATUS_READY = 0 \<longleftrightarrow> \<not> rc_ready r" "rc_status r AND CAP_STATUS_ACTIVE = 0 \<longleftrightarrow> \<not> rc_active r"
    "rc_status r AND CAP_STATUS_OVERRUN = 0 \<longleftrightarrow> \<not> rc_overrun r" using b(2,3,4) by blast+
qed

lemma next_sequence: "take_bit 29 (int (n + 1)) \<noteq> take_bit 29 (int n)"
proof
  assume "take_bit 29 (int (n + 1)) = take_bit 29 (int n)"
  then have "(int n + 1) mod 2 ^ 29 = int n mod 2 ^ 29" by (simp add: take_bit_eq_mod add.commute)
  then have "2 ^ 29 dvd (int n + 1 - int n)" by (simp only: mod_eq_dvd_iff)
  then show False by simp
qed

subsection \<open>A capture\<close>

lemma rd32_rec [simp]: "rd32 (recorder_board scr period) reg r = Some (Inr (rc_read scr period r reg), r)"
  by (simp add: rd32_def recorder_board_def)

lemma poke_rec [simp]: "poke (recorder_board scr period) reg v r = Some (Inr (), rc_write reg v r)"
  by (simp add: poke_def recorder_board_def)

lemma now_rec [simp]: "now (recorder_board scr period) r = Some (Inr (rc_time r), r)"
  by (simp add: now_def recorder_board_def)

lemma now_ns_rec [simp]: "now_ns (recorder_board scr period) r = Some (Inr (1000000 * rc_time r), r)"
  by (simp add: now_ns_def recorder_board_def)

lemma sleep_rec [simp]: "sleep (recorder_board scr period) n r = Some (Inr (), rc_sleep scr period n r)"
  by (simp add: sleep_def recorder_board_def)

lemmas cap_regs = R_CAP_CTL_def R_CAP_STATUS_def R_CAP_CYCLE_LO_def R_CAP_CYCLE_HI_def R_CAP_DIMS_def R_CAP_PIXELS_def R_CAP_ADDR_def
  R_CAP_DATA_def R_IDENT_def

lemma rc_read_simps [simp]:
  "rc_read scr period r R_CAP_STATUS = rc_status r"
  "rc_read scr period r R_CAP_CYCLE_LO = take_bit 32 (image_cycle period r)"
  "rc_read scr period r R_CAP_CYCLE_HI = drop_bit 32 (image_cycle period r)"
  "rc_read scr period r R_CAP_DIMS = pi_width (scr (rc_image r)) + push_bit 12 (pi_height (scr (rc_image r)))"
  "rc_read scr period r R_CAP_PIXELS = int (length (pi_samples (scr (rc_image r))))"
  "rc_read scr period r R_CAP_DATA = (if rc_ready r then word_of (pi_samples (scr (rc_image r))) (rc_addr r) else 0)"
  "rc_read scr period r R_IDENT = IDENT_MAGIC"
  unfolding rc_read_def Let_def by (simp_all add: cap_regs)

lemma rc_write_simps [simp]:
  "rc_write R_CAP_CTL 1 r = arm r" "rc_write R_CAP_ADDR v r = r\<lparr>rc_addr := v AND 0x1FFFF\<rparr>"
  unfolding rc_write_def by (simp_all add: cap_regs)

lemma open_mmio_rec: "open_mmio (recorder_board scr period) r = Some (Inr (), r)"
proof -
  have "require_fpga_operating (recorder_board scr period) r = Some (Inr (), r)"
    by (simp add: require_fpga_operating_def recorder_board_def strip_def lstrip_def is_ws_def)
  then show ?thesis unfolding open_mmio_def by (rule bindIO_eq) (rule bindIO_eq, rule rd32_rec, simp)
qed

text \<open>The recorder some syncs after it was armed: waiting, recording, frozen.\<close>

definition after_arm :: "(nat \<Rightarrow> picture) \<Rightarrow> recorder \<Rightarrow> nat \<Rightarrow> recorder" where
  "after_arm scr r n = (let d = r\<lparr>rc_frame := rc_frame r + n\<rparr>
     in if n = 0 then d\<lparr>rc_pending := True, rc_ready := False, rc_overrun := False\<rparr>
        else if n = 1 then d\<lparr>rc_pending := False, rc_active := True, rc_ready := False, rc_overrun := False\<rparr>
        else d\<lparr>rc_pending := False, rc_ready := True, rc_sequence := rc_sequence r + 1, rc_image := rc_frame r + 1,
               rc_overrun := CAPTURE_MAX_BYTES < int (length (pi_samples (scr (rc_frame r + 1))))\<rparr>)"

lemma arm_idle: "\<not> rc_active r \<Longrightarrow> arm r = after_arm scr r 0"
  by (simp add: arm_def after_arm_def)

lemma after_arm_step: "\<not> rc_active r \<Longrightarrow> vsync scr (after_arm scr r n) = after_arm scr r (Suc n)"
proof -
  assume idle: "\<not> rc_active r"
  consider "n = 0" | "n = 1" | "2 \<le> n" by linarith
  then show ?thesis using idle by cases (simp_all add: vsync_def after_arm_def)
qed

lemma after_arm_steps: "\<not> rc_active r \<Longrightarrow> (vsync scr ^^ k) (after_arm scr r n) = after_arm scr r (n + k)"
  by (induction k) (simp_all add: after_arm_step)

lemma after_arm_time [simp]: "(after_arm scr r n)\<lparr>rc_time := t\<rparr> = after_arm scr (r\<lparr>rc_time := t\<rparr>) n"
  by (simp add: after_arm_def Let_def)

lemma after_arm_fields [simp]:
  "rc_time (after_arm scr r n) = rc_time r" "rc_ready (after_arm scr r n) \<longleftrightarrow> 2 \<le> n"
  "rc_sequence (after_arm scr r n) = (if 2 \<le> n then rc_sequence r + 1 else rc_sequence r)"
  by (auto simp: after_arm_def Let_def)

definition syncs :: "nat \<Rightarrow> int \<Rightarrow> int \<Rightarrow> nat" where
  "syncs period t0 t = nat (t div int period - t0 div int period)"

lemma sleep_after_arm:
  assumes "\<not> rc_active r" "0 \<le> n" "t0 \<le> t" "0 < period"
  shows "rc_sleep scr period n (after_arm scr (r\<lparr>rc_time := t\<rparr>) (syncs period t0 t)) =
    after_arm scr (r\<lparr>rc_time := t + n\<rparr>) (syncs period t0 (t + n))"
proof -
  have "t0 div int period \<le> t div int period" "t div int period \<le> (t + n) div int period"
    using assms(2,3,4) by (simp_all add: zdiv_mono1)
  then have "syncs period t0 t + nat ((t + n) div int period - t div int period) = syncs period t0 (t + n)"
    by (simp add: syncs_def nat_add_distrib [symmetric])
  then show ?thesis using assms(1) by (simp add: rc_sleep_def after_arm_steps)
qed

lemma poll_recorder:
  assumes "\<not> rc_active r" "0 < period" "0 < interval" "t0 \<le> t" "t0 + 2 * int period \<le> deadline" "previous = take_bit 29 (int (rc_sequence r))"
  shows "\<exists>t' n. poll_frame (recorder_board scr period) previous deadline interval (after_arm scr (r\<lparr>rc_time := t\<rparr>) (syncs period t0 t)) =
    Some (Inr (rc_status (after_arm scr (r\<lparr>rc_time := t'\<rparr>) n)), after_arm scr (r\<lparr>rc_time := t'\<rparr>) n) \<and> 2 \<le> n \<and> t \<le> t' \<and> t' \<le> max t (t0 + 2 * int period + interval)"
  using assms(4)
proof (induction "nat (t0 + 2 * int period - t)" arbitrary: t rule: less_induct)
  case less
  let ?s = "after_arm scr (r\<lparr>rc_time := t\<rparr>) (syncs period t0 t)"
  show ?case
  proof (cases "2 \<le> syncs period t0 t")
    case True
    then have "rc_status ?s AND CAP_STATUS_READY \<noteq> 0 \<and> rc_status ?s AND CAP_STATUS_SEQUENCE_MASK \<noteq> previous"
      using next_sequence [of "rc_sequence r"] by (simp add: rc_status_bits assms(6) del: of_nat_Suc of_nat_add)
    then show ?thesis using True
      by (subst poll_frame.simps) (intro exI [of _ t] exI [of _ "syncs period t0 t"], simp)
  next
    case False
    have early: "t < t0 + 2 * int period"
    proof (rule ccontr)
      assume "\<not> t < t0 + 2 * int period"
      then have "(t0 + 2 * int period) div int period \<le> t div int period" using assms(2) by (intro zdiv_mono1) auto
      then have "t0 div int period + 2 \<le> t div int period" using assms(2) by simp
      then show False using False by (simp add: syncs_def)
    qed
    have "rc_status ?s AND CAP_STATUS_READY = 0" using False by (simp add: rc_status_bits)
    then have "poll_frame (recorder_board scr period) previous deadline interval ?s =
        poll_frame (recorder_board scr period) previous deadline interval
          (after_arm scr (r\<lparr>rc_time := t + interval\<rparr>) (syncs period t0 (t + interval)))"
      using early assms(3,5) sleep_after_arm [OF assms(1) less_imp_le [OF assms(3)] less.prems assms(2)]
      by (subst poll_frame.simps) simp
    then show ?thesis using less.hyps [of "t + interval"] early assms(3) less.prems by fastforce
  qed
qed

definition picture_ok :: "picture \<Rightarrow> bool" where
  "picture_ok p \<longleftrightarrow> 0 < pi_width p \<and> pi_width p < 4096 \<and> 0 < pi_height p \<and> pi_height p < 4096 \<and>
     int (length (pi_samples p)) = pi_width p * pi_height p \<and> int (length (pi_samples p)) \<le> CAPTURE_MAX_BYTES \<and> (\<forall>b \<in> set (pi_samples p). is_byte b)"

lemma upto_nat: "[0 .. int m - 1] = map int [0..<m]"
  by (induction m) (simp_all add: upto_rec2)

lemma words_concat: "4 * m \<le> length bs \<Longrightarrow> concat (map (\<lambda>a. take 4 (drop (4 * a) bs)) [0..<m]) = take (4 * m) bs"
proof (induction m)
  case (Suc m)
  then have "concat (map (\<lambda>a. take 4 (drop (4 * a) bs)) [0..<Suc m]) = take (4 * m) bs @ take 4 (drop (4 * m) bs)" by simp
  also have "\<dots> = take (4 * m + 4) bs" by (simp only: take_add)
  finally show ?case by (simp add: add.commute)
qed simp

lemma drain_recorder:
  assumes "rc_ready r" "\<forall>a \<in> set as. 0 \<le> a \<and> a < 131072"
  shows "\<exists>x. drain_words (recorder_board scr period) as r =
    Some (Inr (concat (map (\<lambda>a. to_le 4 (word_of (pi_samples (scr (rc_image r))) a)) as)), r\<lparr>rc_addr := x\<rparr>)"
  using assms
proof (induction as arbitrary: r)
  case Nil
  then show ?case by (intro exI [of _ "rc_addr r"]) simp
next
  case (Cons a as)
  have "a AND 0x1FFFF = a" using take_bit_eq_mask [of 17 a] take_bit_int_eq_self [of a 17] Cons.prems(2) by (simp add: mask_eq_exp_minus_1)
  then have p: "poke (recorder_board scr period) R_CAP_ADDR a r = Some (Inr (), r\<lparr>rc_addr := a\<rparr>)" by simp
  have d: "rd32 (recorder_board scr period) R_CAP_DATA (r\<lparr>rc_addr := a\<rparr>) =
      Some (Inr (word_of (pi_samples (scr (rc_image r))) a), r\<lparr>rc_addr := a\<rparr>)" using Cons.prems(1) by simp
  obtain x where x: "drain_words (recorder_board scr period) as (r\<lparr>rc_addr := a\<rparr>) =
      Some (Inr (concat (map (\<lambda>a. to_le 4 (word_of (pi_samples (scr (rc_image r))) a)) as)), r\<lparr>rc_addr := x\<rparr>)"
    using Cons.IH [of "r\<lparr>rc_addr := a\<rparr>"] Cons.prems by auto
  have "drain_words (recorder_board scr period) (a # as) r =
      Some (Inr (concat (map (\<lambda>a. to_le 4 (word_of (pi_samples (scr (rc_image r))) a)) (a # as))), r\<lparr>rc_addr := x\<rparr>)"
    unfolding drain_words.simps by (rule bindIO_eq, rule p, rule bindIO_eq, rule d, rule bindIO_eq, rule x) simp
  then show ?case by blast
qed

lemma drain_frame_recorder:
  assumes "rc_ready r" "picture_ok (scr (rc_image r))"
  shows "\<exists>x. drain_frame (recorder_board scr period) (int (length (pi_samples (scr (rc_image r))))) r =
    Some (Inr (pi_samples (scr (rc_image r))), r\<lparr>rc_addr := x\<rparr>)"
proof -
  let ?s = "pi_samples (scr (rc_image r))"
  define m where "m = (length ?s + 3) div 4"
  have round: "(int (length ?s) + 3) AND NOT 3 = 4 * int m" unfolding drop_low_bits by (simp add: m_def zdiv_int)
  have m: "length ?s \<le> 4 * m" "4 * m \<le> length (?s @ [0, 0, 0])" unfolding m_def by simp_all
  have "int (length ?s) \<le> 524288" using assms(2) by (simp add: picture_ok_def CAPTURE_MAX_BYTES_def)
  then have "m \<le> 131072" unfolding m_def by simp
  then have "\<forall>a \<in> set [0 .. int m - 1]. 0 \<le> a \<and> a < 131072" by auto
  from drain_recorder [OF assms(1) this, of scr period] obtain x where
    x: "drain_words (recorder_board scr period) [0 .. int m - 1] r = Some (Inr (concat (map (\<lambda>a. to_le 4 (word_of ?s a)) [0 .. int m - 1])), r\<lparr>rc_addr := x\<rparr>)"
    by blast
  have word: "to_le 4 (word_of ?s (int a)) = take 4 (drop (4 * a) (?s @ [0, 0, 0]))" if "a < m" for a
  proof -
    let ?w = "take 4 (drop (4 * a) (?s @ [0, 0, 0]))"
    have "length ?w = 4" using that m(2) by simp
    moreover have "\<forall>b \<in> set (?s @ [0, 0, 0]). is_byte b" using assms(2) by (auto simp: picture_ok_def is_byte_def)
    then have "\<forall>b \<in> set ?w. is_byte b" by (meson in_set_dropD in_set_takeD)
    ultimately have "to_le 4 (from_le ?w) = ?w" by (metis to_from_le)
    then show ?thesis by (simp add: word_of_def nat_mult_distrib)
  qed
  have "map (\<lambda>a. to_le 4 (word_of ?s a)) [0 .. int m - 1] = map (\<lambda>a. take 4 (drop (4 * a) (?s @ [0, 0, 0]))) [0..<m]"
    unfolding upto_nat using word by simp
  then have c: "concat (map (\<lambda>a. to_le 4 (word_of ?s a)) [0 .. int m - 1]) = take (4 * m) (?s @ [0, 0, 0])"
    using words_concat [OF m(2)] by simp
  have "drain_frame (recorder_board scr period) (int (length ?s)) r = Some (Inr ?s, r\<lparr>rc_addr := x\<rparr>)"
    unfolding drain_frame_def round Let_def using x c m(1) by simp
  then show ?thesis by blast
qed

text \<open>The frame that a frozen picture is read as.\<close>

definition frozen_frame :: "(nat \<Rightarrow> picture) \<Rightarrow> nat \<Rightarrow> recorder \<Rightarrow> frame" where
  "frozen_frame scr period r = (let p = scr (rc_image r)
     in \<lparr>fr_sequence = take_bit 29 (int (rc_sequence r)), fr_cycle = image_cycle period r, fr_width = pi_width p, fr_height = pi_height p,
          fr_pixels = pi_width p * pi_height p, fr_payload = pi_samples p\<rparr>)"

lemma low_high:
  assumes "0 \<le> w" "w < 4096" "0 \<le> h" "h < (4096 :: int)"
  shows "(w + push_bit 12 h) AND 0xFFF = w" "drop_bit 12 (w + push_bit 12 h) AND 0xFFF = h"
proof -
  have m: "x AND 0xFFF = x mod 4096" for x :: int using take_bit_eq_mask [of 12 x] by (simp add: mask_eq_exp_minus_1 take_bit_eq_mod)
  show "(w + push_bit 12 h) AND 0xFFF = w" unfolding m using assms by (simp add: push_bit_eq_mult)
  have "(w + h * 4096) div 4096 = h" using assms by simp
  then show "drop_bit 12 (w + push_bit 12 h) AND 0xFFF = h" unfolding m using assms by (simp add: push_bit_eq_mult drop_bit_eq_div)
qed

lemma read_frame_recorder:
  assumes "rc_ready r" "picture_ok (scr (rc_image r))"
  shows "\<exists>x. read_frame (recorder_board scr period) (take_bit 29 (int (rc_sequence r))) r =
    Some (Inr (frozen_frame scr period r), r\<lparr>rc_addr := x\<rparr>)"
proof -
  let ?p = "scr (rc_image r)"
  let ?B = "recorder_board scr period"
  have p: "0 < pi_width ?p" "pi_width ?p < 4096" "0 < pi_height ?p" "pi_height ?p < 4096" "int (length (pi_samples ?p)) = pi_width ?p * pi_height ?p"
    "int (length (pi_samples ?p)) \<le> CAPTURE_MAX_BYTES" using assms(2) by (simp_all add: picture_ok_def)
  obtain x where x: "drain_frame ?B (int (length (pi_samples ?p))) r = Some (Inr (pi_samples ?p), r\<lparr>rc_addr := x\<rparr>)"
    using drain_frame_recorder [OF assms(1), of scr] assms(2) by blast
  have cyc: "stable_u64 ?B R_CAP_CYCLE_LO R_CAP_CYCLE_HI r = Some (Inr (image_cycle period r), r)"
    by (subst stable_u64.simps) (simp add: halves)
  have d: "rd32 ?B R_CAP_DIMS r = Some (Inr (pi_width ?p + push_bit 12 (pi_height ?p)), r)"
    and c: "rd32 ?B R_CAP_PIXELS r = Some (Inr (int (length (pi_samples ?p))), r)" by simp_all
  have n: "int (length (pi_samples ?p)) AND 0xFFFFF = int (length (pi_samples ?p))"
    using take_bit_eq_mask [of 20 "int (length (pi_samples ?p))"] take_bit_int_eq_self [of "int (length (pi_samples ?p))" 20] p(6)
    by (simp add: mask_eq_exp_minus_1 CAPTURE_MAX_BYTES_def)
  have lh: "(pi_width ?p + push_bit 12 (pi_height ?p)) AND 0xFFF = pi_width ?p"
    "drop_bit 12 (pi_width ?p + push_bit 12 (pi_height ?p)) AND 0xFFF = pi_height ?p"
    using low_high [of "pi_width ?p" "pi_height ?p"] p by simp_all
  have good: "\<not> (pi_width ?p = 0 \<or> pi_height ?p = 0 \<or> int (length (pi_samples ?p)) \<noteq> pi_width ?p * pi_height ?p \<or>
      CAPTURE_MAX_BYTES < int (length (pi_samples ?p)))" using p by simp
  have "read_frame ?B (take_bit 29 (int (rc_sequence r))) r = Some (Inr (frozen_frame scr period r), r\<lparr>rc_addr := x\<rparr>)"
    unfolding read_frame_def Let_def
    by (rule bindIO_eq, rule cyc, rule bindIO_eq, rule d, rule bindIO_eq, rule c, unfold lh n, subst if_not_P, rule good, rule bindIO_eq, rule x)
      (simp add: frozen_frame_def Let_def p(5))
  then show ?thesis by blast
qed

lemma after_arm_frozen:
  assumes "2 \<le> n"
  shows "rc_image (after_arm scr r n) = rc_frame r + 1" "\<not> rc_active r \<Longrightarrow> \<not> rc_active (after_arm scr r n)"
    "rc_overrun (after_arm scr r n) \<longleftrightarrow> CAPTURE_MAX_BYTES < int (length (pi_samples (scr (rc_frame r + 1))))"
    "rc_frame (after_arm scr r n) = rc_frame r + n"
  using assms by (simp_all add: after_arm_def Let_def)

lemma capture_recorder:
  assumes "\<not> rc_active r" "picture_ok (scr (rc_frame r + 1))" "0 < period" "0 < interval" "2 * int period \<le> timeout"
  shows "\<exists>t n x. 2 \<le> n \<and> rc_time r \<le> t \<and> t \<le> rc_time r + 2 * int period + interval \<and> capture_scanout_frame (recorder_board scr period) timeout interval r =
    Some (Inr (frozen_frame scr period (after_arm scr (r\<lparr>rc_time := t\<rparr>) n)), (after_arm scr (r\<lparr>rc_time := t\<rparr>) n)\<lparr>rc_addr := x\<rparr>)"
proof -
  let ?B = "recorder_board scr period"
  have armed: "poke ?B R_CAP_CTL 1 r = Some (Inr (), after_arm scr r 0)" using arm_idle [OF assms(1)] by simp
  have t0: "now ?B (after_arm scr r 0) = Some (Inr (rc_time r), after_arm scr r 0)" by simp
  have status: "rd32 ?B R_CAP_STATUS r = Some (Inr (rc_status r), r)" by simp
  have idle: "\<not> rc_status r AND CAP_STATUS_ACTIVE \<noteq> 0" using assms(1) by (simp add: rc_status_bits)
  have zero: "after_arm scr (r\<lparr>rc_time := rc_time r\<rparr>) (syncs period (rc_time r) (rc_time r)) = after_arm scr r 0" by (simp add: syncs_def)
  obtain t n where n: "2 \<le> n" "rc_time r \<le> t" "t \<le> rc_time r + 2 * int period + interval" and poll: "poll_frame ?B (rc_status r AND CAP_STATUS_SEQUENCE_MASK) (rc_time r + timeout) interval (after_arm scr r 0) =
      Some (Inr (rc_status (after_arm scr (r\<lparr>rc_time := t\<rparr>) n)), after_arm scr (r\<lparr>rc_time := t\<rparr>) n)"
    using poll_recorder [OF assms(1,3,4) order_refl, of "rc_time r" "rc_time r + timeout" "take_bit 29 (int (rc_sequence r))" scr] assms(4,5)
    unfolding zero by (auto simp: rc_status_bits max_def split: if_splits)
  let ?r = "after_arm scr (r\<lparr>rc_time := t\<rparr>) n"
  have image: "rc_image ?r = rc_frame r + 1" using after_arm_frozen(1) [OF n(1)] by simp
  then have ok: "rc_ready ?r" "picture_ok (scr (rc_image ?r))" using n assms(2) by simp_all
  have whole: "\<not> rc_status ?r AND CAP_STATUS_OVERRUN \<noteq> 0"
    using assms(2) after_arm_frozen(3) [OF n(1)] by (simp add: rc_status_bits picture_ok_def)
  obtain x where x: "read_frame ?B (rc_status ?r AND CAP_STATUS_SEQUENCE_MASK) ?r = Some (Inr (frozen_frame scr period ?r), ?r\<lparr>rc_addr := x\<rparr>)"
    using read_frame_recorder [OF ok(1), of scr period] ok(2) unfolding rc_status_bits by blast
  have "capture_scanout_frame ?B timeout interval r = Some (Inr (frozen_frame scr period ?r), ?r\<lparr>rc_addr := x\<rparr>)"
    unfolding capture_scanout_frame_def
    by (rule bindIO_eq, rule status, subst if_not_P, rule idle, rule bindIO_eq, rule armed, rule bindIO_eq, rule t0,
        rule bindIO_eq, rule poll, subst if_not_P, rule whole, rule x)
  then show ?thesis using n by blast
qed


definition demo_screen :: "nat \<Rightarrow> picture" where
  "demo_screen n = \<lparr>pi_width = 2, pi_height = 3, pi_samples = [int n mod 256, 1, 2, 3, 4, 0xE3]\<rparr>"

definition demo_recorder :: recorder where
  "demo_recorder = \<lparr>rc_pending = False, rc_active = False, rc_ready = True, rc_overrun = False, rc_sequence = 8, rc_image = 3, rc_frame = 5,
     rc_addr = 0, rc_time = 100\<rparr>"

lemma demo_picture: "picture_ok (demo_screen n)"
  by (simp add: picture_ok_def demo_screen_def is_byte_def CAPTURE_MAX_BYTES_def)


end
