(* ===== verification/Vga_Video.thy ===== *)
theory Vga_Video
  imports Vga_Stream
begin

text \<open>
  fpga/board-tools/ven_vga_stream_to_video.py: validating a VENVCAP1 stream, and the writer of an
  uncompressed AVI file. The file under construction is its content; ffmpeg is what is sent to it and its
  exit status. Rates are exact rationals.
\<close>

subsection \<open>RIFF\<close>

definition bytes_of :: "string \<Rightarrow> int list" where "bytes_of = map of_char"

lemma bytes_of_length [simp]: "length (bytes_of s) = length s" by (simp add: bytes_of_def)

definition riff_chunk :: "int list \<Rightarrow> int list \<Rightarrow> int list result" where
  "riff_chunk fourcc payload = (if length fourcc \<noteq> 4 then Inl ValueError
     else bindE (pack_le 4 (int (length payload))) (\<lambda>n. Inr (fourcc @ n @ payload @ (if odd (length payload) then [0] else []))))"

definition riff_list :: "int list \<Rightarrow> int list \<Rightarrow> int list result" where
  "riff_list kind payload = (if length kind \<noteq> 4 then Inl ValueError else riff_chunk (bytes_of ''LIST'') (kind @ payload))"

definition pack_signed :: "nat \<Rightarrow> int \<Rightarrow> int list result" where
  "pack_signed n v = (if - (256 ^ n div 2) \<le> v \<and> v < 256 ^ n div 2 then Inr (to_le n v) else Inl StructError)"

definition packs :: "(nat \<times> bool \<times> int) list \<Rightarrow> int list result" where
  "packs fs = bindE (mapE (\<lambda>(n, signed, v). if signed then pack_signed n v else pack_le n v) fs) (\<lambda>bs. Inr (concat bs))"

text \<open>Python's round: to the nearest integer, ties to even.\<close>

definition py_round :: "rat \<Rightarrow> int" where
  "py_round x = (let f = \<lfloor>x\<rfloor>; d = x - of_int f in if d < 1 / 2 then f else if 1 / 2 < d then f + 1 else if even f then f else f + 1)"

subsection \<open>The AVI writer\<close>

record avi =
  av_width :: int
  av_height :: int
  av_frames :: int
  av_row_bytes :: int
  av_frame_bytes :: int
  av_written :: int
  av_target :: "int list"
  av_movi :: nat
  av_index :: "(int \<times> int) list"

definition avi_headers :: "int \<Rightarrow> int \<Rightarrow> rat \<Rightarrow> int \<Rightarrow> int \<Rightarrow> int list result" where
  "avi_headers width height fps frames frame_bytes =
    (let rate = max 1 (py_round (fps * 1000)); scale = 1000; microseconds = py_round (1000000 * scale / of_int rate);
         u = (\<lambda>n v. (n, False, v)); s = (\<lambda>n v. (n, True, v))
     in bindE (packs (map (u 4) [microseconds, py_round (of_int frame_bytes * fps), 0, 0x10, frames, 0, 1, frame_bytes, width, height, 0, 0, 0, 0])) (\<lambda>avih.
        bindE (packs ([u 4 0, u 2 0, u 2 0] @ map (u 4) [0, 1000, rate, 0, frames, frame_bytes, 0xFFFFFFFF, 0] @ map (s 2) [0, 0, width, height])) (\<lambda>strh.
        bindE (packs [u 4 40, s 4 width, s 4 (- height), u 2 1, u 2 24, u 4 0, u 4 frame_bytes, s 4 0, s 4 0, u 4 0, u 4 0]) (\<lambda>strf.
        bindE (riff_chunk (bytes_of ''avih'') avih) (\<lambda>c1. bindE (riff_chunk (bytes_of ''strh'') (bytes_of ''vidsDIB '' @ strh)) (\<lambda>c2.
        bindE (riff_chunk (bytes_of ''strf'') strf) (\<lambda>c3. bindE (riff_list (bytes_of ''strl'') (c2 @ c3)) (\<lambda>l.
          Inr (c1 @ l)))))))))"

definition avi_open :: "int \<Rightarrow> int \<Rightarrow> rat \<Rightarrow> int \<Rightarrow> avi result" where
  "avi_open width height fps frames = (if frames < 1 then Inl ValueError
     else let row_bytes = (width * 3 + 3) AND NOT 3; frame_bytes = row_bytes * height
       in bindE (avi_headers width height fps frames frame_bytes) (\<lambda>hdrl. bindE (riff_list (bytes_of ''hdrl'') hdrl) (\<lambda>l.
            let start = bytes_of ''RIFF'' @ [0, 0, 0, 0] @ bytes_of ''AVI '' @ l
            in Inr \<lparr>av_width = width, av_height = height, av_frames = frames, av_row_bytes = row_bytes, av_frame_bytes = frame_bytes,
                 av_written = 0, av_target = start @ bytes_of ''LIST'' @ [0, 0, 0, 0] @ bytes_of ''movi'', av_movi = length start,
                 av_index = []\<rparr>)))"

fun swap_rgb :: "int list \<Rightarrow> int list" where
  "swap_rgb (r # g # b # xs) = b # g # r # swap_rgb xs"
| "swap_rgb xs = xs"

fun bgr_rows :: "nat \<Rightarrow> nat \<Rightarrow> nat \<Rightarrow> int list \<Rightarrow> int list" where
  "bgr_rows line padding 0 rgb = []"
| "bgr_rows line padding (Suc h) rgb = swap_rgb (take line rgb) @ replicate padding 0 @ bgr_rows line padding h (drop line rgb)"

definition bgr_image :: "avi \<Rightarrow> int list \<Rightarrow> int list" where
  "bgr_image v rgb = bgr_rows (nat (av_width v * 3)) (nat (av_row_bytes v - av_width v * 3)) (nat (av_height v)) rgb"

definition avi_write :: "avi \<Rightarrow> int list \<Rightarrow> avi result" where
  "avi_write v rgb = (if int (length rgb) \<noteq> av_width v * av_height v * 3 then Inl ValueError
     else if av_frames v \<le> av_written v then Inl ValueError
     else bindE (riff_chunk (bytes_of ''00db'') (bgr_image v rgb)) (\<lambda>c.
       Inr (v\<lparr>av_target := av_target v @ c, av_written := av_written v + 1,
              av_index := av_index v @ [(int (length (av_target v)) - int (av_movi v + 8), av_frame_bytes v)]\<rparr>)))"

definition overwrite :: "nat \<Rightarrow> int list \<Rightarrow> int list \<Rightarrow> int list" where
  "overwrite p bs xs = take p xs @ bs @ drop (p + length bs) xs"

fun index_entries :: "(int \<times> int) list \<Rightarrow> int list result" where
  "index_entries [] = Inr []"
| "index_entries ((off, sz) # rest) = bindE (packs [(4, False, 0x10), (4, False, off), (4, False, sz)]) (\<lambda>e.
     bindE (index_entries rest) (\<lambda>es. Inr (bytes_of ''00db'' @ e @ es)))"

definition avi_close :: "avi \<Rightarrow> int list result" where
  "avi_close v = (if av_written v \<noteq> av_frames v then Inl RuntimeError
     else bindE (pack_le 4 (int (length (av_target v)) - int (av_movi v + 8))) (\<lambda>n.
       bindE (index_entries (av_index v)) (\<lambda>es. bindE (riff_chunk (bytes_of ''idx1'') es) (\<lambda>c.
         let file = overwrite (av_movi v + 4) n (av_target v) @ c
         in bindE (pack_le 4 (int (length file) - 8)) (\<lambda>m. Inr (overwrite 4 m file))))))"

subsection \<open>Decoding a stream\<close>

datatype video_error = BadRate | NoEncoder | Truncated | BadStreamHeader | BadMarker int | BadDimensions int | DimensionsChanged int
  | ChecksumMismatch int | TrailingData | EncoderFailed | AviFailure py_error

record manifest_frame =
  mf_index :: int
  mf_sequence :: int
  mf_cycle :: int
  mf_seconds :: rat
  mf_host_ns :: int
  mf_width :: int
  mf_height :: int
  mf_pixels :: int
  mf_crc32 :: string

datatype video_kind = NoVideo | RawAvi | Ffmpeg

record video_args =
  va_ppm :: bool
  va_video :: video_kind
  va_fps :: rat
  va_clock_hz :: rat

record video_state =
  vs_dims :: "(int \<times> int) option"
  vs_avi :: "avi option"
  vs_encoded :: "int list"
  vs_ppm :: "(int \<times> int list) list"
  vs_frames :: "manifest_frame list"

definition read_exact :: "int list \<Rightarrow> nat \<Rightarrow> video_error + (int list \<times> int list)" where
  "read_exact source n = (if length (take n source) \<noteq> n then Inl Truncated else Inr (take n source, drop n source))"

definition ppm_file :: "int \<Rightarrow> int \<Rightarrow> int list \<Rightarrow> int list" where
  "ppm_file width height rgb24 = bytes_of (''P6'' @ [CHR 0x0A] @ dec width @ '' '' @ dec height @ [CHR 0x0A] @ ''255'' @ [CHR 0x0A]) @ rgb24"

definition start_video :: "video_args \<Rightarrow> int \<Rightarrow> int \<Rightarrow> int \<Rightarrow> int \<Rightarrow> video_state \<Rightarrow> video_error + video_state" where
  "start_video a announced index width height st = (case vs_dims st of
     None \<Rightarrow> (let st = st\<lparr>vs_dims := Some (width, height)\<rparr>
       in if va_video a = RawAvi
          then (case avi_open width height (va_fps a) announced of Inl e \<Rightarrow> Inl (AviFailure e) | Inr v \<Rightarrow> Inr (st\<lparr>vs_avi := Some v\<rparr>))
          else Inr st)
   | Some dims \<Rightarrow> if dims \<noteq> (width, height) then Inl (DimensionsChanged index) else Inr st)"

definition store_frame :: "video_args \<Rightarrow> manifest_frame \<Rightarrow> int list \<Rightarrow> video_state \<Rightarrow> video_error + video_state" where
  "store_frame a m payload st =
    (let rgb24 = rgb332_to_rgb24 payload;
         st = (if va_ppm a then st\<lparr>vs_ppm := vs_ppm st @ [(mf_index m, ppm_file (mf_width m) (mf_height m) rgb24)]\<rparr> else st);
         done = (\<lambda>st. st\<lparr>vs_encoded := (if va_video a = Ffmpeg then vs_encoded st @ rgb24 else vs_encoded st), vs_frames := vs_frames st @ [m]\<rparr>)
     in case vs_avi st of None \<Rightarrow> Inr (done st)
        | Some v \<Rightarrow> (case avi_write v rgb24 of Inl e \<Rightarrow> Inl (AviFailure e) | Inr v \<Rightarrow> Inr (done (st\<lparr>vs_avi := Some v\<rparr>))))"

fun manifest_of :: "video_args \<Rightarrow> int \<Rightarrow> int list \<Rightarrow> manifest_frame" where
  "manifest_of a index [sequence, host_ns, cycle, width, height, pixels, checksum] =
    \<lparr>mf_index = index, mf_sequence = sequence, mf_cycle = cycle, mf_seconds = of_int cycle / va_clock_hz a, mf_host_ns = host_ns,
     mf_width = width, mf_height = height, mf_pixels = pixels, mf_crc32 = hex_pad 8 checksum\<rparr>"
| "manifest_of a index _ = undefined"

definition decode_frame :: "video_args \<Rightarrow> int \<Rightarrow> int \<Rightarrow> int list \<Rightarrow> video_state \<Rightarrow> video_error + (int list \<times> video_state)" where
  "decode_frame a announced index source st =
    (case read_exact source 36 of Inl e \<Rightarrow> Inl e | Inr (hdr, source) \<Rightarrow>
      (let fields = unpack_fields FRAME_FIELDS (drop 4 hdr); m = manifest_of a index fields; checksum = fields ! 6
       in if take 4 hdr \<noteq> FRAME_MARKER then Inl (BadMarker index)
          else if mf_width m = 0 \<or> mf_height m = 0 \<or> mf_pixels m \<noteq> mf_width m * mf_height m then Inl (BadDimensions index)
          else case start_video a announced index (mf_width m) (mf_height m) st of Inl e \<Rightarrow> Inl e | Inr st \<Rightarrow>
            (case read_exact source (nat (mf_pixels m)) of Inl e \<Rightarrow> Inl e | Inr (payload, source) \<Rightarrow>
              if crc32 payload \<noteq> checksum then Inl (ChecksumMismatch index)
              else case store_frame a m payload st of Inl e \<Rightarrow> Inl e | Inr st \<Rightarrow> Inr (source, st))))"

fun decode_loop :: "video_args \<Rightarrow> int \<Rightarrow> int \<Rightarrow> nat \<Rightarrow> int list \<Rightarrow> video_state \<Rightarrow> video_error + (int list \<times> video_state)" where
  "decode_loop a announced index 0 source st = Inr (source, st)"
| "decode_loop a announced index (Suc n) source st = (case decode_frame a announced index source st of Inl e \<Rightarrow> Inl e
     | Inr (source, st) \<Rightarrow> decode_loop a announced (index + 1) n source st)"

definition EMPTY_VIDEO :: video_state where
  "EMPTY_VIDEO = \<lparr>vs_dims = None, vs_avi = None, vs_encoded = [], vs_ppm = [], vs_frames = []\<rparr>"

text \<open>The manifest with its announced count, and the AVI file when one is written.\<close>

definition decode_stream :: "video_args \<Rightarrow> bool \<Rightarrow> bool \<Rightarrow> int list \<Rightarrow> video_error + (int \<times> video_state \<times> int list option)" where
  "decode_stream a has_ffmpeg encoder_ok source =
    (if va_fps a \<le> 0 \<or> va_clock_hz a \<le> 0 then Inl BadRate
     else if va_video a = Ffmpeg \<and> \<not> has_ffmpeg then Inl NoEncoder
     else case read_exact source 16 of Inl e \<Rightarrow> Inl e | Inr (hdr, source) \<Rightarrow>
       (let version = from_le (take 4 (drop 8 hdr)); announced = from_le (drop 12 hdr)
        in if take 8 hdr \<noteq> STREAM_MAGIC \<or> version \<noteq> STREAM_VERSION then Inl BadStreamHeader
           else case decode_loop a announced 0 (nat announced) source EMPTY_VIDEO of Inl e \<Rightarrow> Inl e | Inr (source, st) \<Rightarrow>
             if source \<noteq> [] then Inl TrailingData
             else if va_video a = Ffmpeg \<and> vs_dims st \<noteq> None \<and> \<not> encoder_ok then Inl EncoderFailed
             else case vs_avi st of None \<Rightarrow> Inr (announced, st, None)
               | Some v \<Rightarrow> (case avi_close v of Inl e \<Rightarrow> Inl (AviFailure e) | Inr file \<Rightarrow> Inr (announced, st, Some file))))"

end
