(* ===== verification/Vga_Roundtrip.thy ===== *)
theory Vga_Roundtrip
  imports Board_Recorder Vga_Video
begin

text \<open>
  The recorder's stream and its decoder together: what a finished capture sent is accepted, and the
  manifest lists exactly the frames that were captured.
\<close>

subsection \<open>What a capture sends\<close>

definition sent_bytes :: "out_item list \<Rightarrow> int list" where
  "sent_bytes out = concat (map (\<lambda>x. case x of Sent bs \<Rightarrow> bs | Picture _ _ _ _ \<Rightarrow> []) out)"

lemma sent_append [simp]: "sent_bytes (xs @ ys) = sent_bytes xs @ sent_bytes ys"
  by (simp add: sent_bytes_def)

text \<open>A frame with the time at which the host had it.\<close>

type_synonym stamped = "int \<times> frame"

definition packed :: "stamped \<Rightarrow> int list" where
  "packed e = (case pack_frame_header (frame_fields (fst e) (snd e)) of Inl _ \<Rightarrow> [] | Inr hdr \<Rightarrow> hdr @ fr_payload (snd e))"

definition frame_ok :: "capture_args \<Rightarrow> stamped \<Rightarrow> bool" where
  "frame_ok a e \<longleftrightarrow> (\<exists>hdr. pack_frame_header (frame_fields (fst e) (snd e)) = Inr hdr) \<and>
     fr_width (snd e) = ca_width a \<and> fr_height (snd e) = ca_height a \<and> fr_width (snd e) \<noteq> 0 \<and> fr_height (snd e) \<noteq> 0 \<and>
     fr_pixels (snd e) = fr_width (snd e) * fr_height (snd e) \<and> int (length (fr_payload (snd e))) = fr_pixels (snd e)"

lemma drain_words_length: "drain_words B as h = Some (Inr bs, h') \<Longrightarrow> length bs = 4 * length as"
proof (induction as arbitrary: bs h h')
  case (Cons a as)
  then show ?case by (auto elim!: bindIO_cases)
qed simp

lemma drain_frame_length:
  assumes "drain_frame B pixels h = Some (Inr bs, h')" "0 \<le> pixels"
  shows "int (length bs) = pixels"
proof -
  obtain p where p: "drain_words B [0 .. ((pixels + 3) AND NOT 3) div 4 - 1] h = Some (Inr p, h')" "bs = take (nat pixels) p"
    using assms(1) by (auto simp: drain_frame_def Let_def elim!: bindIO_cases)
  have "length p = 4 * nat ((pixels + 3) div 4)" using drain_words_length [OF p(1)] unfolding drop_low_bits by simp
  moreover have "pixels \<le> 4 * ((pixels + 3) div 4)" by linarith
  ultimately show ?thesis using assms(2) p(2) by simp
qed

lemma read_frame_ok:
  assumes "read_frame B q h = Some (Inr f, h')"
  shows "fr_width f \<noteq> 0 \<and> fr_height f \<noteq> 0 \<and> fr_pixels f = fr_width f * fr_height f \<and> int (length (fr_payload f)) = fr_pixels f"
proof -
  obtain c h1 d h2 w h3 p where
    s: "rd32 B R_CAP_PIXELS h2 = Some (Inr w, h3)" "drain_frame B (w AND 0xFFFFF) h3 = Some (Inr p, h')"
    "f = \<lparr>fr_sequence = q, fr_cycle = c, fr_width = d AND 0xFFF, fr_height = drop_bit 12 d AND 0xFFF, fr_pixels = w AND 0xFFFFF, fr_payload = p\<rparr>"
    "d AND 0xFFF \<noteq> 0" "drop_bit 12 d AND 0xFFF \<noteq> 0" "w AND 0xFFFFF = (d AND 0xFFF) * (drop_bit 12 d AND 0xFFF)"
    using assms unfolding read_frame_def Let_def by (elim bindIO_cases) (auto split: if_splits elim!: bindIO_cases)
  have "int (length p) = w AND 0xFFFFF" using drain_frame_length [OF s(2)] by simp
  then show ?thesis using s by simp
qed

lemma capture_ok:
  assumes "capture_scanout_frame B t i h = Some (Inr f, h')"
  shows "fr_width f \<noteq> 0 \<and> fr_height f \<noteq> 0 \<and> fr_pixels f = fr_width f * fr_height f \<and> int (length (fr_payload f)) = fr_pixels f"
proof -
  obtain q g where "read_frame B q g = Some (Inr f, h')"
    using assms unfolding capture_scanout_frame_def by (auto elim!: bindIO_cases split: if_splits)
  then show ?thesis by (rule read_frame_ok)
qed

lemma onboard_cases:
  assumes "onboard m s = Some (r, s')"
  shows "snd s' = snd s \<and> m (fst s) = Some (r, fst s')"
  using assms by (auto simp: onboard_def)

lemma handle_completed: "handle_failure B a c e h = Some (Inr c', h') \<Longrightarrow> cs_completed c' = cs_completed c"
  unfolding handle_failure_def Let_def by (auto elim!: bindIO_cases split: if_splits)

lemma publish_stream:
  assumes "publish a ns f s = Some (Inr u, s')" "ca_stream a"
  shows "\<exists>hdr. pack_frame_header (frame_fields ns f) = Inr hdr \<and> snd s' = snd s @ [Sent hdr, Sent (fr_payload f)]"
  using assms unfolding publish_def by (auto simp: ofStruct_def emit_def elim!: bindIO_cases split: sum.splits)

lemma round_sends:
  assumes "capture_round B a c s = Some (Inr c', s')" "ca_stream a" "ca_width a \<noteq> 0"
  shows "(cs_completed c' = cs_completed c \<and> snd s' = snd s) \<or>
    (cs_completed c' = cs_completed c + 1 \<and> (\<exists>e. frame_ok a e \<and> sent_bytes (snd s') = sent_bytes (snd s) @ packed e))"
proof -
  obtain t s1 r s2 where r: "onboard (attempt_timeout B a c) s = Some (Inr t, s1)"
    "attempt (onboard (capture_scanout_frame B t (ca_interval a))) s1 = Some (Inr r, s2)"
    "(case r of Inl e \<Rightarrow> onboard (handle_failure B a c e) | Inr f \<Rightarrow> accept_frame B a c f) s2 = Some (Inr c', s')"
    using assms(1) unfolding capture_round_def by (auto elim!: bindIO_cases)
  have s1: "snd s1 = snd s" using onboard_cases [OF r(1)] by simp
  obtain r' where a: "onboard (capture_scanout_frame B t (ca_interval a)) s1 = Some (r, s2)"
    using r(2) by (auto simp: attempt_def)
  have s2: "snd s2 = snd s" "capture_scanout_frame B t (ca_interval a) (fst s1) = Some (r, fst s2)"
    using onboard_cases [OF a] s1 by simp_all
  show ?thesis
  proof (cases r)
    case (Inl e)
    then have h: "onboard (handle_failure B a c e) s2 = Some (Inr c', s')" using r(3) by simp
    have "cs_completed c' = cs_completed c" by (rule handle_completed [OF conjunct2 [OF onboard_cases [OF h]]])
    then show ?thesis using onboard_cases [OF h] s2(1) by simp
  next
    case (Inr f)
    note ok = capture_ok [OF s2(2) [unfolded Inr]]
    show ?thesis
    proof (cases "fr_width f \<noteq> ca_width a \<or> fr_height f \<noteq> ca_height a")
      case True
      then show ?thesis using r(3) Inr assms(3) s2(1) by (auto simp: accept_frame_def split: if_splits)
    next
      case False
      then obtain ns s3 u s4 where p: "onboard (now_ns B) s2 = Some (Inr ns, s3)" "publish a ns f s3 = Some (Inr u, s4)"
        "c' = c\<lparr>cs_empty_deadline := None, cs_completed := cs_completed c + 1\<rparr>" "s' = s4"
        using r(3) Inr by (auto simp: accept_frame_def elim!: bindIO_cases)
      obtain hdr where hdr: "pack_frame_header (frame_fields ns f) = Inr hdr" "snd s4 = snd s3 @ [Sent hdr, Sent (fr_payload f)]"
        using publish_stream [OF p(2) assms(2)] by blast
      have "frame_ok a (ns, f)" using hdr(1) ok False by (auto simp: frame_ok_def)
      moreover have "sent_bytes (snd s') = sent_bytes (snd s) @ packed (ns, f)"
        using hdr p(4) onboard_cases [OF p(1)] s2(1) by (simp add: packed_def sent_bytes_def)
      ultimately show ?thesis using p(3) by auto
    qed
  qed
qed

lemma loop_sends:
  fixes B :: "'h board"
  assumes "capture_loop B stop a c s = Some (Inr c', s')" "ca_stream a" "ca_width a \<noteq> 0"
  shows "\<exists>es. (\<forall>e \<in> set es. frame_ok a e) \<and> cs_completed c' = cs_completed c + int (length es) \<and>
    sent_bytes (snd s') = sent_bytes (snd s) @ concat (map packed es) \<and> (cs_completed c \<le> ca_frames a \<longrightarrow> cs_completed c' \<le> ca_frames a)"
proof -
  let ?Q = "\<lambda>(B :: 'h board) (stop :: 'h \<Rightarrow> bool) a' c (s :: 'h \<times> out_item list) (y :: (board_error + capture_state) \<times> ('h \<times> out_item list)). \<forall>c'. a' = a \<longrightarrow> fst y = Inr c' \<longrightarrow>
    (\<exists>es. (\<forall>e \<in> set es. frame_ok a e) \<and> cs_completed c' = cs_completed c + int (length es) \<and>
      sent_bytes (snd (snd y)) = sent_bytes (snd s) @ concat (map packed es) \<and> (cs_completed c \<le> ca_frames a \<longrightarrow> cs_completed c' \<le> ca_frames a))"
  have "?Q B stop a c s (Inr c', s')"
  proof (rule capture_loop.raw_induct [where P = ?Q, OF _ assms(1)], goal_cases)
    case (1 f B stop a' c s y)
    note hyp = 1(1)
    show ?case
    proof (intro allI impI)
      fix c'
      assume a': "a' = a" and y: "fst y = Inr c'"
      obtain s' where y': "y = (Inr c', s')" using y by (cases y) simp
      show "\<exists>es. (\<forall>e \<in> set es. frame_ok a e) \<and> cs_completed c' = cs_completed c + int (length es) \<and>
        sent_bytes (snd (snd y)) = sent_bytes (snd s) @ concat (map packed es) \<and> (cs_completed c \<le> ca_frames a \<longrightarrow> cs_completed c' \<le> ca_frames a)"
      proof (cases "cs_completed c < ca_frames a \<and> \<not> stop (fst s)")
        case False
        then have "c' = c" "s' = s" using 1(2) unfolding a' y' by (auto split: if_splits)
        then show ?thesis unfolding y' by (intro exI [of _ "[]"]) simp
      next
        case True
        then have "bindIO (capture_round B a c) (f B stop a) s = Some (Inr c', s')" using 1(2) unfolding a' y' by simp
        then obtain d s1 where d: "capture_round B a c s = Some (Inr d, s1)" "f B stop a d s1 = Some (Inr c', s')"
          by (auto elim!: bindIO_cases)
        obtain es where es: "\<forall>e \<in> set es. frame_ok a e" "cs_completed c' = cs_completed d + int (length es)"
          "sent_bytes (snd s') = sent_bytes (snd s1) @ concat (map packed es)" "cs_completed d \<le> ca_frames a \<longrightarrow> cs_completed c' \<le> ca_frames a"
          using hyp [OF d(2)] a' by auto
        from round_sends [OF d(1) assms(2,3)] show ?thesis
        proof
          assume "cs_completed d = cs_completed c \<and> snd s1 = snd s"
          then show ?thesis unfolding y' using es by (intro exI [of _ es]) simp
        next
          assume "cs_completed d = cs_completed c + 1 \<and> (\<exists>e. frame_ok a e \<and> sent_bytes (snd s1) = sent_bytes (snd s) @ packed e)"
          then obtain e where "cs_completed d = cs_completed c + 1" "frame_ok a e" "sent_bytes (snd s1) = sent_bytes (snd s) @ packed e" by blast
          then show ?thesis unfolding y' using es True by (intro exI [of _ "e # es"]) simp
        qed
      qed
    qed
  qed
  then show ?thesis by auto
qed

subsection \<open>What the decoder reads\<close>

lemma read_exact_append: "read_exact (xs @ ys) (length xs) = Inr (xs, ys)"
  by (simp add: read_exact_def)

definition entry :: "video_args \<Rightarrow> int \<Rightarrow> stamped \<Rightarrow> manifest_frame" where
  "entry v index e = manifest_of v index (frame_fields (fst e) (snd e))"

lemma decode_packed:
  assumes "frame_ok a e" "va_video v \<noteq> RawAvi" "vs_avi st = None" "vs_dims st = None \<or> vs_dims st = Some (ca_width a, ca_height a)"
  shows "\<exists>st'. decode_frame v announced index (packed e @ rest) st = Inr (rest, st') \<and> vs_frames st' = vs_frames st @ [entry v index e] \<and>
    vs_avi st' = None \<and> vs_dims st' = Some (ca_width a, ca_height a)"
proof -
  obtain ns f where e: "e = (ns, f)" by fastforce
  obtain hdr where hdr: "pack_frame_header (frame_fields ns f) = Inr hdr" using assms(1) by (auto simp: frame_ok_def e)
  have f: "fr_width f = ca_width a" "fr_height f = ca_height a" "fr_width f \<noteq> 0" "fr_height f \<noteq> 0" "fr_pixels f = fr_width f * fr_height f"
    "length (fr_payload f) = nat (fr_pixels f)" using assms(1) by (auto simp: frame_ok_def e)
  have seven: "length (frame_fields ns f) = 7" by (simp add: frame_fields_def)
  note h = frame_header_length [OF hdr seven]
  have one: "read_exact (packed e @ rest) 36 = Inr (hdr, fr_payload f @ rest)"
    using read_exact_append [of hdr] h(1) by (simp add: packed_def e hdr)
  have two: "read_exact (fr_payload f @ rest) (nat (fr_pixels f)) = Inr (fr_payload f, rest)"
    using read_exact_append [of "fr_payload f"] f(6) by simp
  have m: "mf_width (entry v index e) = fr_width f" "mf_height (entry v index e) = fr_height f" "mf_pixels (entry v index e) = fr_pixels f"
    by (simp_all add: entry_def e frame_fields_def)
  have crc: "frame_fields ns f ! 6 = crc32 (fr_payload f)" by (simp add: frame_fields_def)
  obtain st1 where st1: "start_video v announced index (fr_width f) (fr_height f) st = Inr st1" "vs_dims st1 = Some (ca_width a, ca_height a)"
    "vs_avi st1 = None" "vs_frames st1 = vs_frames st"
    using assms(2,3,4) f(1,2) by (auto simp: start_video_def)
  obtain st2 where st2: "store_frame v (entry v index e) (fr_payload f) st1 = Inr st2" "vs_dims st2 = Some (ca_width a, ca_height a)"
    "vs_avi st2 = None" "vs_frames st2 = vs_frames st @ [entry v index e]"
    using st1 by (cases "va_ppm v") (auto simp: store_frame_def Let_def)
  have ent: "manifest_of v index (frame_fields ns f) = entry v index e" by (simp add: entry_def e)
  have "decode_frame v announced index (packed e @ rest) st = Inr (rest, st2)"
    unfolding decode_frame_def one sum.case prod.case Let_def h(2,3) ent m crc using f(3,4,5) st1(1) st2(1) two by (simp add: f(5) [symmetric])
  then show ?thesis using st2 by blast
qed

lemma decode_all:
  assumes "\<forall>e \<in> set es. frame_ok a e" "va_video v \<noteq> RawAvi" "vs_avi st = None" "vs_dims st = None \<or> vs_dims st = Some (ca_width a, ca_height a)"
  shows "\<exists>st'. decode_loop v announced index (length es) (concat (map packed es)) st = Inr ([], st') \<and> vs_avi st' = None \<and>
    vs_frames st' = vs_frames st @ map (\<lambda>i. entry v (index + int i) (es ! i)) [0..<length es]"
  using assms(1,3,4)
proof (induction es arbitrary: index st)
  case (Cons e es)
  obtain st1 where d: "decode_frame v announced index (packed e @ concat (map packed es)) st = Inr (concat (map packed es), st1)"
    "vs_frames st1 = vs_frames st @ [entry v index e]" "vs_avi st1 = None" "vs_dims st1 = Some (ca_width a, ca_height a)"
    using decode_packed [of a e v st announced index "concat (map packed es)"] Cons.prems assms(2) by auto
  obtain st' where IH: "decode_loop v announced (index + 1) (length es) (concat (map packed es)) st1 = Inr ([], st')" "vs_avi st' = None"
    "vs_frames st' = vs_frames st1 @ map (\<lambda>i. entry v (index + 1 + int i) (es ! i)) [0..<length es]"
    using Cons.IH [of st1 "index + 1"] Cons.prems(1) d(3,4) by auto
  have "map (\<lambda>i. entry v (index + int i) ((e # es) ! i)) [0..<length (e # es)] =
      entry v index e # map (\<lambda>i. entry v (index + 1 + int i) (es ! i)) [0..<length es]"
    by (simp add: upt_conv_Cons map_Suc_upt [symmetric] add.assoc del: upt_Suc)
  then have "vs_frames st' = vs_frames st @ map (\<lambda>i. entry v (index + int i) ((e # es) ! i)) [0..<length (e # es)]"
    using IH(3) d(2) by simp
  then show ?case using IH(1,2) d(1) by (intro exI [of _ st']) simp
qed simp


definition demo_capture :: capture_args where
  "demo_capture = \<lparr>ca_frames = 1, ca_output = None, ca_stream = True, ca_width = 2, ca_height = 3, ca_timeout = 1000, ca_interval = 5, ca_skip = True\<rparr>"

definition demo_video :: video_args where
  "demo_video = \<lparr>va_ppm = False, va_video = NoVideo, va_fps = 30, va_clock_hz = 3125000\<rparr>"

lemma demo_payload: "crc32 [6, 1, 2, 3, 4, 0xE3] = 2950392602"
  by code_simp


end
