(* ===== verification/Vga_Avi.thy ===== *)
theory Vga_Avi
  imports Vga_Video
begin

text \<open>
  The AVI files of the decoder: a reader that follows the index of a finished file finds every frame that
  was written, as the image that a player shows.
\<close>

subsection \<open>Reading a file by its index\<close>

definition le32 :: "int list \<Rightarrow> nat \<Rightarrow> nat" where
  "le32 bs p = nat (from_le (take 4 (drop p bs)))"

definition chunk_at :: "int list \<Rightarrow> nat \<Rightarrow> int list \<times> int list" where
  "chunk_at bs p = (take 4 (drop p bs), take (le32 bs (p + 4)) (drop (p + 8) bs))"

definition avi_frames :: "int list \<Rightarrow> (int list \<times> int list) list" where
  "avi_frames bs = (let header = le32 bs 16; movi = 20 + header + header mod 2; idx = movi + 8 + le32 bs (movi + 4)
     in map (\<lambda>k. chunk_at bs (movi + 8 + le32 bs (idx + 8 + 16 * k + 8))) [0..<le32 bs (idx + 4) div 16])"

lemma le32_at:
  assumes "bs = A @ to_le 4 v @ R" "length A = p" "0 \<le> v" "v < 256 ^ 4"
  shows "le32 bs p = nat v"
  using assms by (simp add: le32_def from_packed)

lemma chunk_at_exact:
  assumes "bs = A @ tag @ to_le 4 (int (length body)) @ body @ R" "length A = p" "length tag = 4" "int (length body) < 256 ^ 4"
  shows "chunk_at bs p = (tag, body)"
proof -
  have "le32 bs (p + 4) = nat (int (length body))"
    by (rule le32_at [where A = "A @ tag" and R = "body @ R"]) (use assms in simp_all)
  moreover have "bs = (A @ tag @ to_le 4 (int (length body))) @ body @ R" using assms(1) by simp
  then have "drop (p + 8) bs = body @ R" using assms(2,3) by (metis (no_types) append_eq_conv_conj length_append to_le_length add.assoc numeral_Bit0)
  ultimately show ?thesis using assms(1,2,3) by (simp add: chunk_at_def)
qed

lemma drop_concat_fixed:
  assumes "\<forall>x \<in> set xs. length x = c" "k \<le> length xs"
  shows "drop (c * k) (concat xs) = concat (drop k xs)" "length (concat (take k xs)) = c * k"
  using assms by (induction xs arbitrary: k) (auto simp: drop_Cons take_Cons split: nat.splits)

subsection \<open>Chunks and images\<close>

definition chunk :: "string \<Rightarrow> int list \<Rightarrow> int list" where
  "chunk tag body = bytes_of tag @ to_le 4 (int (length body)) @ body @ (if odd (length body) then [0] else [])"

lemma riff_chunk_ok: "riff_chunk (bytes_of tag) body = Inr c \<longleftrightarrow> length tag = 4 \<and> int (length body) < 256 ^ 4 \<and> c = chunk tag body"
  by (auto simp: riff_chunk_def chunk_def bindE_def pack_le_def split: if_splits)

lemma swap_length [simp]: "length (swap_rgb xs) = length xs"
  by (induction xs rule: swap_rgb.induct) simp_all

lemma bgr_rows_length: "length rgb = line * h \<Longrightarrow> length (bgr_rows line padding h rgb) = (line + padding) * h"
  by (induction h arbitrary: rgb) (simp_all add: algebra_simps)

text \<open>What stays the same while frames are written, and what the target holds after some of them.\<close>

definition holds :: "avi \<Rightarrow> int list \<Rightarrow> int list list \<Rightarrow> bool" where
  "holds v start imgs \<longleftrightarrow> av_target v = start @ bytes_of ''LIST'' @ [0, 0, 0, 0] @ bytes_of ''movi'' @ concat (map (chunk ''00db'') imgs) \<and>
     av_movi v = length start \<and> av_written v = int (length imgs) \<and>
     av_index v = map (\<lambda>k. (4 + int k * (av_frame_bytes v + 8), av_frame_bytes v)) [0..<length imgs] \<and>
     (\<forall>i \<in> set imgs. int (length i) = av_frame_bytes v) \<and> 0 \<le> av_width v \<and> 0 \<le> av_height v \<and>
     av_row_bytes v = 4 * ((av_width v * 3 + 3) div 4) \<and> av_frame_bytes v = av_row_bytes v * av_height v"

lemma bgr_image_length:
  assumes "holds v start imgs" "int (length rgb) = av_width v * av_height v * 3"
  shows "int (length (bgr_image v rgb)) = av_frame_bytes v"
proof -
  have w: "0 \<le> av_width v" "0 \<le> av_height v" "av_width v * 3 \<le> av_row_bytes v" using assms(1) by (auto simp: holds_def)
  have "int (length rgb) = int (nat (av_width v * 3) * nat (av_height v))" using assms(2) w by (simp add: algebra_simps)
  then have "length rgb = nat (av_width v * 3) * nat (av_height v)" by (simp only: of_nat_eq_iff)
  then have "length (bgr_image v rgb) = (nat (av_width v * 3) + nat (av_row_bytes v - av_width v * 3)) * nat (av_height v)"
    unfolding bgr_image_def by (rule bgr_rows_length)
  then show ?thesis using w assms(1) by (simp add: holds_def)
qed

lemma chunk_length_even: "even (length body) \<Longrightarrow> length (chunk tag body) = length tag + 4 + length body"
  by (simp add: chunk_def)

lemma holds_even: "holds v start imgs \<Longrightarrow> even (av_frame_bytes v)"
  by (simp add: holds_def)

lemma holds_chunk:
  assumes "holds v start imgs" "img \<in> set imgs"
  shows "length img = nat (av_frame_bytes v)" "length (chunk ''00db'' img) = nat (av_frame_bytes v) + 8"
proof -
  have i: "int (length img) = av_frame_bytes v" using assms by (simp add: holds_def)
  then show "length img = nat (av_frame_bytes v)" by simp
  have "even (int (length img))" using holds_even [OF assms(1)] i by simp
  then have "even (length img)" by simp
  then show "length (chunk ''00db'' img) = nat (av_frame_bytes v) + 8" using i by (simp add: chunk_length_even)
qed

lemma written_step:
  assumes "holds v start imgs" "avi_write v rgb = Inr v'"
  shows "holds v' start (imgs @ [bgr_image v rgb])" "av_width v' = av_width v" "av_height v' = av_height v" "av_row_bytes v' = av_row_bytes v"
    "av_frames v' = av_frames v" "int (length rgb) = av_width v * av_height v * 3"
proof -
  have w: "int (length rgb) = av_width v * av_height v * 3" "int (length (bgr_image v rgb)) < 256 ^ 4"
    "v' = v\<lparr>av_target := av_target v @ chunk ''00db'' (bgr_image v rgb), av_written := av_written v + 1,
       av_index := av_index v @ [(int (length (av_target v)) - int (av_movi v + 8), av_frame_bytes v)]\<rparr>"
    using assms(2) by (auto simp: avi_write_def bindE_def riff_chunk_ok split: if_splits sum.splits)
  note len = bgr_image_length [OF assms(1) w(1)]
  have each: "\<forall>x \<in> set (map (chunk ''00db'') imgs). length x = nat (av_frame_bytes v) + 8"
    using holds_chunk(2) [OF assms(1)] by simp
  have "length (concat (take (length imgs) (map (chunk ''00db'') imgs))) = (nat (av_frame_bytes v) + 8) * length imgs"
    by (rule drop_concat_fixed(2) [OF each]) simp
  then have "length (concat (map (chunk ''00db'') imgs)) = (nat (av_frame_bytes v) + 8) * length imgs" by simp
  moreover have "0 \<le> av_frame_bytes v" using len by linarith
  ultimately have "int (length (av_target v)) - int (av_movi v + 8) = 4 + int (length imgs) * (av_frame_bytes v + 8)"
    using assms(1) by (simp add: holds_def algebra_simps)
  then show "holds v' start (imgs @ [bgr_image v rgb])" using assms(1) len w(3) by (auto simp: holds_def)
  show "av_width v' = av_width v" "av_height v' = av_height v" "av_row_bytes v' = av_row_bytes v" "av_frames v' = av_frames v" "int (length rgb) = av_width v * av_height v * 3"
    using w by simp_all
qed

lemma written_all:
  assumes "holds v start imgs" "foldE avi_write v rgbs = Inr v'"
  shows "holds v' start (imgs @ map (bgr_image v) rgbs)"
  using assms
proof (induction rgbs arbitrary: v imgs)
  case (Cons rgb rgbs)
  obtain u where u: "avi_write v rgb = Inr u" "foldE avi_write u rgbs = Inr v'"
    using Cons.prems(2) by (auto simp: bindE_def split: sum.splits)
  note s = written_step [OF Cons.prems(1) u(1)]
  have "bgr_image u = bgr_image v" using s(2,3,4) by (simp add: bgr_image_def fun_eq_iff)
  then show ?case using Cons.IH [OF s(1) u(2)] by simp
qed simp

subsection \<open>A finished file\<close>

lemma overwrite_at: "length A = p \<Longrightarrow> length bs = length Z \<Longrightarrow> overwrite p bs (A @ Z @ R) = A @ bs @ R"
  by (simp add: overwrite_def)

definition index_entry :: "int \<times> int \<Rightarrow> int list" where
  "index_entry e = bytes_of ''00db'' @ to_le 4 0x10 @ to_le 4 (fst e) @ to_le 4 (snd e)"

lemma index_entry_length [simp]: "length (index_entry e) = 16"
  by (simp add: index_entry_def)

lemma index_entries_ok:
  assumes "index_entries is = Inr es"
  shows "es = concat (map index_entry is) \<and> (\<forall>e \<in> set is. 0 \<le> fst e \<and> fst e < 256 ^ 4)"
  using assms
proof (induction "is" arbitrary: es)
  case (Cons x rest)
  obtain off sz where x: "x = (off, sz)" by fastforce
  have p: "packs [(4, False, 0x10), (4, False, off), (4, False, sz)] = (if 0 \<le> off \<and> off < 256 ^ 4 \<and> 0 \<le> sz \<and> sz < 256 ^ 4
      then Inr (to_le 4 0x10 @ to_le 4 off @ to_le 4 sz) else Inl StructError)"
    by (simp add: packs_def bindE_def pack_le_def)
  obtain es' where "index_entries rest = Inr es'" "0 \<le> off" "off < 256 ^ 4" "es = bytes_of ''00db'' @ (to_le 4 0x10 @ to_le 4 off @ to_le 4 sz) @ es'"
    using Cons.prems unfolding x index_entries.simps p by (auto simp: bindE_def split: if_splits sum.splits)
  then show ?case using Cons.IH [of es'] by (auto simp: index_entry_def x)
qed simp

definition avi_start :: "int list \<Rightarrow> int list" where
  "avi_start hdrl = bytes_of ''RIFF'' @ [0, 0, 0, 0] @ bytes_of ''AVI '' @ chunk ''LIST'' (bytes_of ''hdrl'' @ hdrl)"

lemma open_holds:
  assumes "avi_open w h fps n = Inr v" "0 \<le> w" "0 \<le> h"
  shows "\<exists>hdrl. holds v (avi_start hdrl) [] \<and> int (length (bytes_of ''hdrl'' @ hdrl)) < 256 ^ 4 \<and> av_frames v = n"
proof -
  obtain hdrl l where l: "riff_chunk (bytes_of ''LIST'') (bytes_of ''hdrl'' @ hdrl) = Inr l"
    "v = \<lparr>av_width = w, av_height = h, av_frames = n, av_row_bytes = (w * 3 + 3) AND NOT 3, av_frame_bytes = ((w * 3 + 3) AND NOT 3) * h,
       av_written = 0, av_target = (bytes_of ''RIFF'' @ [0, 0, 0, 0] @ bytes_of ''AVI '' @ l) @ bytes_of ''LIST'' @ [0, 0, 0, 0] @ bytes_of ''movi'',
       av_movi = length (bytes_of ''RIFF'' @ [0, 0, 0, 0] @ bytes_of ''AVI '' @ l), av_index = []\<rparr>"
    using assms(1) unfolding avi_open_def Let_def riff_list_def by (auto simp: bindE_def split: if_splits sum.splits)
  have "l = chunk ''LIST'' (bytes_of ''hdrl'' @ hdrl)" "int (length (bytes_of ''hdrl'' @ hdrl)) < 256 ^ 4" using l(1) unfolding riff_chunk_ok by blast+
  then show ?thesis using l(2) assms(2,3) unfolding holds_def avi_start_def drop_low_bits by (intro exI [of _ hdrl]) simp
qed

lemma close_file:
  assumes "holds v (avi_start hdrl) imgs" "avi_close v = Inr file"
  defines "body \<equiv> concat (map (chunk ''00db'') imgs)" and "es \<equiv> concat (map index_entry (av_index v))"
  shows "\<exists>m. file = bytes_of ''RIFF'' @ to_le 4 m @ bytes_of ''AVI '' @ chunk ''LIST'' (bytes_of ''hdrl'' @ hdrl) @ bytes_of ''LIST'' @
      to_le 4 (4 + int (length body)) @ bytes_of ''movi'' @ body @ chunk ''idx1'' es \<and> m = int (length file) - 8 \<and> 0 \<le> m \<and> m < 256 ^ 4 \<and>
    int (length es) < 256 ^ 4 \<and> 4 + int (length body) < 256 ^ 4 \<and> (\<forall>e \<in> set (av_index v). 0 \<le> fst e \<and> fst e < 256 ^ 4) \<and> av_written v = av_frames v"
proof -
  let ?s = "avi_start hdrl"
  let ?n = "int (length (av_target v)) - int (av_movi v + 8)"
  have n: "?n = 4 + int (length body)" using assms(1) by (simp add: holds_def body_def)
  obtain es' c m where c: "index_entries (av_index v) = Inr es'" "riff_chunk (bytes_of ''idx1'') es' = Inr c" "0 \<le> ?n" "?n < 256 ^ 4" "av_written v = av_frames v"
    "m = int (length (overwrite (av_movi v + 4) (to_le 4 ?n) (av_target v) @ c)) - 8" "0 \<le> m" "m < 256 ^ 4"
    "file = overwrite 4 (to_le 4 m) (overwrite (av_movi v + 4) (to_le 4 ?n) (av_target v) @ c)"
    using assms(2) unfolding avi_close_def Let_def by (auto simp: bindE_def pack_le_ok split: if_splits sum.splits)
  note ix = index_entries_ok [OF c(1)]
  have c': "c = chunk ''idx1'' es" "int (length es) < 256 ^ 4" using c(2) ix unfolding riff_chunk_ok es_def by auto
  have "overwrite (av_movi v + 4) (to_le 4 ?n) (av_target v) = (?s @ bytes_of ''LIST'') @ to_le 4 ?n @ bytes_of ''movi'' @ body"
  proof -
    have "av_target v = (?s @ bytes_of ''LIST'') @ [0, 0, 0, 0] @ bytes_of ''movi'' @ body" "av_movi v + 4 = length (?s @ bytes_of ''LIST'')"
      using assms(1) by (simp_all add: holds_def body_def)
    then show ?thesis by (simp only:) (rule overwrite_at, simp_all)
  qed
  then have inner: "overwrite (av_movi v + 4) (to_le 4 ?n) (av_target v) @ c = bytes_of ''RIFF'' @ [0, 0, 0, 0] @ (bytes_of ''AVI '' @
      chunk ''LIST'' (bytes_of ''hdrl'' @ hdrl) @ bytes_of ''LIST'' @ to_le 4 ?n @ bytes_of ''movi'' @ body @ c)" by (simp add: avi_start_def)
  have whole: "file = bytes_of ''RIFF'' @ to_le 4 m @ (bytes_of ''AVI '' @ chunk ''LIST'' (bytes_of ''hdrl'' @ hdrl) @ bytes_of ''LIST'' @ to_le 4 ?n @
      bytes_of ''movi'' @ body @ c)"
    unfolding c(9) inner by (rule overwrite_at) simp_all
  have "length file = length (overwrite (av_movi v + 4) (to_le 4 ?n) (av_target v) @ c)" unfolding whole inner by simp
  then have "m = int (length file) - 8" using c(6) by simp
  then show ?thesis using whole [unfolded n] c(3) [unfolded n] c(4) [unfolded n] c(5,7,8) c' ix
    by (intro exI [of _ m]) simp
qed

lemma concat_split: "k < length xs \<Longrightarrow> concat xs = concat (take k xs) @ xs ! k @ concat (drop (Suc k) xs)"
  by (metis concat.simps(2) concat_append id_take_nth_drop)

lemma file_frames:
  assumes "holds v (avi_start hdrl) imgs" "avi_close v = Inr file" "int (length (bytes_of ''hdrl'' @ hdrl)) < 256 ^ 4"
  shows "avi_frames file = map (\<lambda>img. (bytes_of ''00db'', img)) imgs \<and> int (length imgs) = av_frames v \<and>
    take 4 file = bytes_of ''RIFF'' \<and> le32 file 4 + 8 = length file"
proof -
  define body where "body = concat (map (chunk ''00db'') imgs)"
  define es where "es = concat (map index_entry (av_index v))"
  define pay where "pay = bytes_of ''hdrl'' @ hdrl"
  define c0 where "c0 = chunk ''LIST'' pay"
  define N where "N = length imgs"
  define F where "F = nat (av_frame_bytes v)"
  obtain m where whole: "file = bytes_of ''RIFF'' @ to_le 4 m @ bytes_of ''AVI '' @ c0 @ bytes_of ''LIST'' @ to_le 4 (4 + int (length body)) @
      bytes_of ''movi'' @ body @ chunk ''idx1'' es" "m = int (length file) - 8" "0 \<le> m" "m < 256 ^ 4" "int (length es) < 256 ^ 4"
    "4 + int (length body) < 256 ^ 4" "\<forall>e \<in> set (av_index v). 0 \<le> fst e \<and> fst e < 256 ^ 4" "av_written v = av_frames v"
    using close_file [OF assms(1,2)] unfolding body_def es_def c0_def pay_def by blast
  have c0: "c0 = bytes_of ''LIST'' @ to_le 4 (int (length pay)) @ pay @ (if odd (length pay) then [0] else [])"
    "length c0 = 8 + length pay + length pay mod 2" by (simp_all add: c0_def chunk_def odd_iff_mod_2_eq_one)
  define movi where "movi = 12 + length c0"
  define idx where "idx = movi + 12 + length body"
  have index: "av_index v = map (\<lambda>k. (4 + int k * (av_frame_bytes v + 8), av_frame_bytes v)) [0..<N]"
    and imgs: "\<forall>i \<in> set imgs. int (length i) = av_frame_bytes v" using assms(1) by (simp_all add: holds_def N_def)
  have "length (concat (take N (map index_entry (av_index v)))) = 16 * N"
    by (rule drop_concat_fixed(2)) (simp_all add: index)
  then have esl: "length es = 16 * N" by (simp add: es_def index)
  have h16: "le32 file 16 = length pay"
    using le32_at [where bs = "file" and p = 16 and A = "bytes_of ''RIFF'' @ to_le 4 m @ bytes_of ''AVI '' @ bytes_of ''LIST''" and v = "int (length pay)"
      and R = "pay @ (if odd (length pay) then [0] else []) @ bytes_of ''LIST'' @ to_le 4 (4 + int (length body)) @ bytes_of ''movi'' @ body @ chunk ''idx1'' es"]
      assms(3) by (simp add: whole(1) c0(1) pay_def)
  have hm: "le32 file (movi + 4) = 4 + length body"
    using le32_at [where bs = "file" and p = "movi + 4" and A = "bytes_of ''RIFF'' @ to_le 4 m @ bytes_of ''AVI '' @ c0 @ bytes_of ''LIST''"
      and v = "4 + int (length body)" and R = "bytes_of ''movi'' @ body @ chunk ''idx1'' es"] whole(6) by (simp add: whole(1) movi_def nat_add_distrib)
  let ?pre = "bytes_of ''RIFF'' @ to_le 4 m @ bytes_of ''AVI '' @ c0 @ bytes_of ''LIST'' @ to_le 4 (4 + int (length body)) @ bytes_of ''movi''"
  have tail: "file = ?pre @ body @ bytes_of ''idx1'' @ to_le 4 (int (length es)) @ es" using esl by (simp add: whole(1) chunk_def)
  have hi: "le32 file (idx + 4) = 16 * N"
    using le32_at [where bs = "file" and p = "idx + 4" and A = "?pre @ body @ bytes_of ''idx1''" and v = "int (length es)" and R = es] tail whole(5) esl
    by (simp add: idx_def movi_def)
  have entry: "le32 file (idx + 8 + 16 * k + 8) = 4 + k * (F + 8)" if k: "k < N" for k
  proof -
    have F: "0 \<le> av_frame_bytes v" using imgs k unfolding N_def by (metis nth_mem of_nat_0_le_iff)
    let ?ents = "map index_entry (av_index v)"
    have kl: "k < length ?ents" using k by (simp add: index)
    have e: "?ents ! k = bytes_of ''00db'' @ to_le 4 0x10 @ to_le 4 (4 + int k * (av_frame_bytes v + 8)) @ to_le 4 (av_frame_bytes v)"
      using k by (simp add: index index_entry_def)
    have es: "es = concat (take k ?ents) @ (?ents ! k) @ concat (drop (Suc k) ?ents)" unfolding es_def by (rule concat_split [OF kl])
    have tl: "length (concat (take k ?ents)) = 16 * k" by (rule drop_concat_fixed(2)) (use kl in \<open>auto simp: index\<close>)
    have r: "0 \<le> 4 + int k * (av_frame_bytes v + 8)" "4 + int k * (av_frame_bytes v + 8) < 256 ^ 4" using whole(7) k by (auto simp: index)
    have "le32 file (idx + 8 + 16 * k + 8) = nat (4 + int k * (av_frame_bytes v + 8))"
      by (rule le32_at [where A = "?pre @ body @ bytes_of ''idx1'' @ to_le 4 (int (length es)) @ concat (take k ?ents) @ bytes_of ''00db'' @ to_le 4 0x10"
        and R = "to_le 4 (av_frame_bytes v) @ concat (drop (Suc k) ?ents)"])
        (use tail es e tl r in \<open>simp_all add: idx_def movi_def\<close>)
    also have "\<dots> = 4 + k * (F + 8)" using F by (simp add: F_def nat_add_distrib nat_mult_distrib)
    finally show ?thesis .
  qed
  have image: "chunk_at file (movi + 8 + (4 + k * (F + 8))) = (bytes_of ''00db'', imgs ! k)" if k: "k < N" for k
  proof -
    let ?cs = "map (chunk ''00db'') imgs"
    have kl: "k < length ?cs" using k by (simp add: N_def)
    have len: "length (imgs ! k) = F" "length (chunk ''00db'' (imgs ! k)) = F + 8" using holds_chunk [OF assms(1)] k by (simp_all add: N_def F_def)
    have ev: "even (length (imgs ! k))" using len by (simp add: chunk_def split: if_splits)
    have each: "\<forall>x \<in> set ?cs. length x = F + 8" using holds_chunk(2) [OF assms(1)] by (simp add: F_def)
    have tl: "length (concat (take k ?cs)) = (F + 8) * k" by (rule drop_concat_fixed(2) [OF each]) (use kl in simp)
    have b: "body = concat (take k ?cs) @ (?cs ! k) @ concat (drop (Suc k) ?cs)" unfolding body_def by (rule concat_split [OF kl])
    have c: "?cs ! k = bytes_of ''00db'' @ to_le 4 (int (length (imgs ! k))) @ imgs ! k" using kl ev by (simp add: chunk_def)
    have "length (imgs ! k) \<le> length body" using b c by simp
    then have "int (length (imgs ! k)) < 256 ^ 4" using whole(6) by linarith
    then show ?thesis
      by (intro chunk_at_exact [where A = "?pre @ concat (take k ?cs)" and R = "concat (drop (Suc k) ?cs) @ bytes_of ''idx1'' @ to_le 4 (int (length es)) @ es"])
        (use tail b c tl in \<open>simp_all add: movi_def algebra_simps\<close>)
  qed
  have "avi_frames file = map (\<lambda>k. chunk_at file (movi + 8 + le32 file (idx + 8 + 16 * k + 8))) [0..<N]"
  proof -
    have m: "20 + le32 file 16 + le32 file 16 mod 2 = movi" by (simp add: h16 movi_def c0(2))
    have i: "movi + 8 + le32 file (movi + 4) = idx" by (simp add: hm idx_def)
    show ?thesis unfolding avi_frames_def Let_def m i hi by simp
  qed
  also have "\<dots> = map (\<lambda>k. (bytes_of ''00db'', imgs ! k)) [0..<N]" using entry image by simp
  also have "\<dots> = map (\<lambda>img. (bytes_of ''00db'', img)) imgs" unfolding N_def by (rule nth_equalityI) simp_all
  finally have "avi_frames file = map (\<lambda>img. (bytes_of ''00db'', img)) imgs" .
  moreover have "take 4 file = bytes_of ''RIFF''" by (simp add: whole(1))
  moreover have "le32 file 4 = nat m"
    by (rule le32_at [where A = "bytes_of ''RIFF''"]) (use whole(1,3,4) in simp_all)
  ultimately show ?thesis using whole(2,3,8) assms(1) by (simp add: holds_def)
qed

lemma frames_kept: "foldE avi_write v rgbs = Inr v' \<Longrightarrow> av_frames v' = av_frames v"
proof (induction rgbs arbitrary: v)
  case (Cons rgb rgbs)
  then show ?case by (auto simp: bindE_def avi_write_def split: if_splits sum.splits)
qed simp



end
