(* ===== verification/Board_Rings.thy ===== *)
theory Board_Rings
  imports Board_Mmio
begin

text \<open>
  The forensic rings in fpga/board-tools/ven_board_probe.py: copying the ring of retired instructions and
  the ring of core accesses, the probes that dump them, and the sparse text screen that vga-ring-text
  reconstructs from the second one.
\<close>

subsection \<open>Copying the rings\<close>

text \<open>A computation and the clean-up that runs after it, whether or not it raised an exception.\<close>

definition finallyIO :: "('e, 's, 'a) eio \<Rightarrow> ('e, 's, unit) eio \<Rightarrow> ('e, 's, 'a) eio" where
  "finallyIO m c s = Option.bind (m s) (\<lambda>(r, s). bindIO c (\<lambda>_ s. Some (r, s)) s)"

record pc_entry =
  pe_offset :: int
  pe_cs :: string
  pe_eip :: string
  pe_state :: int
  pe_linear :: string

definition pc_entry_of :: "int \<Rightarrow> int \<Rightarrow> int \<Rightarrow> pc_entry" where
  "pc_entry_of index eip aux = (let cs = aux AND 0xFFFF
     in \<lparr>pe_offset = index, pe_cs = hex_pad 4 cs, pe_eip = hex_pad 8 eip, pe_state = drop_bit 16 aux AND 0x3F,
          pe_linear = hex_pad 8 (push_bit 4 cs + eip)\<rparr>)"

fun pc_entries :: "'h board \<Rightarrow> int list \<Rightarrow> ('h, pc_entry list) bio" where
  "pc_entries B [] = retIO []"
| "pc_entries B (index # rest) = bindIO (poke B W_DBG_CTL index) (\<lambda>_. bindIO (rd32 B R_DBG_TRPC) (\<lambda>_.
     bindIO (rd32 B R_DBG_TRPC) (\<lambda>eip. bindIO (rd32 B R_DBG_TRAUX) (\<lambda>aux. bindIO (pc_entries B rest) (\<lambda>es.
       retIO (pc_entry_of index eip aux # es))))))"

definition read_pc_ring :: "'h board \<Rightarrow> int \<Rightarrow> ('h, pc_entry list) bio" where
  "read_pc_ring B depth = finallyIO (pc_entries B [0 .. depth - 1]) (poke B W_DBG_CTL 0)"

record core_entry =
  ce_offset :: int
  ce_address :: string
  ce_data :: string
  ce_state :: int
  ce_retire :: bool
  ce_inta :: bool
  ce_aux :: string

definition core_entry_of :: "int \<Rightarrow> int \<Rightarrow> int \<Rightarrow> int \<Rightarrow> core_entry" where
  "core_entry_of index address data aux =
    \<lparr>ce_offset = index, ce_address = hex_pad 8 address, ce_data = hex_pad 8 data, ce_state = drop_bit 2 aux AND 0x3F,
      ce_retire = (drop_bit 1 aux AND 1 \<noteq> 0), ce_inta = (aux AND 1 \<noteq> 0), ce_aux = hex_pad 8 aux\<rparr>"

fun core_entries :: "'h board \<Rightarrow> int list \<Rightarrow> ('h, core_entry list) bio" where
  "core_entries B [] = retIO []"
| "core_entries B (index # rest) = bindIO (poke B W_DBG_CTL index) (\<lambda>_. bindIO (rd32 B R_DBG_RDADDR) (\<lambda>_.
     bindIO (rd32 B R_DBG_RDADDR) (\<lambda>address. bindIO (rd32 B R_DBG_RDDATA) (\<lambda>data. bindIO (rd32 B R_DBG_RDDATA_HI) (\<lambda>aux.
       bindIO (core_entries B rest) (\<lambda>es. retIO (core_entry_of index address data aux # es)))))))"

definition read_core_observe_ring :: "'h board \<Rightarrow> int \<Rightarrow> ('h, core_entry list) bio" where
  "read_core_observe_ring B depth = finallyIO (core_entries B [0 .. depth - 1]) (poke B W_DBG_CTL 0)"

subsection \<open>The probes\<close>

definition frozen_of :: "int \<Rightarrow> bool" where "frozen_of info \<longleftrightarrow> drop_bit 31 info AND 1 \<noteq> 0"

text \<open>What is printed: the frozen flag, both instruction pointers, the count, and the entries.\<close>

definition dump_ring_probe :: "'h board \<Rightarrow> bool \<Rightarrow> int \<Rightarrow> ('h, bool \<times> int \<times> int \<times> int \<times> pc_entry list) bio" where
  "dump_ring_probe B allow_live depth = bindIO (open_mmio B) (\<lambda>_. bindIO (rd32 B R_DBG_FRZINFO) (\<lambda>info.
     if \<not> frozen_of info \<and> \<not> allow_live then failIO RingLive
     else bindIO (rd32 B R_DBG_FRZEIP) (\<lambda>frz. bindIO (rd32 B R_DBG_LASTEIP) (\<lambda>last.
       bindIO (read_pc_ring B depth) (\<lambda>es. retIO (frozen_of info, frz, last, info AND 0x3F, es))))))"

definition dump_core_observe_ring_probe :: "'h board \<Rightarrow> bool \<Rightarrow> int \<Rightarrow> ('h, core_entry list) bio" where
  "dump_core_observe_ring_probe B allow_live depth = bindIO (open_mmio B) (\<lambda>_. bindIO (rd32 B R_DBG_FRZINFO) (\<lambda>info.
     if \<not> frozen_of info \<and> \<not> allow_live then failIO RingLive
     else if depth < 1 \<or> 128 < depth then failIO BadDepth
     else read_core_observe_ring B depth))"

subsection \<open>A sparse text screen\<close>

definition byte_count :: "int \<Rightarrow> int" where
  "byte_count data = max 1 ((int (bit_length data) + 7) div 8)"

definition put_byte :: "int \<Rightarrow> int \<Rightarrow> int \<Rightarrow> int option list \<Rightarrow> int option list" where
  "put_byte address data index chars =
    (let byte_address = address + index
     in if \<not> (VGA_TEXT_BASE \<le> byte_address \<and> byte_address < VGA_TEXT_BASE + VGA_TEXT_SIZE) then chars
        else let relative = byte_address - VGA_TEXT_BASE
          in if relative AND 1 \<noteq> 0 then chars
             else chars[nat (relative div 2) := Some (drop_bit (nat (index * 8)) data AND 0xFF)])"

definition put_entry :: "core_entry \<Rightarrow> int option list \<Rightarrow> int option list" where
  "put_entry e chars = (let address = the (py_int 16 (ce_address e)); data = the (py_int 16 (ce_data e))
     in fold (put_byte address data) [0 .. byte_count data - 1] chars)"

definition screen_cells :: "core_entry list \<Rightarrow> int option list" where
  "screen_cells entries = fold put_entry (rev entries) (replicate (80 * 25) None)"

text \<open>The runs of known cells of one row: where each starts, and its characters.\<close>

function row_runs :: "nat \<Rightarrow> int option list \<Rightarrow> (nat \<times> int list) list" where
  "row_runs col [] = []"
| "row_runs col (None # cells) = row_runs (col + 1) cells"
| "row_runs col (Some v # cells) = (let run = map the (takeWhile (\<lambda>c. c \<noteq> None) (Some v # cells))
     in (col, run) # row_runs (col + length run) (dropWhile (\<lambda>c. c \<noteq> None) cells))"
  by pat_completeness auto
termination by (relation "measure (\<lambda>(col, cells). length cells)") (auto simp: le_imp_less_Suc length_dropWhile_le)

definition render_char :: "int \<Rightarrow> string" where
  "render_char v = (if 0x20 \<le> v \<and> v < 0x7F then [char_of v] else [CHR 0x5C, CHR ''x''] @ hex_pad 2 v)"

definition render_run :: "nat \<Rightarrow> nat \<times> int list \<Rightarrow> string" where
  "render_run row r = (case r of (start, run) \<Rightarrow> zfill 2 (dec (int row)) @ '':'' @ zfill 2 (dec (int start)) @ ''-'' @
     zfill 2 (dec (int (start + length run) - 1)) @ '' '' @ concat (map render_char run))"

definition row_cells :: "int option list \<Rightarrow> nat \<Rightarrow> int option list" where
  "row_cells chars row = take 80 (drop (row * 80) chars)"

definition sparse_vga_ring_lines :: "core_entry list \<Rightarrow> string list" where
  "sparse_vga_ring_lines entries = (let chars = screen_cells entries
     in concat (map (\<lambda>row. map (render_run row) (row_runs 0 (row_cells chars row))) [0..<25]))"

definition vga_ring_text_probe :: "'h board \<Rightarrow> bool \<Rightarrow> int \<Rightarrow> ('h, int \<times> bool \<times> string list) bio" where
  "vga_ring_text_probe B allow_live depth =
    (if depth < 1 \<or> 128 < depth then failIO BadDepth
     else bindIO (open_mmio B) (\<lambda>_. bindIO (rd32 B R_DBG_FRZINFO) (\<lambda>info.
       if \<not> frozen_of info \<and> \<not> allow_live then failIO RingLive
       else bindIO (read_core_observe_ring B depth) (\<lambda>entries.
         retIO (int (length entries), frozen_of info, sparse_vga_ring_lines entries)))))"

end
