(* ===== verification/Board_Walk.thy ===== *)
theory Board_Walk
  imports Board_Rings
begin

text \<open>
  The probes of fpga/board-tools/ven_board_probe.py that look into the memory of a protected-mode client:
  the walk of its page tables (written out four times in the source), linear-peek, the Quake progress and
  completion probes, and the trap on the record of a diagnostic exception frame. The mapped guest memory
  is a parameter: a read of 32 bits at an offset returns a value and may change the state of the hardware.
\<close>

subsection \<open>The walk\<close>

type_synonym 'h guest = "int \<Rightarrow> 'h \<Rightarrow> int \<times> 'h"

definition gu32 :: "'h guest \<Rightarrow> int \<Rightarrow> int \<Rightarrow> ('h, int) bio" where
  "gu32 G ram_size off h = (if ram_size < off + 4 then Some (Inl StructError, h) else case G off h of (v, h) \<Rightarrow> Some (Inr v, h))"

definition walk :: "'h guest \<Rightarrow> int \<Rightarrow> int \<Rightarrow> int \<Rightarrow> int \<Rightarrow> ('h, int) bio" where
  "walk G ram_size cr3 extent laddr =
    (let pde_addr = (cr3 AND 0xFFFFF000) + (drop_bit 22 laddr AND 0x3FF) * 4
     in if ram_size < pde_addr + 4 then failIO (Walk (PdeOutside pde_addr))
        else bindIO (gu32 G ram_size pde_addr) (\<lambda>pde.
          if pde AND 1 = 0 then failIO (Walk (PdeAbsent laddr pde))
          else bindIO (if pde AND 0x80 \<noteq> 0 then retIO ((pde AND 0xFFC00000) OR (laddr AND 0x003FFFFF))
              else let pte_addr = (pde AND 0xFFFFF000) + (drop_bit 12 laddr AND 0x3FF) * 4
                in if ram_size < pte_addr + 4 then failIO (Walk (PteOutside pte_addr))
                   else bindIO (gu32 G ram_size pte_addr) (\<lambda>pte.
                     if pte AND 1 = 0 then failIO (Walk (PteAbsent laddr pte))
                     else retIO ((pte AND 0xFFFFF000) OR (laddr AND 0xFFF))))
            (\<lambda>physical. if ram_size < physical + extent then failIO (Walk (MapsOutside laddr physical)) else retIO physical)))"

definition linear_u32 :: "'h guest \<Rightarrow> int \<Rightarrow> int \<Rightarrow> int \<Rightarrow> ('h, int \<times> int) bio" where
  "linear_u32 G ram_size cr3 laddr = bindIO (walk G ram_size cr3 4 laddr) (\<lambda>physical.
     bindIO (gu32 G ram_size physical) (\<lambda>value. retIO (value, physical)))"

subsection \<open>Peeking\<close>

fun peek_loop :: "'h guest \<Rightarrow> int \<Rightarrow> int \<Rightarrow> int \<Rightarrow> int list \<Rightarrow> ('h, (int \<times> int \<times> int) list) bio" where
  "peek_loop G ram_size cr3 laddr [] = retIO []"
| "peek_loop G ram_size cr3 laddr (index # rest) = bindIO (walk G ram_size cr3 4 (laddr + 4 * index)) (\<lambda>physical.
     bindIO (gu32 G ram_size physical) (\<lambda>value. bindIO (peek_loop G ram_size cr3 laddr rest) (\<lambda>rows.
       retIO ((laddr + 4 * index, physical, value) # rows))))"

definition linear_peek_probe :: "'h board \<Rightarrow> 'h guest \<Rightarrow> int \<Rightarrow> int \<Rightarrow> int \<Rightarrow> int \<Rightarrow> ('h, (int \<times> int \<times> int) list) bio" where
  "linear_peek_probe B G ram_size cr3 laddr count =
    (if count < 1 \<or> 64 < count then failIO BadWords
     else bindIO (open_mmio B) (\<lambda>_. peek_loop G ram_size cr3 laddr [0 .. count - 1]))"

subsection \<open>Progress of a timedemo\<close>

text \<open>A line: whether the demo runs, the two frame counters, the demo frames, both physical addresses, EIP.\<close>

type_synonym progress = "bool \<times> int \<times> int \<times> int \<times> int \<times> int \<times> int"

definition progress_sample :: "'h board \<Rightarrow> 'h guest \<Rightarrow> int \<Rightarrow> int \<Rightarrow> int \<Rightarrow> ('h, progress) bio" where
  "progress_sample B G ram_size cr3 ds_base =
    bindIO (linear_u32 G ram_size cr3 (ds_base + 0x6C980)) (\<lambda>(demo_active, _).
    bindIO (linear_u32 G ram_size cr3 (ds_base + 0x6C988)) (\<lambda>(demo_file, _).
    bindIO (linear_u32 G ram_size cr3 (ds_base + 0x95BB4)) (\<lambda>(frame_count, frame_phys).
    bindIO (linear_u32 G ram_size cr3 (ds_base + 0x6C990)) (\<lambda>(start_frame, start_phys).
    let demo_frames = (if demo_active \<noteq> 0 \<and> demo_file \<noteq> 0 \<and> start_frame < frame_count then frame_count - start_frame - 1 else 0)
    in bindIO (rd32 B R_DBG_LASTEIP) (\<lambda>eip.
      retIO (demo_active \<noteq> 0 \<and> demo_file \<noteq> 0, frame_count, start_frame, demo_frames, frame_phys, start_phys, eip))))))"

fun progress_loop :: "'h board \<Rightarrow> 'h guest \<Rightarrow> int \<Rightarrow> int \<Rightarrow> int \<Rightarrow> int \<Rightarrow> nat \<Rightarrow> ('h, progress list) bio" where
  "progress_loop B G ram_size cr3 ds_base interval 0 = retIO []"
| "progress_loop B G ram_size cr3 ds_base interval (Suc n) = bindIO (progress_sample B G ram_size cr3 ds_base) (\<lambda>line.
     bindIO (if n \<noteq> 0 then sleep B interval else retIO ()) (\<lambda>_.
       bindIO (progress_loop B G ram_size cr3 ds_base interval n) (\<lambda>lines. retIO (line # lines))))"

definition quake_progress_probe :: "'h board \<Rightarrow> 'h guest \<Rightarrow> int \<Rightarrow> int \<Rightarrow> int \<Rightarrow> int \<Rightarrow> int \<Rightarrow> ('h, progress list) bio" where
  "quake_progress_probe B G ram_size cr3 ds_base interval samples =
    bindIO (open_mmio B) (\<lambda>_. progress_loop B G ram_size cr3 ds_base interval (nat samples))"

subsection \<open>Waiting for a record\<close>

text \<open>\<open>try: ... except RuntimeError: pass\<close>; \<open>struct.error\<close>, a bad \<open>int\<close> and a missing key are no runtime errors.\<close>

definition is_runtime :: "board_error \<Rightarrow> bool" where
  "is_runtime e \<longleftrightarrow> e \<notin> {StructError, BoardValue, BoardKey}"

definition attempt :: "('h, 'a option) bio \<Rightarrow> ('h, 'a option) bio" where
  "attempt m h = (case m h of Some (Inl e, h') \<Rightarrow> if is_runtime e then Some (Inr None, h') else Some (Inl e, h') | r \<Rightarrow> r)"

partial_function (option) attempt_loop :: "'h board \<Rightarrow> ('h, 'a option) bio \<Rightarrow> int \<Rightarrow> int \<Rightarrow> bool \<Rightarrow> int \<Rightarrow> 'h \<Rightarrow>
    ((board_error + 'a option) \<times> 'h) option" where
  "attempt_loop B m timeout interval always started h = bindIO (attempt m) (\<lambda>r h. case r of
       Some x \<Rightarrow> Some (Inr (Some x), h)
     | None \<Rightarrow> bindIO (if timeout \<noteq> 0 then bindIO (now B) (\<lambda>t. retIO (timeout \<le> t - started)) else retIO False) (\<lambda>late h.
         if late then Some (Inr None, h)
         else bindIO (if always \<or> interval \<noteq> 0 then sleep B interval else retIO ())
           (\<lambda>_. attempt_loop B m timeout interval always started) h) h) h"

definition marker_round :: "'h board \<Rightarrow> 'h guest \<Rightarrow> int \<Rightarrow> int \<Rightarrow> int \<Rightarrow> int \<Rightarrow> ('h, (int \<times> int \<times> int) option) bio" where
  "marker_round B G ram_size cr3 laddr expected = bindIO (linear_u32 G ram_size cr3 laddr) (\<lambda>(value, physical).
     if value = expected then bindIO (rd32 B R_DBG_LASTEIP) (\<lambda>eip. retIO (Some (value, physical, eip))) else retIO None)"

definition quake_marker_probe :: "'h board \<Rightarrow> 'h guest \<Rightarrow> int \<Rightarrow> int \<Rightarrow> int \<Rightarrow> int \<Rightarrow> int \<Rightarrow> int \<Rightarrow> ('h, (int \<times> int \<times> int) option) bio" where
  "quake_marker_probe B G ram_size cr3 laddr expected timeout interval =
    bindIO (open_mmio B) (\<lambda>_. bindIO (now B) (\<lambda>started.
      attempt_loop B (marker_round B G ram_size cr3 laddr expected) timeout interval True started))"

subsection \<open>The trap on an exception frame\<close>

text \<open>What is printed when it fires: the addresses, the source, the frozen block and the record itself.\<close>

record fault_frame =
  ff_linear :: int
  ff_physical :: int
  ff_ddr :: bool
  ff_frozen :: bool
  ff_vector :: int
  ff_state :: int
  ff_frz_eip :: int
  ff_last_eip :: int
  ff_words :: "int list"
  ff_ring :: "(string \<times> string) list"

fun frame_words :: "'h guest \<Rightarrow> int \<Rightarrow> int \<Rightarrow> int list \<Rightarrow> ('h, int list) bio" where
  "frame_words G ram_size physical [] = retIO []"
| "frame_words G ram_size physical (index # rest) = bindIO (gu32 G ram_size (physical + 4 * index)) (\<lambda>w.
     bindIO (frame_words G ram_size physical rest) (\<lambda>ws. retIO (w # ws)))"

definition logger_stores :: "int \<Rightarrow> int \<Rightarrow> core_entry list \<Rightarrow> core_entry list" where
  "logger_stores physical count entries =
    filter (\<lambda>e. let a = the (py_int 16 (ce_address e)) in physical \<le> a \<and> a < physical + count * 4) entries"

definition external_freeze :: "'h board \<Rightarrow> ('h, unit) bio" where
  "external_freeze B = bindIO (poke B W_DBG_CTL (push_bit 16 1)) (\<lambda>_. bindIO (rd32 B R_IDENT) (\<lambda>ident.
     if ident \<noteq> IDENT_MAGIC then failIO (WrongIdent ident) else sleep B 2))"

definition frame_round :: "'h board \<Rightarrow> 'h guest \<Rightarrow> int \<Rightarrow> int \<Rightarrow> int \<Rightarrow> int \<Rightarrow> ('h, fault_frame option) bio" where
  "frame_round B G ram_size cr3 laddr count = bindIO (walk G ram_size cr3 (count * 4) laddr) (\<lambda>physical.
     bindIO (frame_words G ram_size physical [0 .. count - 1]) (\<lambda>ws. bindIO (read_core_observe_ring B 128) (\<lambda>entries.
       let stores = logger_stores physical count entries
       in if \<not> list_ex (\<lambda>w. w \<noteq> 0) ws \<and> stores = [] then retIO None
          else bindIO (external_freeze B) (\<lambda>_. bindIO (rd32 B R_DBG_FRZINFO) (\<lambda>info. bindIO (rd32 B R_DBG_FRZEIP) (\<lambda>frz.
            bindIO (rd32 B R_DBG_LASTEIP) (\<lambda>last. retIO (Some
              \<lparr>ff_linear = laddr, ff_physical = physical, ff_ddr = list_ex (\<lambda>w. w \<noteq> 0) ws, ff_frozen = frozen_of info,
               ff_vector = drop_bit 16 info AND 0xFF, ff_state = drop_bit 8 info AND 0x3F, ff_frz_eip = frz, ff_last_eip = last,
               ff_words = ws, ff_ring = map (\<lambda>e. (ce_address e, ce_data e)) stores\<rparr>))))))))"

definition frame_args :: "int \<Rightarrow> int \<Rightarrow> board_error option" where
  "frame_args offset count =
    (if count < 1 \<or> 32 < count then Some BadWords
     else if offset AND 3 \<noteq> 0 then Some BadOffset
     else if 0x1000 < (offset AND 0xFFF) + count * 4 then Some CrossesPage else None)"

definition trap_quake_fault_frame_probe ::
    "'h board \<Rightarrow> 'h guest \<Rightarrow> int \<Rightarrow> int \<Rightarrow> int \<Rightarrow> int \<Rightarrow> int \<Rightarrow> int \<Rightarrow> int \<Rightarrow> ('h, fault_frame option) bio" where
  "trap_quake_fault_frame_probe B G ram_size cr3 ds_base offset count timeout interval =
    (case frame_args offset count of Some e \<Rightarrow> failIO e
     | None \<Rightarrow> bindIO (open_mmio B) (\<lambda>_. bindIO (now B) (\<lambda>started.
         attempt_loop B (frame_round B G ram_size cr3 (ds_base + offset) count) timeout interval False started)))"

end
