(* ===== verification/Board_Trace.thy ===== *)
theory Board_Trace
  imports Board_Rings
begin

text \<open>
  The block behind the rings, fpga/rk/src/ven_soc_dbg.sv, with the two registers of ven_mgmt_axil.v that
  steer it, at the granularity of events and bus transactions. A read of the ring memory is registered:
  after every transaction the port holds the entry that was selected before it, so that the first read
  after a new index is stale. The freeze detector's threshold is left out.
\<close>

subsection \<open>The block\<close>

type_synonym retired = "int \<times> int \<times> int" \<comment> \<open>state, cs, eip\<close>
type_synonym beat = "int \<times> int" \<comment> \<open>address, 64-bit data\<close>

record dbg =
  dg_ring :: "int \<Rightarrow> retired"
  dg_head :: int
  dg_count :: int
  dg_beats :: "int \<Rightarrow> beat"
  dg_beat_head :: int
  dg_frozen :: bool
  dg_frozen_eip :: int
  dg_frozen_state :: int
  dg_frozen_vec :: int
  dg_last_eip :: int
  dg_retired :: int
  dg_index :: int
  dg_port :: retired
  dg_beat_port :: beat

definition dbg_retire :: "retired \<Rightarrow> dbg \<Rightarrow> dbg" where
  "dbg_retire e d =
    (let d' = d\<lparr>dg_last_eip := snd (snd e), dg_retired := dg_retired d + 1\<rparr>
     in if dg_frozen d then d'
        else d'\<lparr>dg_ring := (dg_ring d)(dg_head d := e), dg_head := (dg_head d + 1) mod 128,
                dg_count := (if dg_count d < 128 then dg_count d + 1 else dg_count d)\<rparr>)"

definition dbg_beat :: "beat \<Rightarrow> dbg \<Rightarrow> dbg" where
  "dbg_beat b d = (if dg_frozen d then d
     else d\<lparr>dg_beats := (dg_beats d)(dg_beat_head d := b), dg_beat_head := (dg_beat_head d + 1) mod 128\<rparr>)"

definition dbg_freeze :: "int \<Rightarrow> int \<Rightarrow> dbg \<Rightarrow> dbg" where
  "dbg_freeze state vec d = (if dg_frozen d then d
     else d\<lparr>dg_frozen := True, dg_frozen_eip := dg_last_eip d, dg_frozen_state := state, dg_frozen_vec := vec\<rparr>)"

definition dbg_clear :: "dbg \<Rightarrow> dbg" where
  "dbg_clear d = d\<lparr>dg_head := 0, dg_count := 0, dg_beat_head := 0, dg_frozen := False, dg_frozen_eip := 0, dg_frozen_state := 0,
     dg_frozen_vec := 0, dg_retired := 0\<rparr>"

definition latch :: "dbg \<Rightarrow> dbg" where
  "latch d = d\<lparr>dg_port := dg_ring d ((dg_head d - 1 - dg_index d) mod 128),
     dg_beat_port := dg_beats d ((dg_beat_head d - 1 - dg_index d) mod 128)\<rparr>"

definition frz_word :: "dbg \<Rightarrow> int" where
  "frz_word d = (if dg_frozen d then 2 ^ 31 else 0) + push_bit 16 (take_bit 8 (dg_frozen_vec d)) + push_bit 8 (take_bit 6 (dg_frozen_state d)) +
     take_bit 6 (dg_count d)"

definition dbg_read :: "dbg \<Rightarrow> int \<Rightarrow> int" where
  "dbg_read d r =
    (case dg_port d of (state, cs, eip) \<Rightarrow> case dg_beat_port d of (addr, data) \<Rightarrow>
       if r = R_IDENT then IDENT_MAGIC
       else if r = R_DBG_LASTEIP then dg_last_eip d
       else if r = R_DBG_FRZINFO then frz_word d
       else if r = R_DBG_FRZEIP then dg_frozen_eip d
       else if r = R_DBG_TRPC then eip
       else if r = R_DBG_TRAUX then push_bit 16 state + cs
       else if r = R_DBG_RDADDR then addr
       else if r = R_DBG_RDDATA then take_bit 32 data
       else if r = R_DBG_RDDATA_HI then drop_bit 32 data
       else if r = R_DBG_RET_LO then take_bit 32 (dg_retired d)
       else if r = R_DBG_RET_HI then take_bit 32 (drop_bit 32 (dg_retired d))
       else 0)"

text \<open>A write to the control register selects an entry and can clear or freeze the block.\<close>

definition dbg_write :: "int \<Rightarrow> int \<Rightarrow> dbg \<Rightarrow> dbg" where
  "dbg_write r v d =
    (let d = latch d
     in if r = W_DBG_CTL then (let d = d\<lparr>dg_index := v mod 128\<rparr>
          in if bit v 8 then dbg_clear d else if bit v 16 then dbg_freeze 0 0 d else d)
        else d)"

definition dbg_board :: "dbg board" where
  "dbg_board = \<lparr>bd_state = (\<lambda>_. Some ''operating''), bd_read = (\<lambda>r d. (dbg_read d r, latch d)), bd_write = dbg_write,
     bd_low16 = (\<lambda>_ d. (0, d)), bd_set_low16 = (\<lambda>_ _ d. d), bd_now = (\<lambda>d. (0, d)), bd_now_ns = (\<lambda>d. (0, d)), bd_sleep = (\<lambda>_ d. d)\<rparr>"

text \<open>The states that the block reaches, with what has been recorded since it was last cleared, newest first.\<close>

inductive traced :: "retired list \<Rightarrow> beat list \<Rightarrow> dbg \<Rightarrow> bool" where
  cleared: "traced [] [] (dbg_clear d)"
| retires: "traced T R d \<Longrightarrow> \<not> dg_frozen d \<Longrightarrow> traced (e # T) R (dbg_retire e d)"
| retires_frozen: "traced T R d \<Longrightarrow> dg_frozen d \<Longrightarrow> traced T R (dbg_retire e d)"
| reads: "traced T R d \<Longrightarrow> \<not> dg_frozen d \<Longrightarrow> traced T (b # R) (dbg_beat b d)"
| reads_frozen: "traced T R d \<Longrightarrow> dg_frozen d \<Longrightarrow> traced T R (dbg_beat b d)"
| freezes: "traced T R d \<Longrightarrow> traced T R (dbg_freeze state vec d)"
| transfers: "traced T R d \<Longrightarrow> traced T R (latch d)"
| selects: "traced T R d \<Longrightarrow> traced T R (d\<lparr>dg_index := i mod 128\<rparr>)"


subsection \<open>What the rings hold\<close>

definition ring_holds :: "(int \<Rightarrow> 'a) \<Rightarrow> int \<Rightarrow> 'a list \<Rightarrow> bool" where
  "ring_holds ring head xs \<longleftrightarrow> 0 \<le> head \<and> head < 128 \<and> (\<forall>i < min 128 (length xs). ring ((head - 1 - int i) mod 128) = xs ! i)"

lemma ring_holds_push:
  assumes "ring_holds ring head xs"
  shows "ring_holds (ring(head := x)) ((head + 1) mod 128) (x # xs)"
proof -
  have h: "0 \<le> head" "head < 128" using assms by (simp_all add: ring_holds_def)
  have "(ring(head := x)) (((head + 1) mod 128 - 1 - int i) mod 128) = (x # xs) ! i" if i: "i < min 128 (length (x # xs))" for i
  proof -
    have "((head + 1) mod 128 - 1 - int i) mod 128 = (head + 1 - (1 + int i)) mod 128" by (simp add: mod_diff_left_eq diff_diff_eq)
    then have pos: "((head + 1) mod 128 - 1 - int i) mod 128 = (head - int i) mod 128" by simp
    show ?thesis
    proof (cases i)
      case 0
      then show ?thesis using h pos unfolding 0 by simp
    next
      case (Suc j)
      then have j: "j < min 128 (length xs)" "j < 127" using i by auto
      have "(head - int i) mod 128 \<noteq> head"
      proof
        assume "(head - int i) mod 128 = head"
        then have "(head - int i) mod 128 = head mod 128" using h by simp
        then have "128 dvd (head - int i) - head" by (simp only: mod_eq_dvd_iff)
        then have "128 dvd int i" by simp
        then show False using Suc j(2) by (auto dest!: zdvd_imp_le)
      qed
      moreover have e: "head - int i = head - 1 - int j" by (simp add: Suc)
      ultimately show ?thesis using assms j(1) unfolding pos e ring_holds_def by (simp add: Suc)
    qed
  qed
  then show ?thesis unfolding ring_holds_def by simp
qed

lemma traced_holds:
  "traced T R d \<Longrightarrow> ring_holds (dg_ring d) (dg_head d) T \<and> ring_holds (dg_beats d) (dg_beat_head d) R"
proof (induction rule: traced.induct)
  case (retires T R d e)
  then show ?case using ring_holds_push [of "dg_ring d" "dg_head d" T e] by (simp add: dbg_retire_def Let_def fun_upd_def)
next
  case (reads T R d b)
  then show ?case using ring_holds_push [of "dg_beats d" "dg_beat_head d" R b] by (simp add: dbg_beat_def fun_upd_def)
qed (simp_all add: ring_holds_def dbg_clear_def dbg_retire_def dbg_beat_def dbg_freeze_def latch_def Let_def)

subsection \<open>An indexed port\<close>

text \<open>
  What a reader of a ring needs: a write of an index below \<open>n\<close> selects an entry, one read of the priming
  register brings it to the port, and from then on the registers of the port return the words of that entry.
\<close>

locale indexed_port =
  fixes B :: "'h board" and settled :: "'h \<Rightarrow> bool" and selected primed :: "int \<Rightarrow> 'h \<Rightarrow> bool"
    and n :: int and prime :: int and port :: "int set" and word :: "int \<Rightarrow> int \<Rightarrow> int"
  assumes select: "settled h \<Longrightarrow> 0 \<le> i \<Longrightarrow> i < n \<Longrightarrow> selected i (bd_write B W_DBG_CTL i h)"
    and priming: "selected i h \<Longrightarrow> primed i (snd (bd_read B prime h))"
    and words: "primed i h \<Longrightarrow> r \<in> port \<Longrightarrow> fst (bd_read B r h) = word i r \<and> primed i (snd (bd_read B r h))"
    and primed_settled: "primed i h \<Longrightarrow> settled h"
begin

lemma read_selected:
  assumes "settled h" "0 \<le> i" "i < n"
  obtains h1 h2 where "poke B W_DBG_CTL i h = Some (Inr (), h1)" "rd32 B prime h1 = Some (Inr (fst (bd_read B prime h1)), h2)" "primed i h2"
  using priming [OF select [OF assms]] by (auto simp: poke_def rd32_def case_prod_beta)

lemma read_word:
  assumes "primed i h" "r \<in> port"
  obtains h' where "rd32 B r h = Some (Inr (word i r), h')" "primed i h'"
  using words [OF assms] by (auto simp: rd32_def case_prod_beta)

end

locale pc_port = indexed_port B settled selected primed n R_DBG_TRPC "{R_DBG_TRPC, R_DBG_TRAUX}" word
  for B :: "'h board" and settled selected primed n word
begin

lemma pc_entries_read:
  assumes "settled h" "\<forall>i \<in> set is. 0 \<le> i \<and> i < n"
  shows "\<exists>h'. pc_entries B is h = Some (Inr (map (\<lambda>i. pc_entry_of i (word i R_DBG_TRPC) (word i R_DBG_TRAUX)) is), h') \<and> settled h'"
  using assms
proof (induction "is" arbitrary: h)
  case (Cons i "is")
  have i: "0 \<le> i" "i < n" using Cons.prems(2) by simp_all
  obtain h1 h2 where s: "poke B W_DBG_CTL i h = Some (Inr (), h1)" "rd32 B R_DBG_TRPC h1 = Some (Inr (fst (bd_read B R_DBG_TRPC h1)), h2)" "primed i h2"
    using read_selected [OF Cons.prems(1) i] by blast
  obtain h3 where p: "rd32 B R_DBG_TRPC h2 = Some (Inr (word i R_DBG_TRPC), h3)" "primed i h3" using read_word [OF s(3)] by blast
  obtain h4 where a: "rd32 B R_DBG_TRAUX h3 = Some (Inr (word i R_DBG_TRAUX), h4)" "primed i h4" using read_word [OF p(2)] by blast
  obtain h5 where r: "pc_entries B is h4 = Some (Inr (map (\<lambda>i. pc_entry_of i (word i R_DBG_TRPC) (word i R_DBG_TRAUX)) is), h5)" "settled h5"
    using Cons.IH [OF primed_settled [OF a(2)]] Cons.prems(2) by auto
  show ?case using s p a r by simp
qed simp

end

locale core_port = indexed_port B settled selected primed n R_DBG_RDADDR "{R_DBG_RDADDR, R_DBG_RDDATA, R_DBG_RDDATA_HI}" word
  for B :: "'h board" and settled selected primed n word
begin

lemma core_entries_read:
  assumes "settled h" "\<forall>i \<in> set is. 0 \<le> i \<and> i < n"
  shows "\<exists>h'. core_entries B is h = Some (Inr (map (\<lambda>i. core_entry_of i (word i R_DBG_RDADDR) (word i R_DBG_RDDATA)
      (word i R_DBG_RDDATA_HI)) is), h') \<and> settled h'"
  using assms
proof (induction "is" arbitrary: h)
  case (Cons i "is")
  have i: "0 \<le> i" "i < n" using Cons.prems(2) by simp_all
  obtain h1 h2 where s: "poke B W_DBG_CTL i h = Some (Inr (), h1)" "rd32 B R_DBG_RDADDR h1 = Some (Inr (fst (bd_read B R_DBG_RDADDR h1)), h2)" "primed i h2"
    using read_selected [OF Cons.prems(1) i] by blast
  obtain h3 where p: "rd32 B R_DBG_RDADDR h2 = Some (Inr (word i R_DBG_RDADDR), h3)" "primed i h3" using read_word [OF s(3)] by blast
  obtain h4 where a: "rd32 B R_DBG_RDDATA h3 = Some (Inr (word i R_DBG_RDDATA), h4)" "primed i h4" using read_word [OF p(2)] by blast
  obtain h5 where b: "rd32 B R_DBG_RDDATA_HI h4 = Some (Inr (word i R_DBG_RDDATA_HI), h5)" "primed i h5" using read_word [OF a(2)] by blast
  obtain h6 where r: "core_entries B is h5 = Some (Inr (map (\<lambda>i. core_entry_of i (word i R_DBG_RDADDR) (word i R_DBG_RDDATA)
      (word i R_DBG_RDDATA_HI)) is), h6)" "settled h6"
    using Cons.IH [OF primed_settled [OF b(2)]] Cons.prems(2) by auto
  show ?case using s p a b r by simp
qed simp

end

subsection \<open>The frozen block provides it\<close>

definition frozen_at :: "retired list \<Rightarrow> beat list \<Rightarrow> dbg \<Rightarrow> bool" where
  "frozen_at T R d \<longleftrightarrow> dg_frozen d \<and> traced T R d"

definition select_at :: "retired list \<Rightarrow> beat list \<Rightarrow> int \<Rightarrow> dbg \<Rightarrow> bool" where
  "select_at T R i d \<longleftrightarrow> frozen_at T R d \<and> dg_index d = i \<and> 0 \<le> i \<and> i < 128"

definition port_at :: "retired list \<Rightarrow> beat list \<Rightarrow> int \<Rightarrow> dbg \<Rightarrow> bool" where
  "port_at T R i d \<longleftrightarrow> select_at T R i d \<and> (i < int (length T) \<longrightarrow> dg_port d = T ! nat i) \<and> (i < int (length R) \<longrightarrow> dg_beat_port d = R ! nat i)"

lemma select_write:
  assumes "frozen_at T R d" "0 \<le> i" "i < 128"
  shows "select_at T R i (dbg_write W_DBG_CTL i d)"
proof -
  have "\<not> bit i 8" "\<not> bit i 16" using assms(2,3) by (simp_all add: bit_iff_odd)
  moreover have "traced T R ((latch d)\<lparr>dg_index := i mod 128\<rparr>)" using assms(1) by (auto simp: frozen_at_def intro: traced.intros)
  ultimately show ?thesis using assms by (simp add: select_at_def frozen_at_def dbg_write_def Let_def latch_def)
qed

lemma latch_port:
  assumes "select_at T R i d"
  shows "port_at T R i (latch d)"
proof -
  have t: "traced T R d" "dg_frozen d" "dg_index d = i" "0 \<le> i" "i < 128" using assms by (simp_all add: select_at_def frozen_at_def)
  note h = traced_holds [OF t(1)]
  have "dg_ring d ((dg_head d - 1 - i) mod 128) = T ! nat i" if "i < int (length T)"
  proof -
    have "nat i < min 128 (length T)" using that t(4,5) by (simp add: nat_less_iff)
    then show ?thesis using h t(4) unfolding ring_holds_def by (metis int_nat_eq)
  qed
  moreover have "dg_beats d ((dg_beat_head d - 1 - i) mod 128) = R ! nat i" if "i < int (length R)"
  proof -
    have "nat i < min 128 (length R)" using that t(4,5) by (simp add: nat_less_iff)
    then show ?thesis using h t(4) unfolding ring_holds_def by (metis int_nat_eq)
  qed
  moreover have "select_at T R i (latch d)"
    using assms traced.transfers [OF t(1)] by (simp add: select_at_def frozen_at_def latch_def)
  ultimately show ?thesis using t(3) by (simp add: port_at_def latch_def)
qed

lemma port_latch: "port_at T R i d \<Longrightarrow> port_at T R i (latch d)"
  using latch_port unfolding port_at_def by blast

definition pc_word :: "retired list \<Rightarrow> int \<Rightarrow> int \<Rightarrow> int" where
  "pc_word T i r = (case T ! nat i of (state, cs, eip) \<Rightarrow> if r = R_DBG_TRPC then eip else push_bit 16 state + cs)"

definition beat_word :: "beat list \<Rightarrow> int \<Rightarrow> int \<Rightarrow> int" where
  "beat_word R i r = (case R ! nat i of (addr, data) \<Rightarrow>
     if r = R_DBG_RDADDR then addr else if r = R_DBG_RDDATA then take_bit 32 data else drop_bit 32 data)"

lemmas dbg_registers = R_IDENT_def R_DBG_LASTEIP_def R_DBG_FRZINFO_def R_DBG_FRZEIP_def R_DBG_TRPC_def R_DBG_TRAUX_def R_DBG_RDADDR_def
  R_DBG_RDDATA_def R_DBG_RDDATA_HI_def

interpretation trail: pc_port dbg_board "frozen_at T R" "\<lambda>i d. select_at T R i d \<and> i < int (length T)" "\<lambda>i d. port_at T R i d \<and> i < int (length T)"
  "min 128 (int (length T))" "pc_word T" for T R
proof unfold_locales
  show "frozen_at T R d" if "port_at T R i d \<and> i < int (length T)" for i d using that by (simp add: port_at_def select_at_def)
  fix i r d
  assume p: "port_at T R i d \<and> i < int (length T)" and r: "r \<in> {R_DBG_TRPC, R_DBG_TRAUX}"
  then have "dg_port d = T ! nat i" by (simp add: port_at_def)
  then have "dbg_read d r = pc_word T i r" using r by (auto simp: dbg_read_def pc_word_def dbg_registers split: prod.split)
  then show "fst (bd_read dbg_board r d) = pc_word T i r \<and> port_at T R i (snd (bd_read dbg_board r d)) \<and> i < int (length T)"
    using p port_latch by (simp add: dbg_board_def)
qed (simp_all add: dbg_board_def select_write latch_port)

interpretation beats: core_port dbg_board "frozen_at T R" "\<lambda>i d. select_at T R i d \<and> i < int (length R)" "\<lambda>i d. port_at T R i d \<and> i < int (length R)"
  "min 128 (int (length R))" "beat_word R" for T R
proof unfold_locales
  show "frozen_at T R d" if "port_at T R i d \<and> i < int (length R)" for i d using that by (simp add: port_at_def select_at_def)
  fix i r d
  assume p: "port_at T R i d \<and> i < int (length R)" and r: "r \<in> {R_DBG_RDADDR, R_DBG_RDDATA, R_DBG_RDDATA_HI}"
  then have "dg_beat_port d = R ! nat i" by (simp add: port_at_def)
  then have "dbg_read d r = beat_word R i r" using r by (auto simp: dbg_read_def beat_word_def dbg_registers split: prod.split)
  then show "fst (bd_read dbg_board r d) = beat_word R i r \<and> port_at T R i (snd (bd_read dbg_board r d)) \<and> i < int (length R)"
    using p port_latch by (simp add: dbg_board_def)
qed (simp_all add: dbg_board_def select_write latch_port)

subsection \<open>The probes on the block\<close>

lemma frz_fields:
  assumes "dg_frozen d"
  shows "frozen_of (frz_word d)" "frz_word d AND 0x3F = take_bit 6 (dg_count d)"
proof -
  define v s c where vsc: "v = take_bit 8 (dg_frozen_vec d)" "s = take_bit 6 (dg_frozen_state d)" "c = take_bit 6 (dg_count d)"
  have b: "0 \<le> v" "v < 2 ^ 8" "0 \<le> s" "s < 2 ^ 6" "0 \<le> c" "c < 2 ^ 6" unfolding vsc by (simp_all only: take_bit_nonnegative take_bit_int_less_exp)
  have w: "frz_word d = 2 ^ 31 + (65536 * v + 256 * s + c)" using assms by (simp add: frz_word_def vsc push_bit_eq_mult)
  have "drop_bit 31 (frz_word d) = 1" unfolding w drop_bit_eq_div using b by (intro int_div_pos_eq [where r = "65536 * v + 256 * s + c"]) simp_all
  then show "frozen_of (frz_word d)" by (simp add: frozen_of_def)
  have m: "frz_word d = c + 64 * (2 ^ 25 + 1024 * v + 4 * s)" unfolding w by simp
  have "frz_word d AND 0x3F = frz_word d mod 64" using and_mask_mod [of "frz_word d" 6] by simp
  also have "\<dots> = c mod 64" unfolding m by (rule mod_mult_self2)
  also have "\<dots> = c" using b(5,6) by (intro mod_pos_pos_trivial) simp_all
  finally show "frz_word d AND 0x3F = take_bit 6 (dg_count d)" by (simp add: vsc)
qed

lemma open_dbg: "open_mmio dbg_board d = Some (Inr (), latch d)"
  by (simp add: open_mmio_def require_fpga_operating_def dbg_board_def rd32_def bindIO_def dbg_read_def strip_def lstrip_def is_ws_def split: prod.split)

lemma rd_dbg: "rd32 dbg_board r d = Some (Inr (dbg_read d r), latch d)"
  by (simp add: rd32_def dbg_board_def)

lemma latch_kept [simp]: "dg_frozen (latch d) = dg_frozen d" "dg_frozen_eip (latch d) = dg_frozen_eip d" "dg_last_eip (latch d) = dg_last_eip d"
  "frz_word (latch d) = frz_word d" "dg_count (latch d) = dg_count d" "dg_retired (latch d) = dg_retired d"
  by (simp_all add: latch_def frz_word_def)

lemma status_reads: "dbg_read d R_DBG_FRZINFO = frz_word d" "dbg_read d R_DBG_FRZEIP = dg_frozen_eip d" "dbg_read d R_DBG_LASTEIP = dg_last_eip d"
  by (simp_all add: dbg_read_def dbg_registers split: prod.split)

lemma dump_ring_opened:
  assumes "dg_frozen d"
  shows "dump_ring_probe dbg_board live depth d = bindIO (read_pc_ring dbg_board depth)
    (\<lambda>es. retIO (True, dg_frozen_eip d, dg_last_eip d, take_bit 6 (dg_count d), es)) (latch (latch (latch (latch d))))"
  using frz_fields [OF assms] by (simp add: dump_ring_probe_def open_dbg rd_dbg status_reads)

lemma frozen_latch: "frozen_at T R d \<Longrightarrow> frozen_at T R (latch d)"
  by (simp add: frozen_at_def traced.transfers)

text \<open>
  C31. The dump of a frozen ring is the trail of the program. Whatever the core retired since the block was
  cleared, and whatever accesses and events came in between, the probe prints the newest retired
  instructions in order, newest first, with their state, selector and address, and leaves the block frozen
  with the newest entry selected and its trail intact.
\<close>
theorem dump_ring_trail:
  assumes "traced T R d" "dg_frozen d" "0 \<le> depth" "depth \<le> 128" "depth \<le> int (length T)"
  shows "\<exists>d'. dump_ring_probe dbg_board live depth d = Some (Inr (True, dg_frozen_eip d, dg_last_eip d, take_bit 6 (dg_count d),
      map (\<lambda>i. case T ! nat i of (state, cs, eip) \<Rightarrow> pc_entry_of i eip (push_bit 16 state + cs)) [0 .. depth - 1]), d') \<and>
    traced T R d' \<and> dg_frozen d' \<and> dg_index d' = 0"
proof -
  have f: "frozen_at T R (latch (latch (latch (latch d))))" using assms(1,2) by (intro frozen_latch) (simp add: frozen_at_def)
  have "\<forall>i \<in> set [0 .. depth - 1]. 0 \<le> i \<and> i < min 128 (int (length T))" using assms(4,5) by auto
  from trail.pc_entries_read [OF f this] obtain d' where
    es: "pc_entries dbg_board [0 .. depth - 1] (latch (latch (latch (latch d)))) =
      Some (Inr (map (\<lambda>i. pc_entry_of i (pc_word T i R_DBG_TRPC) (pc_word T i R_DBG_TRAUX)) [0 .. depth - 1]), d')" and d': "frozen_at T R d'" by blast
  have words: "pc_entry_of i (pc_word T i R_DBG_TRPC) (pc_word T i R_DBG_TRAUX) =
      (case T ! nat i of (state, cs, eip) \<Rightarrow> pc_entry_of i eip (push_bit 16 state + cs))" for i
    by (simp add: pc_word_def dbg_registers split: prod.split)
  have "select_at T R 0 (dbg_write W_DBG_CTL 0 d')" using select_write [OF d'] by simp
  then show ?thesis
    unfolding dump_ring_opened [OF assms(2)] read_pc_ring_def finallyIO_def words [symmetric]
    using es by (simp add: poke_def dbg_board_def select_at_def frozen_at_def bindIO_def)
qed

definition demo_dbg :: dbg where
  "demo_dbg = dbg_freeze 24 6 (dbg_retire (24, 0x1000, 0x7C02) (dbg_retire (24, 0, 0x7C00) (dbg_clear
     \<lparr>dg_ring = (\<lambda>_. (0, 0, 0)), dg_head = 0, dg_count = 0, dg_beats = (\<lambda>_. (0, 0)), dg_beat_head = 0, dg_frozen = False, dg_frozen_eip = 0,
       dg_frozen_state = 0, dg_frozen_vec = 0, dg_last_eip = 0, dg_retired = 0, dg_index = 0, dg_port = (0, 0, 0), dg_beat_port = (0, 0)\<rparr>)))"

lemma demo_traced: "traced [(24, 0x1000, 0x7C02), (24, 0, 0x7C00)] [] demo_dbg" "dg_frozen demo_dbg" "dg_last_eip demo_dbg = 0x7C02" "dg_count demo_dbg = 2"
  unfolding demo_dbg_def by (intro traced.intros) (simp_all add: dbg_clear_def dbg_retire_def dbg_freeze_def Let_def)

lemma dump_ring_trail_witness:
  "\<exists>d' frz last count. dump_ring_probe dbg_board False 2 demo_dbg = Some (Inr (True, frz, last, count,
      [pc_entry_of 0 0x7C02 (push_bit 16 24 + 0x1000), pc_entry_of 1 0x7C00 (push_bit 16 24 + 0)]), d') \<and> dg_frozen d'"
proof -
  have two: "[0 .. 2 - 1] = [0, 1 :: int]" by (simp add: upto.simps)
  show ?thesis using dump_ring_trail [OF demo_traced(1,2), of 2 False] unfolding two by auto
qed

subsection \<open>An index that clears\<close>

lemma pc_entries_dbg:
  assumes "\<forall>i \<in> set is. 0 \<le> i \<and> i < 2 ^ 16" "256 \<in> set is \<or> \<not> dg_frozen d \<and> dg_retired d = 0"
  shows "\<exists>es d'. pc_entries dbg_board is d = Some (Inr es, d') \<and> \<not> dg_frozen d' \<and> dg_retired d' = 0"
  using assms
proof (induction "is" arbitrary: d)
  case (Cons i "is")
  let ?w = "dbg_write W_DBG_CTL i d"
  have "drop_bit 16 i = 0" using Cons.prems(1) by (simp add: drop_bit_eq_div)
  then have b16: "\<not> bit i 16" by (simp add: bit_iff_odd_drop_bit)
  have "bit (256 :: int) 8" by (simp add: bit_iff_odd)
  then have w: "\<not> dg_frozen ?w \<and> dg_retired ?w = 0" if "i = 256 \<or> \<not> dg_frozen d \<and> dg_retired d = 0"
    using that b16 by (auto simp: dbg_write_def Let_def dbg_clear_def)
  have "256 \<in> set is \<or> \<not> dg_frozen (latch (latch (latch ?w))) \<and> dg_retired (latch (latch (latch ?w))) = 0"
    using w Cons.prems(2) by auto
  then obtain es d' where "pc_entries dbg_board is (latch (latch (latch ?w))) = Some (Inr es, d')" "\<not> dg_frozen d'" "dg_retired d' = 0"
    using Cons.IH [of "latch (latch (latch ?w))"] Cons.prems(1) by (metis list.set_intros(2))
  moreover have "poke dbg_board W_DBG_CTL i d = Some (Inr (), ?w)" by (simp add: poke_def dbg_board_def)
  ultimately show ?case by (simp add: rd_dbg)
qed simp

text \<open>
  A dump that is deeper than the ring destroys the evidence. The probe does not check its depth, and
  index 256 is the clear bit of the control register: a dump of more than 256 entries reports a frozen ring
  and leaves the block cleared, no longer frozen, and with its retirement counter at zero.
\<close>
theorem dump_ring_clears:
  assumes "dg_frozen d" "256 < depth" "depth \<le> 2 ^ 16"
  shows "\<exists>frz last count es d'. dump_ring_probe dbg_board live depth d = Some (Inr (True, frz, last, count, es), d') \<and>
    \<not> dg_frozen d' \<and> dg_retired d' = 0"
proof -
  have "\<forall>i \<in> set [0 .. depth - 1]. 0 \<le> i \<and> i < 2 ^ 16" "256 \<in> set [0 .. depth - 1]" using assms(2,3) by auto
  then obtain es d' where es: "pc_entries dbg_board [0 .. depth - 1] (latch (latch (latch (latch d)))) = Some (Inr es, d')"
    and d': "\<not> dg_frozen d'" "dg_retired d' = 0" using pc_entries_dbg by blast
  have "\<not> dg_frozen (dbg_write W_DBG_CTL 0 d') \<and> dg_retired (dbg_write W_DBG_CTL 0 d') = 0"
    using d' by (simp add: dbg_write_def Let_def)
  then show ?thesis
    unfolding dump_ring_opened [OF assms(1)] read_pc_ring_def finallyIO_def using es by (simp add: poke_def dbg_board_def bindIO_def)
qed

lemma dump_ring_clears_witness:
  "\<exists>frz last count es d'. dump_ring_probe dbg_board False 300 demo_dbg = Some (Inr (True, frz, last, count, es), d') \<and>
    \<not> dg_frozen d' \<and> dg_retired d' = 0"
  by (rule dump_ring_clears) (simp_all add: demo_traced)

end
