(* ===== verification/Board_Screen.thy ===== *)
theory Board_Screen
  imports Board_Trace
begin

text \<open>
  The sparse text screen of vga-ring-text, on the block of \<open>Board_Trace\<close>: what each cell of the screen
  shows, how a row is cut into runs, and the whole path from the accesses of the core to the lines that
  are printed.
\<close>

subsection \<open>Reading back a hexadecimal field\<close>

lemma hex_pad_chars: "c \<in> set (hex_pad w v) \<Longrightarrow> \<exists>k. 0 \<le> k \<and> k < 16 \<and> c = digit_char k"
  using digits_chars [of c 16 v] by (auto simp: hex_pad_def zfill_def digit_char_def intro: exI [of _ 0] split: if_splits)

lemma py_int_hex_pad:
  assumes "0 \<le> v"
  shows "py_int 16 (hex_pad w v) = Some v"
proof -
  define h where "h = hex_pad w v"
  have h: "h \<noteq> []" by (simp add: h_def hex_pad_def zfill_def digits_not_nil)
  have plain: "c \<noteq> CHR ''-'' \<and> c \<noteq> CHR ''+'' \<and> \<not> is_ws c \<and> c \<noteq> CHR ''x'' \<and> lower_char c = c" if "c \<in> set h" for c
    using hex_pad_chars [OF that [unfolded h_def]] digit_char_plain by auto
  have "lower (take 2 h) = take 2 h" unfolding lower_def by (rule map_idI) (auto dest: in_set_takeD plain)
  then have "lower (take 2 h) \<noteq> ''0x''" using plain [of "CHR ''x''"] by (metis in_set_takeD list.set_intros)
  then have "scan_unsigned 16 h = scan_digits 16 0 False h" by (simp add: scan_unsigned_def)
  moreover have "strip h = h" using h plain by (intro strip_plain) auto
  moreover have "scan_digits 16 0 False h = Some v"
    unfolding h_def hex_pad_def zfill_def using scan_zeros [of 16] scan_digits_digits [OF assms, of 16] by simp
  ultimately show ?thesis using h plain by (cases h) (auto simp: py_int_def h_def [symmetric])
qed

subsection \<open>The cells\<close>

lemma byte_count_less:
  assumes "0 \<le> d" "0 \<le> i"
  shows "i < byte_count d \<longleftrightarrow> i = 0 \<or> 2 ^ nat (8 * i) \<le> d"
proof -
  have L: "i < (int (bit_length d) + 7) div 8 \<longleftrightarrow> nat (8 * i) < bit_length d" using assms(2) by linarith
  have "2 ^ nat (8 * i) \<le> d" if l: "nat (8 * i) < bit_length d"
  proof -
    have "0 < d" using assms(1) l by (cases "d = 0") (simp_all add: bit_length_def bit_len.simps)
    moreover have "(2 :: int) ^ nat (8 * i) \<le> 2 ^ (bit_length d - 1)" using l by (intro power_increasing) simp_all
    ultimately show ?thesis using bit_length_lower [of d] by linarith
  qed
  moreover have "d < 2 ^ nat (8 * i)" if l: "\<not> nat (8 * i) < bit_length d"
  proof -
    have "(2 :: int) ^ bit_length d \<le> 2 ^ nat (8 * i)" using l by (intro power_increasing) simp_all
    then show ?thesis using bit_length_upper [OF assms(1)] by linarith
  qed
  ultimately have "nat (8 * i) < bit_length d \<longleftrightarrow> 2 ^ nat (8 * i) \<le> d" by fastforce
  then show ?thesis unfolding byte_count_def less_max_iff_disj L using assms(2) by fastforce
qed

text \<open>The newest access that covers a cell, as the value it carries there.\<close>

fun beat_cell :: "beat list \<Rightarrow> nat \<Rightarrow> int option" where
  "beat_cell [] c = None"
| "beat_cell ((addr, data) # R) c = (let i = VGA_TEXT_BASE + 2 * int c - addr; d = data mod 2 ^ 32
     in if i = 0 \<or> 0 < i \<and> 2 ^ nat (8 * i) \<le> d then Some (d div 2 ^ nat (8 * i) mod 256) else beat_cell R c)"

lemma put_byte_nth:
  assumes "length chars = 2000" "c < 2000" "0 \<le> i"
  shows "put_byte a d i chars ! c = (if i = VGA_TEXT_BASE + 2 * int c - a then Some (d div 2 ^ nat (8 * i) mod 256) else chars ! c)"
    "length (put_byte a d i chars) = 2000"
proof -
  define r where "r = a + i - VGA_TEXT_BASE"
  have odd: "r AND 1 \<noteq> 0 \<longleftrightarrow> r mod 2 = 1" by (simp add: and_one_eq)
  have "drop_bit (nat (i * 8)) d AND 0xFF = d div 2 ^ nat (8 * i) mod 256"
    using and_mask_mod [of "drop_bit (nat (i * 8)) d" 8] by (simp add: drop_bit_eq_div mult.commute)
  then have "put_byte a d i chars = (if \<not> (0 \<le> r \<and> r < 4000) \<or> r mod 2 = 1 then chars
      else chars[nat (r div 2) := Some (d div 2 ^ nat (8 * i) mod 256)])"
    unfolding put_byte_def Let_def r_def [symmetric] odd by (auto simp: r_def VGA_TEXT_SIZE_def)
  moreover have "i = VGA_TEXT_BASE + 2 * int c - a \<longleftrightarrow> r = 2 * int c" by (auto simp: r_def)
  moreover have "nat (r div 2) = c \<longleftrightarrow> r = 2 * int c" if "0 \<le> r" "r mod 2 \<noteq> 1" using that by auto
  ultimately show "put_byte a d i chars ! c = (if i = VGA_TEXT_BASE + 2 * int c - a then Some (d div 2 ^ nat (8 * i) mod 256) else chars ! c)"
    "length (put_byte a d i chars) = 2000"
    using assms by (auto simp: nth_list_update)
qed

lemma put_bytes_nth:
  assumes "length chars = 2000" "c < 2000" "\<forall>i \<in> set is. 0 \<le> i"
  shows "length (fold (put_byte a d) is chars) = 2000 \<and> fold (put_byte a d) is chars ! c =
    (let i = VGA_TEXT_BASE + 2 * int c - a in if i \<in> set is then Some (d div 2 ^ nat (8 * i) mod 256) else chars ! c)"
  using assms by (induction "is" arbitrary: chars) (auto simp: put_byte_nth Let_def)

definition beat_entry :: "int \<times> beat \<Rightarrow> core_entry" where
  "beat_entry x = (case x of (index, addr, data) \<Rightarrow> core_entry_of index addr (data mod 2 ^ 32) (drop_bit 32 data))"

lemma put_entry_nth:
  assumes "length chars = 2000" "c < 2000" "0 \<le> addr"
  shows "length (put_entry (beat_entry (index, addr, data)) chars) = 2000 \<and>
    put_entry (beat_entry (index, addr, data)) chars ! c = (case beat_cell [(addr, data)] c of None \<Rightarrow> chars ! c | v \<Rightarrow> v)"
proof -
  define d where "d = data mod 2 ^ 32"
  have d: "0 \<le> d" by (simp add: d_def)
  define idx where "idx = [0 .. byte_count d - 1]"
  have mem: "i \<in> set idx \<longleftrightarrow> i = 0 \<or> 0 < i \<and> 2 ^ nat (8 * i) \<le> d" for i
    using byte_count_less [OF d, of i] unfolding idx_def by (cases "0 \<le> i") auto
  have e: "put_entry (beat_entry (index, addr, data)) chars = fold (put_byte addr d) idx chars"
    by (simp add: put_entry_def beat_entry_def core_entry_of_def py_int_hex_pad assms(3) d [unfolded d_def] idx_def d_def Let_def)
  have "length (fold (put_byte addr d) idx chars) = 2000 \<and> fold (put_byte addr d) idx chars ! c =
      (let i = VGA_TEXT_BASE + 2 * int c - addr in if i \<in> set idx then Some (d div 2 ^ nat (8 * i) mod 256) else chars ! c)"
    using mem by (intro put_bytes_nth assms(1,2)) auto
  then show ?thesis unfolding e mem by (simp add: Let_def d_def [symmetric] del: power_numeral)
qed

lemma screen_cells_nth:
  assumes "c < 2000" "\<forall>(index, addr, data) \<in> set xs. 0 \<le> addr"
  shows "length (screen_cells (map beat_entry xs)) = 2000 \<and> screen_cells (map beat_entry xs) ! c = beat_cell (map snd xs) c"
  using assms(2)
proof (induction xs)
  case Nil
  then show ?case using assms(1) by (simp add: screen_cells_def)
next
  case (Cons x xs)
  obtain index addr data where x: "x = (index, addr, data)" by (cases x)
  have "screen_cells (map beat_entry (x # xs)) = put_entry (beat_entry x) (screen_cells (map beat_entry xs))" by (simp add: screen_cells_def)
  then show ?case using Cons put_entry_nth [of "screen_cells (map beat_entry xs)" c addr index data] assms(1)
    by (simp add: x Let_def split: if_splits)
qed

subsection \<open>The runs of a row\<close>

definition run_shows :: "(nat \<times> int list) list \<Rightarrow> nat \<Rightarrow> int \<Rightarrow> bool" where
  "run_shows runs c v \<longleftrightarrow> (\<exists>(s, run) \<in> set runs. s \<le> c \<and> c < s + length run \<and> run ! (c - s) = v)"

definition separate :: "(nat \<times> int list) list \<Rightarrow> bool" where
  "separate runs \<longleftrightarrow> sorted_wrt (\<lambda>(s, run) (s', run'). s + length run < s') runs \<and> (\<forall>(s, run) \<in> set runs. run \<noteq> [])"

lemma row_runs_start: "(s, run) \<in> set (row_runs col cells) \<Longrightarrow> col \<le> s"
  by (induction col cells rule: row_runs.induct) (auto simp: Let_def)

lemma row_runs_gap: "(s, run) \<in> set (row_runs col (dropWhile (\<lambda>c. c \<noteq> None) cells)) \<Longrightarrow> col < s"
proof (cases "dropWhile (\<lambda>c. c \<noteq> None) cells")
  case (Cons x xs)
  then have "x = None" using hd_dropWhile [of "\<lambda>c. c \<noteq> None" cells] by simp
  then show "(s, run) \<in> set (row_runs col (dropWhile (\<lambda>c. c \<noteq> None) cells)) \<Longrightarrow> col < s"
    using row_runs_start [of s run "col + 1" xs] unfolding Cons by simp
next
  case Nil
  show "(s, run) \<in> set (row_runs col (dropWhile (\<lambda>c. c \<noteq> None) cells)) \<Longrightarrow> col < s" unfolding Nil by simp
qed

lemma row_runs_spec:
  "separate (row_runs col cells) \<and> (\<forall>c v. run_shows (row_runs col cells) c v \<longleftrightarrow> col \<le> c \<and> c < col + length cells \<and> cells ! (c - col) = Some v)"
proof (induction col cells rule: row_runs.induct)
  case (2 col cells)
  have "(None # cells) ! (c - col) = Some v \<longleftrightarrow> col + 1 \<le> c \<and> cells ! (c - (col + 1)) = Some v" if "col \<le> c" for c v
    using that by (cases "c = col") (auto simp: nth_Cons')
  then show ?case using 2 by (auto simp: Suc_le_eq)
next
  case (3 col v cells)
  let ?P = "\<lambda>c :: int option. c \<noteq> None"
  define t u where tu: "t = takeWhile ?P (Some v # cells)" "u = dropWhile ?P cells"
  have xs: "Some v # cells = t @ u" "t \<noteq> []" by (simp_all add: tu)
  define run where "run = map the t"
  have run: "length run = length t" "run \<noteq> []" using xs(2) by (simp_all add: run_def)
  have nth_run: "Some (run ! i) = t ! i" if "i < length t" for i
  proof -
    have "t ! i \<noteq> None" using nth_mem [OF that] set_takeWhileD [of "t ! i" ?P "Some v # cells"] by (simp add: tu(1) del: takeWhile.simps)
    then show ?thesis using that by (auto simp: run_def)
  qed
  have rr: "row_runs col (Some v # cells) = (col, run) # row_runs (col + length run) u"
    by (simp add: run_def tu Let_def del: takeWhile.simps)
  have IH: "separate (row_runs (col + length run) u)"
    "\<And>c w. run_shows (row_runs (col + length run) u) c w \<longleftrightarrow> col + length run \<le> c \<and> c < col + length run + length u \<and> u ! (c - (col + length run)) = Some w"
    using 3 [OF run_def [unfolded tu]] unfolding tu(2) by blast+
  note IH' = IH(2) [unfolded run(1)]
  have "separate (row_runs col (Some v # cells))"
    unfolding rr using IH(1) run(2) row_runs_gap unfolding separate_def tu(2) by fastforce
  moreover have "run_shows (row_runs col (Some v # cells)) c w \<longleftrightarrow> col \<le> c \<and> c < col + length (Some v # cells) \<and> (Some v # cells) ! (c - col) = Some w" for c w
  proof -
    have "run_shows (row_runs col (Some v # cells)) c w \<longleftrightarrow>
        col \<le> c \<and> c < col + length t \<and> run ! (c - col) = w \<or> run_shows (row_runs (col + length run) u) c w"
      unfolding rr by (auto simp: run_shows_def run(1))
    also have "\<dots> \<longleftrightarrow> col \<le> c \<and> c < col + length (t @ u) \<and> (t @ u) ! (c - col) = Some w"
    proof (cases "col \<le> c \<and> c < col + length t")
      case True
      then have "c - col < length t" by auto
      then show ?thesis using True run(1) nth_run [of "c - col"] unfolding run(1) IH' by (auto simp: nth_append)
    next
      case False
      then show ?thesis unfolding run(1) IH' by (auto simp: nth_append)
    qed
    finally show ?thesis by (simp only: xs(1))
  qed
  ultimately show ?case by blast
qed (simp add: separate_def run_shows_def)

subsection \<open>From the accesses to the lines\<close>

lemma dump_rings_opened:
  assumes "dg_frozen d" "1 \<le> depth" "depth \<le> 128"
  shows "vga_ring_text_probe dbg_board live depth d = bindIO (read_core_observe_ring dbg_board depth)
    (\<lambda>es. retIO (int (length es), True, sparse_vga_ring_lines es)) (latch (latch d))"
  using frz_fields [OF assms(1)] assms(2,3) by (simp add: vga_ring_text_probe_def open_dbg rd_dbg status_reads)

text \<open>
  C32. The sparse screen is what the newest accesses of the core show. On a frozen block the probe prints, row
  by row, the maximal runs of cells that one of the \<open>depth\<close> newest accesses covers, each with the value of
  the newest access that covers it; bytes outside the text window, attribute bytes and the leading zero
  bytes of an access contribute nothing.
\<close>
theorem ring_text_screen:
  assumes "traced T R d" "dg_frozen d" "1 \<le> depth" "depth \<le> 128" "depth \<le> int (length R)" "\<forall>(addr, data) \<in> set R. 0 \<le> addr"
  shows "\<exists>d' runs. vga_ring_text_probe dbg_board live depth d = Some (Inr (depth, True,
      concat (map (\<lambda>row. map (render_run row) (runs row)) [0..<25])), d') \<and> traced T R d' \<and> dg_frozen d' \<and>
    (\<forall>row < 25. separate (runs row) \<and>
      (\<forall>col v. run_shows (runs row) col v \<longleftrightarrow> col < 80 \<and> beat_cell (take (nat depth) R) (row * 80 + col) = Some v))"
proof -
  have f: "frozen_at T R (latch (latch d))" using assms(1,2) by (intro frozen_latch) (simp add: frozen_at_def)
  have "\<forall>i \<in> set [0 .. depth - 1]. 0 \<le> i \<and> i < min 128 (int (length R))" using assms(4,5) by auto
  from beats.core_entries_read [OF f this] obtain d' where
    es: "core_entries dbg_board [0 .. depth - 1] (latch (latch d)) = Some (Inr (map (\<lambda>i. core_entry_of i (beat_word R i R_DBG_RDADDR)
      (beat_word R i R_DBG_RDDATA) (beat_word R i R_DBG_RDDATA_HI)) [0 .. depth - 1]), d')" and d': "frozen_at T R d'" by blast
  define xs where "xs = map (\<lambda>i. (i, R ! nat i)) [0 .. depth - 1]"
  have "core_entry_of i (beat_word R i R_DBG_RDADDR) (beat_word R i R_DBG_RDDATA) (beat_word R i R_DBG_RDDATA_HI) = beat_entry (i, R ! nat i)" for i
    by (simp add: beat_word_def beat_entry_def dbg_registers take_bit_eq_mod split: prod.split)
  then have entries: "core_entries dbg_board [0 .. depth - 1] (latch (latch d)) = Some (Inr (map beat_entry xs), d')"
    unfolding es by (simp add: xs_def)
  have snds: "map snd xs = take (nat depth) R" using assms(3,5) by (intro nth_equalityI) (auto simp: xs_def)
  have sel: "select_at T R 0 (dbg_write W_DBG_CTL 0 d')" using select_write [OF d'] by simp
  define runs where "runs row = row_runs 0 (row_cells (screen_cells (map beat_entry xs)) row)" for row
  have nonneg: "\<forall>(index, addr, data) \<in> set xs. 0 \<le> addr"
  proof (intro ballI)
    fix x assume "x \<in> set xs"
    then obtain i where i: "x = (i, R ! nat i)" "0 \<le> i" "i < depth" by (auto simp: xs_def)
    then have "nat i < length R" using assms(5) by (simp add: nat_less_iff)
    then show "case x of (index, addr, data) \<Rightarrow> 0 \<le> addr" using assms(6) nth_mem i(1) by fastforce
  qed
  have cells: "row_cells (screen_cells (map beat_entry xs)) row ! col = beat_cell (take (nat depth) R) (row * 80 + col)"
    "length (row_cells (screen_cells (map beat_entry xs)) row) = 80" if "row < 25" "col < 80" for row col
    using screen_cells_nth [OF _ nonneg, of "row * 80 + col"] that by (simp_all add: row_cells_def snds)
  have "separate (runs row) \<and> (\<forall>col v. run_shows (runs row) col v \<longleftrightarrow> col < 80 \<and> beat_cell (take (nat depth) R) (row * 80 + col) = Some v)"
    if "row < 25" for row
    using row_runs_spec [of 0 "row_cells (screen_cells (map beat_entry xs)) row"] cells [OF that] cells(2) [OF that, of 0]
    unfolding runs_def by auto
  moreover have ring: "read_core_observe_ring dbg_board depth (latch (latch d)) = Some (Inr (map beat_entry xs), dbg_write W_DBG_CTL 0 d')"
    by (simp add: read_core_observe_ring_def finallyIO_def entries poke_def) (simp add: dbg_board_def)
  moreover have len: "length xs = nat depth" by (simp add: xs_def)
  moreover have "vga_ring_text_probe dbg_board live depth d = Some (Inr (depth, True,
      concat (map (\<lambda>row. map (render_run row) (runs row)) [0..<25])), dbg_write W_DBG_CTL 0 d')"
    using assms(3) by (simp add: dump_rings_opened [OF assms(2-4)] ring sparse_vga_ring_lines_def Let_def runs_def len)
  ultimately show ?thesis using sel unfolding select_at_def frozen_at_def by blast
qed

definition screen_dbg :: dbg where
  "screen_dbg = dbg_freeze 24 6 (dbg_beat (VGA_TEXT_BASE, 0x0748) (dbg_beat (VGA_TEXT_BASE + 2, 0x0769) (dbg_clear demo_dbg)))"

lemma screen_traced: "traced [] [(VGA_TEXT_BASE, 0x0748), (VGA_TEXT_BASE + 2, 0x0769)] screen_dbg" "dg_frozen screen_dbg"
  unfolding screen_dbg_def by (intro traced.intros) (simp_all add: dbg_clear_def dbg_beat_def dbg_freeze_def Let_def)

lemma ring_text_screen_witness:
  "\<exists>d' runs. vga_ring_text_probe dbg_board False 2 screen_dbg = Some (Inr (2, True,
      concat (map (\<lambda>row. map (render_run row) (runs row)) [0..<25])), d') \<and> separate (runs 0) \<and>
    run_shows (runs 0) 0 0x48 \<and> run_shows (runs 0) 1 0x69 \<and> \<not> run_shows (runs 0) 2 0"
proof -
  obtain d' runs where r: "vga_ring_text_probe dbg_board False 2 screen_dbg = Some (Inr (2, True,
      concat (map (\<lambda>row. map (render_run row) (runs row)) [0..<25])), d')"
    "\<forall>row < 25. separate (runs row) \<and> (\<forall>col v. run_shows (runs row) col v \<longleftrightarrow> col < 80 \<and>
      beat_cell (take (nat 2) [(VGA_TEXT_BASE, 0x0748), (VGA_TEXT_BASE + 2, 0x0769)]) (row * 80 + col) = Some v)"
    using ring_text_screen [OF screen_traced, of 2 False] by (auto simp: VGA_TEXT_BASE_def)
  from r(2) [rule_format, of 0] have "separate (runs 0) \<and> run_shows (runs 0) 0 0x48 \<and> run_shows (runs 0) 1 0x69 \<and> \<not> run_shows (runs 0) 2 0"
    by (simp add: VGA_TEXT_BASE_def)
  with r(1) show ?thesis by blast
qed

end
