(* ===== verification/Board_Linear.thy ===== *)
theory Board_Linear
  imports Board_Walk Board_Screen
begin

text \<open>
  The page walks of \<open>Board_Walk\<close> against the translation of the processor: memory as bytes, the two-level
  tables with 4 KiB and 4 MiB pages, and a word of the client as its four bytes, each translated by itself.
\<close>

subsection \<open>The view of the client\<close>

definition le4 :: "(int \<Rightarrow> int) \<Rightarrow> int \<Rightarrow> int" where
  "le4 mem p = mem p + 2 ^ 8 * mem (p + 1) + 2 ^ 16 * mem (p + 2) + 2 ^ 24 * mem (p + 3)"

definition pde_at :: "int \<Rightarrow> int \<Rightarrow> int" where "pde_at cr3 a = cr3 div 4096 * 4096 + a div 2 ^ 22 mod 1024 * 4"
definition pte_at :: "int \<Rightarrow> int \<Rightarrow> int" where "pte_at pde a = pde div 4096 * 4096 + a div 4096 mod 1024 * 4"

definition mmu :: "(int \<Rightarrow> int) \<Rightarrow> int \<Rightarrow> int \<Rightarrow> int option" where
  "mmu mem cr3 a = (let pde = le4 mem (pde_at cr3 a); pte = le4 mem (pte_at pde a)
     in if even pde then None
        else if bit pde 7 then Some (pde div 2 ^ 22 * 2 ^ 22 + a mod 2 ^ 22)
        else if even pte then None else Some (pte div 4096 * 4096 + a mod 4096))"

definition guest_byte :: "(int \<Rightarrow> int) \<Rightarrow> int \<Rightarrow> int \<Rightarrow> int option" where
  "guest_byte mem cr3 a = map_option mem (mmu mem cr3 a)"

definition guest_word :: "(int \<Rightarrow> int) \<Rightarrow> int \<Rightarrow> int \<Rightarrow> int option" where
  "guest_word mem cr3 a = (case (guest_byte mem cr3 a, guest_byte mem cr3 (a + 1), guest_byte mem cr3 (a + 2), guest_byte mem cr3 (a + 3)) of
     (Some b0, Some b1, Some b2, Some b3) \<Rightarrow> Some (b0 + 2 ^ 8 * b1 + 2 ^ 16 * b2 + 2 ^ 24 * b3) | _ \<Rightarrow> None)"

text \<open>The tables and the target lie in the part of the memory that is mapped.\<close>

definition inside :: "(int \<Rightarrow> int) \<Rightarrow> int \<Rightarrow> int \<Rightarrow> int \<Rightarrow> int \<Rightarrow> bool" where
  "inside mem cr3 n extent a = (let pde = le4 mem (pde_at cr3 a)
     in pde_at cr3 a + 4 \<le> n \<and> (odd pde \<and> \<not> bit pde 7 \<longrightarrow> pte_at pde a + 4 \<le> n) \<and>
        (case mmu mem cr3 a of None \<Rightarrow> True | Some p \<Rightarrow> p + extent \<le> n))"

text \<open>A view of the memory as bytes that every read of the region agrees with.\<close>

definition shows_memory :: "'h guest \<Rightarrow> (int \<Rightarrow> int) \<Rightarrow> bool" where
  "shows_memory G mem \<longleftrightarrow> (\<forall>p. 0 \<le> mem p \<and> mem p < 256) \<and> (\<forall>p h. fst (G p h) = le4 mem p)"

subsection \<open>Masks\<close>

lemma high_mask:
  fixes x :: int
  assumes "0 \<le> x" "x < 2 ^ (n + m)"
  shows "x AND push_bit n (mask m) = x div 2 ^ n * 2 ^ n"
proof -
  have "drop_bit n x < 2 ^ m"
  proof (rule ccontr)
    assume "\<not> drop_bit n x < 2 ^ m"
    then have "2 ^ m * 2 ^ n \<le> x div 2 ^ n * 2 ^ n" by (intro mult_right_mono) (simp_all add: drop_bit_eq_div)
    also have "\<dots> \<le> x" by (simp add: minus_mod_eq_div_mult [symmetric])
    finally show False using assms(2) by (simp add: power_add mult.commute)
  qed
  then have "take_bit m (drop_bit n x) = drop_bit n x" using assms(1) by (simp add: take_bit_int_eq_self drop_bit_nonnegative_int_iff)
  moreover have "x AND push_bit n (mask m) = push_bit n (take_bit m (drop_bit n x))"
    by (rule bit_eqI) (auto simp: bit_simps)
  ultimately show ?thesis by (simp add: push_bit_eq_mult drop_bit_eq_div)
qed

lemma page_masks:
  fixes x :: int
  assumes "0 \<le> x" "x < 2 ^ 32"
  shows "x AND 0xFFFFF000 = x div 4096 * 4096" "x AND 0xFFC00000 = x div 2 ^ 22 * 2 ^ 22" "x AND 1 = 0 \<longleftrightarrow> even x" "x AND 0x80 \<noteq> 0 \<longleftrightarrow> bit x 7"
proof -
  show "x AND 0xFFFFF000 = x div 4096 * 4096" using high_mask [of x 12 20] assms by (simp add: mask_eq_exp_minus_1)
  show "x AND 0xFFC00000 = x div 2 ^ 22 * 2 ^ 22" using high_mask [of x 22 10] assms by (simp add: mask_eq_exp_minus_1)
  show "x AND 1 = 0 \<longleftrightarrow> even x" by (simp add: and_one_eq even_iff_mod_2_eq_zero)
  have "x AND push_bit 7 1 = (if bit x 7 then push_bit 7 1 else 0)" by (rule bit_eqI) (auto simp: bit_simps simp del: push_bit_of_1 push_bit_numeral)
  then show "x AND 0x80 \<noteq> 0 \<longleftrightarrow> bit x 7" by simp
qed

lemma offset_masks: "a AND 0xFFF = a mod 4096" "a AND 0x3FFFFF = a mod 2 ^ 22" "a AND 0x3FF = a mod 1024" for a :: int
  using and_mask_mod [of a 12] and_mask_mod [of a 22] and_mask_mod [of a 10] by simp_all

lemma or_offset: "(q * 2 ^ n OR a mod 2 ^ n) = q * 2 ^ n + a mod 2 ^ n" for q a :: int
proof -
  have "push_bit n q AND take_bit n a = 0" by (rule bit_eqI) (auto simp: bit_simps)
  then show ?thesis using disjunctive_add_eq_or [of "push_bit n q" "take_bit n a"] by (simp add: push_bit_eq_mult take_bit_eq_mod)
qed

lemma le4_range:
  assumes "shows_memory G mem" shows "0 \<le> le4 mem p" "le4 mem p < 2 ^ 32"
proof -
  have b: "0 \<le> mem q" "mem q \<le> 255" for q using assms zless_imp_add1_zle [of "mem q" 256] by (simp_all add: shows_memory_def)
  show "0 \<le> le4 mem p" using b(1) by (simp add: le4_def)
  show "le4 mem p < 2 ^ 32" using b(2) [of p] b(2) [of "p + 1"] b(2) [of "p + 2"] b(2) [of "p + 3"] by (simp add: le4_def)
qed

subsection \<open>The walk is the translation\<close>

lemma gu32_read: "shows_memory G mem \<Longrightarrow> p + 4 \<le> n \<Longrightarrow> \<exists>h'. gu32 G n p h = Some (Inr (le4 mem p), h')"
  by (simp add: gu32_def shows_memory_def case_prod_beta)

lemma walk_mmu:
  assumes "shows_memory G mem" "0 \<le> cr3" "cr3 < 2 ^ 32"
  shows "\<exists>r h'. walk G n cr3 extent a h = Some (r, h') \<and>
    (if inside mem cr3 n extent a \<and> mmu mem cr3 a \<noteq> None then r = Inr (the (mmu mem cr3 a)) else \<exists>e. r = Inl (Walk e))"
proof -
  define p1 where "p1 = pde_at cr3 a"
  define pde where "pde = le4 mem p1"
  define p2 where "p2 = pte_at pde a"
  define pte where "pte = le4 mem p2"
  note defs = p1_def [symmetric] pde_def [symmetric] p2_def [symmetric] pte_def [symmetric]
  have addr1: "(cr3 AND 0xFFFFF000) + (drop_bit 22 a AND 0x3FF) * 4 = p1"
    unfolding p1_def pde_at_def page_masks [OF assms(2,3)] offset_masks by (simp add: drop_bit_eq_div)
  note m1 = page_masks [OF le4_range [OF assms(1)], of p1, folded pde_def]
  note m2 = page_masks [OF le4_range [OF assms(1)], of p2, folded pte_def]
  have addr2: "(pde AND 0xFFFFF000) + (drop_bit 12 a AND 0x3FF) * 4 = p2"
    unfolding p2_def pte_at_def m1 offset_masks by (simp add: drop_bit_eq_div)
  have large: "((pde AND 0xFFC00000) OR (a AND 0x3FFFFF)) = pde div 2 ^ 22 * 2 ^ 22 + a mod 2 ^ 22"
    unfolding m1 offset_masks or_offset by simp
  have small: "((pte AND 0xFFFFF000) OR (a AND 0xFFF)) = pte div 4096 * 4096 + a mod 4096"
    unfolding m2 offset_masks using or_offset [of "pte div 4096" 12 a] by simp
  have mmu: "mmu mem cr3 a = (if even pde then None else if bit pde 7 then Some (pde div 2 ^ 22 * 2 ^ 22 + a mod 2 ^ 22)
      else if even pte then None else Some (pte div 4096 * 4096 + a mod 4096))"
    by (simp only: mmu_def Let_def defs)
  have inside: "inside mem cr3 n extent a \<longleftrightarrow> p1 + 4 \<le> n \<and> (odd pde \<and> \<not> bit pde 7 \<longrightarrow> p2 + 4 \<le> n) \<and>
      (case mmu mem cr3 a of None \<Rightarrow> True | Some p \<Rightarrow> p + extent \<le> n)"
    by (simp only: inside_def Let_def defs)
  show ?thesis
  proof (cases "p1 + 4 \<le> n")
    case False
    then show ?thesis unfolding walk_def Let_def addr1 inside by simp
  next
    case True
    then obtain h1 where h1: "gu32 G n p1 h = Some (Inr pde, h1)" using gu32_read [OF assms(1), of p1 n h] unfolding pde_def by blast
    have w: "walk G n cr3 extent a h = (if even pde then Some (Inl (Walk (PdeAbsent a pde)), h1)
        else bindIO (if bit pde 7 then retIO (pde div 2 ^ 22 * 2 ^ 22 + a mod 2 ^ 22)
          else if n < p2 + 4 then failIO (Walk (PteOutside p2))
          else bindIO (gu32 G n p2) (\<lambda>pte. if pte AND 1 = 0 then failIO (Walk (PteAbsent a pte)) else retIO ((pte AND 0xFFFFF000) OR (a AND 0xFFF))))
         (\<lambda>physical. if n < physical + extent then failIO (Walk (MapsOutside a physical)) else retIO physical) h1)"
      unfolding walk_def Let_def addr1 using True h1 addr2 large m1(3,4) by simp
    show ?thesis
    proof (cases "even pde \<or> bit pde 7 \<or> n < p2 + 4")
      case True
      then show ?thesis unfolding w inside mmu using \<open>p1 + 4 \<le> n\<close> by (auto simp: not_less)
    next
      case False
      then obtain h2 where h2: "gu32 G n p2 h1 = Some (Inr pte, h2)" using gu32_read [OF assms(1), of p2 n h1] unfolding pte_def by auto
      show ?thesis unfolding w inside mmu using False h2 \<open>p1 + 4 \<le> n\<close> m2(3) small by (cases "even pte") (auto simp: not_less)
    qed
  qed
qed

subsection \<open>A word within a page\<close>

lemma page_split:
  fixes a k :: int
  assumes "0 \<le> k" "a mod 4096 + k < 4096"
  shows "(a + k) div 4096 = a div 4096" "(a + k) div 2 ^ 22 = a div 2 ^ 22" "(a + k) mod 4096 = a mod 4096 + k" "(a + k) mod 2 ^ 22 = a mod 2 ^ 22 + k"
proof -
  have e: "a + k = 4096 * (a div 4096) + (a mod 4096 + k)" "0 \<le> a mod 4096 + k" using assms(1) by simp_all
  have q: "(a + k) div 4096 = a div 4096" "(a + k) mod 4096 = a mod 4096 + k"
    using int_div_pos_eq [OF e assms(2)] int_mod_pos_eq [OF e assms(2)] by simp_all
  have "(a + k) div (4096 * m) = a div (4096 * m) \<and> (a + k) mod (4096 * m) = a mod (4096 * m) + k" if "0 \<le> m" for m
    using that q by (simp add: zdiv_zmult2_eq zmod_zmult2_eq)
  from q this [of 1024]
  show "(a + k) div 4096 = a div 4096" "(a + k) div 2 ^ 22 = a div 2 ^ 22" "(a + k) mod 4096 = a mod 4096 + k" "(a + k) mod 2 ^ 22 = a mod 2 ^ 22 + k"
    by simp_all
qed

lemma mmu_page:
  assumes "0 \<le> k" "a mod 4096 + k < 4096"
  shows "mmu mem cr3 (a + k) = map_option (\<lambda>p. p + k) (mmu mem cr3 a)"
  unfolding mmu_def pde_at_def pte_at_def page_split [OF assms] by (simp add: Let_def)

lemma mmu_word:
  assumes "a mod 4 = 0" "0 \<le> k" "k < 4"
  shows "mmu mem cr3 (a + k) = map_option (\<lambda>p. p + k) (mmu mem cr3 a)"
proof -
  have "(4 :: int) dvd 4096" by simp
  then have "a mod 4096 mod 4 = 0" using assms(1) by (simp add: mod_mod_cancel)
  moreover have "a mod 4096 < 4096" by simp
  ultimately have "a mod 4096 + k < 4096" using assms(2,3) by presburger
  then show ?thesis using assms(2) by (rule mmu_page [rotated])
qed

lemma guest_word_at:
  assumes "a mod 4 = 0"
  shows "guest_word mem cr3 a = map_option (le4 mem) (mmu mem cr3 a)"
  using mmu_word [OF assms, of 1] mmu_word [OF assms, of 2] mmu_word [OF assms, of 3]
  by (cases "mmu mem cr3 a") (simp_all add: guest_word_def guest_byte_def le4_def)

lemma peek_rows:
  assumes "shows_memory G mem" "0 \<le> cr3" "cr3 < 2 ^ 32" "a mod 4 = 0"
  shows "\<exists>r h'. peek_loop G n cr3 a is h = Some (r, h') \<and>
    (if \<forall>i \<in> set is. inside mem cr3 n 4 (a + 4 * i) \<and> mmu mem cr3 (a + 4 * i) \<noteq> None
     then r = Inr (map (\<lambda>i. (a + 4 * i, the (mmu mem cr3 (a + 4 * i)), the (guest_word mem cr3 (a + 4 * i)))) is) else \<exists>e. r = Inl (Walk e))"
proof (induction "is" arbitrary: h)
  case (Cons i "is")
  have m: "(a + 4 * i) mod 4 = 0" using assms(4) by presburger
  obtain r h1 where w: "walk G n cr3 4 (a + 4 * i) h = Some (r, h1)"
    "if inside mem cr3 n 4 (a + 4 * i) \<and> mmu mem cr3 (a + 4 * i) \<noteq> None then r = Inr (the (mmu mem cr3 (a + 4 * i))) else \<exists>e. r = Inl (Walk e)"
    using walk_mmu [OF assms(1-3), of n 4 "a + 4 * i" h] by blast
  show ?case
  proof (cases "inside mem cr3 n 4 (a + 4 * i) \<and> mmu mem cr3 (a + 4 * i) \<noteq> None")
    case True
    then obtain p where p: "mmu mem cr3 (a + 4 * i) = Some p" "p + 4 \<le> n" by (auto simp: inside_def Let_def)
    obtain h2 where h2: "gu32 G n p h1 = Some (Inr (le4 mem p), h2)" using gu32_read [OF assms(1) p(2)] by blast
    have "guest_word mem cr3 (a + 4 * i) = Some (le4 mem p)" by (simp add: guest_word_at [OF m] p(1))
    moreover obtain r' h3 where "peek_loop G n cr3 a is h2 = Some (r', h3)"
      "if \<forall>i \<in> set is. inside mem cr3 n 4 (a + 4 * i) \<and> mmu mem cr3 (a + 4 * i) \<noteq> None
       then r' = Inr (map (\<lambda>i. (a + 4 * i, the (mmu mem cr3 (a + 4 * i)), the (guest_word mem cr3 (a + 4 * i)))) is) else \<exists>e. r' = Inl (Walk e)"
      using Cons.IH by blast
    ultimately show ?thesis using w True p h2 by (auto split: if_splits)
  next
    case False
    then show ?thesis using w by (auto split: if_splits)
  qed
qed simp

text \<open>
  C33. Peeking shows the memory of the client. For a dword-aligned address the probe prints, word by word, the
  physical address that the page tables give and the word whose four bytes the client sees there, each
  translated by itself; it fails exactly when one of the words is not mapped, or a table or the word lies
  outside the mapped part of the memory, and no read of it leaves that part.
\<close>
theorem linear_peek_exact:
  assumes "shows_memory G mem" "0 \<le> cr3" "cr3 < 2 ^ 32" "a mod 4 = 0" "1 \<le> count" "count \<le> 64" "open_mmio B h = Some (Inr (), h0)"
  shows "\<exists>r h'. linear_peek_probe B G n cr3 a count h = Some (r, h') \<and>
    (if \<forall>i \<in> {0..<count}. inside mem cr3 n 4 (a + 4 * i) \<and> mmu mem cr3 (a + 4 * i) \<noteq> None
     then r = Inr (map (\<lambda>i. (a + 4 * i, the (mmu mem cr3 (a + 4 * i)), the (guest_word mem cr3 (a + 4 * i)))) [0 .. count - 1])
     else \<exists>e. r = Inl (Walk e))"
proof -
  have s: "set [0 .. count - 1] = {0..<count}" by auto
  show ?thesis using peek_rows [OF assms(1-4), of n "[0 .. count - 1]" h0] assms(5-7) unfolding s by (simp add: linear_peek_probe_def)
qed

text \<open>A client with one table: page 0 of its memory is page 2, page 1 is page 5.\<close>

definition demo_bytes :: "int \<Rightarrow> int" where
  "demo_bytes p = (if p = 0 then 1 else if p = 1 then 0x10 else if p = 0x1000 then 1 else if p = 0x1001 then 0x20
     else if p = 0x1004 then 1 else if p = 0x1005 then 0x50 else if p = 0x2FFC then 9 else if p = 0x5000 then 7 else 0)"

definition idle_board :: "unit board" where
  "idle_board = \<lparr>bd_state = (\<lambda>_. Some ''operating''), bd_read = (\<lambda>r d. (if r = R_IDENT then IDENT_MAGIC else 0, d)), bd_write = (\<lambda>_ _ d. d),
     bd_low16 = (\<lambda>_ d. (0, d)), bd_set_low16 = (\<lambda>_ _ d. d), bd_now = (\<lambda>d. (0, d)), bd_now_ns = (\<lambda>d. (0, d)), bd_sleep = (\<lambda>_ d. d)\<rparr>"

definition idle_guest :: "unit guest" where "idle_guest p h = (le4 demo_bytes p, h)"

lemma demo_memory: "shows_memory idle_guest demo_bytes"
  by (simp add: shows_memory_def idle_guest_def demo_bytes_def)

lemma demo_open: "open_mmio idle_board () = Some (Inr (), ())"
  by (simp add: open_mmio_def require_fpga_operating_def idle_board_def rd32_def bindIO_def strip_def lstrip_def is_ws_def)

lemma demo_mmu: "mmu demo_bytes 0 0xFFC = Some 0x2FFC" "mmu demo_bytes 0 0x1000 = Some 0x5000"
  "inside demo_bytes 0 0x6000 4 0xFFC" "inside demo_bytes 0 0x6000 4 0x1000"
  by (simp_all add: mmu_def inside_def Let_def pde_at_def pte_at_def le4_def demo_bytes_def bit_iff_odd)

lemma linear_peek_exact_witness:
  "\<exists>h'. linear_peek_probe idle_board idle_guest 0x6000 0 0xFFC 2 () = Some (Inr [(0xFFC, 0x2FFC, 9), (0x1000, 0x5000, 7)], h')"
proof -
  have two: "[0 .. 2 - 1] = [0, 1 :: int]" "{0..<2} = {0, 1 :: int}" by (auto simp: upto.simps)
  have w: "guest_word demo_bytes 0 0xFFC = Some 9" "guest_word demo_bytes 0 0x1000 = Some 7"
    using guest_word_at [of "0xFFC" demo_bytes 0] guest_word_at [of "0x1000" demo_bytes 0] by (simp_all add: demo_mmu le4_def demo_bytes_def)
  show ?thesis
    using linear_peek_exact [OF demo_memory, where ?cr3.0 = 0 and a = "0xFFC" and count = 2 and n = "0x6000" and B = idle_board and h = "()"] demo_open unfolding two
    by (simp add: demo_mmu w)
qed

subsection \<open>The record of an exception frame\<close>

lemma attempt_loop_found:
  assumes "attempt_loop B m timeout interval always started h = Some (Inr (Some x), h')"
  shows "\<exists>h1. m h1 = Some (Inr (Some x), h')"
proof -
  let ?Q = "\<lambda>(B' :: 'b board) m' (timeout :: int) (interval :: int) (always :: bool) (started :: int) (h :: 'b) (y :: (board_error + 'a option) \<times> 'b). m' = m \<longrightarrow> (\<forall>x h'. y = (Inr (Some x), h') \<longrightarrow> (\<exists>h1. m h1 = Some (Inr (Some x), h')))"
  have "?Q B m timeout interval always started h (Inr (Some x), h')"
  proof (rule attempt_loop.raw_induct [where P = ?Q, OF _ assms], goal_cases)
    case (1 f B' m' timeout interval always started h y)
    show ?case
    proof (intro impI allI)
      fix x h' assume m: "m' = m" and y: "y = (Inr (Some x), h')"
      from 1(2) [unfolded y] show "\<exists>h1. m h1 = Some (Inr (Some x), h')"
      proof (cases rule: bindIO_cases)
        case (2 r t)
        show ?thesis
        proof (cases r)
          case (Some z)
          then have "attempt m h = Some (Inr (Some x), h')" using 2 m by simp
          then have "m h = Some (Inr (Some x), h')" by (auto simp: attempt_def split: option.splits sum.splits if_splits)
          then show ?thesis by blast
        next
          case None
          have b: "bindIO (if timeout \<noteq> 0 then bindIO (now B') (\<lambda>t. retIO (timeout \<le> t - started)) else retIO False) (\<lambda>late h.
              if late then Some (Inr None, h) else bindIO (if always \<or> interval \<noteq> 0 then sleep B' interval else retIO ())
                (\<lambda>_. f B' m' timeout interval always started) h) t = Some (Inr (Some x), h')"
            using 2(2) None by simp
          then obtain u where "f B' m' timeout interval always started u = Some (Inr (Some x), h')"
            by (auto elim!: bindIO_cases split: if_splits)
          then show ?thesis using 1(1) m by blast
        qed
      qed simp
    qed
  qed
  then show ?thesis by blast
qed

lemma frame_words_le4:
  "shows_memory G mem \<Longrightarrow> frame_words G n p is h = Some (Inr ws, h') \<Longrightarrow> ws = map (\<lambda>i. le4 mem (p + 4 * i)) is"
  by (induction "is" arbitrary: h h' ws)
    (auto elim!: bindIO_cases simp: gu32_def shows_memory_def case_prod_beta retIO_def split: if_splits)

lemma walk_found:
  assumes "shows_memory G mem" "0 \<le> cr3" "cr3 < 2 ^ 32" "walk G n cr3 extent a h = Some (Inr p, h')"
  shows "mmu mem cr3 a = Some p" "p + extent \<le> n"
  using walk_mmu [OF assms(1-3), of n extent a h] assms(4) by (auto simp: inside_def Let_def split: if_splits)


lemma idle_ops [simp]: "rd32 idle_board r h = Some (Inr (if r = R_IDENT then IDENT_MAGIC else 0), h)" "poke idle_board r v h = Some (Inr (), h)"
  "sleep idle_board t h = Some (Inr (), h)" "now idle_board h = Some (Inr 0, h)"
  by (simp_all add: rd32_def poke_def sleep_def now_def idle_board_def)

lemma idle_entries: "core_entries idle_board is h = Some (Inr (map (\<lambda>i. core_entry_of i 0 0 0) is), h)"
  by (induction "is") (simp_all add: dbg_registers)

lemma idle_ring: "read_core_observe_ring idle_board depth h = Some (Inr (map (\<lambda>i. core_entry_of i 0 0 0) [0 .. depth - 1]), h)"
  by (simp add: read_core_observe_ring_def finallyIO_def idle_entries)

lemma idle_stores: "0 < p \<Longrightarrow> logger_stores p count (map (\<lambda>i. core_entry_of i 0 0 0) is) = []"
  by (simp add: logger_stores_def core_entry_of_def py_int_hex_pad filter_empty_conv Let_def)

lemma idle_walk: "walk idle_guest 0x6000 0 extent 0xFFC () = (if 0x6000 < 0x2FFC + extent then Some (Inl (Walk (MapsOutside 0xFFC 0x2FFC)), ()) else Some (Inr 0x2FFC, ()))"
  by (simp add: walk_def Let_def gu32_def idle_guest_def le4_def demo_bytes_def)

text \<open>What the trap prints for a record of two words that starts on the last word of a page.\<close>

definition demo_frame :: fault_frame where
  "demo_frame = \<lparr>ff_linear = 0xFFC, ff_physical = 0x2FFC, ff_ddr = True, ff_frozen = False, ff_vector = 0, ff_state = 0, ff_frz_eip = 0,
     ff_last_eip = 0, ff_words = [9, 0], ff_ring = []\<rparr>"

lemma idle_trap: "trap_quake_fault_frame_probe idle_board idle_guest 0x6000 0 0xFFC 0 2 0 0 () = Some (Inr (Some demo_frame), ())"
proof -
  have two: "[0 .. 2 - 1] = [0, 1 :: int]" by (simp add: upto.simps)
  have round: "frame_round idle_board idle_guest 0x6000 0 0xFFC 2 () = Some (Inr (Some demo_frame), ())"
    unfolding frame_round_def two
    by (simp add: idle_walk idle_ring idle_stores gu32_def idle_guest_def le4_def demo_bytes_def external_freeze_def
      demo_frame_def frozen_of_def dbg_registers Let_def)
  show ?thesis
    by (simp add: trap_quake_fault_frame_probe_def frame_args_def demo_open attempt_loop.simps [of idle_board] attempt_def round)
qed

text \<open>
  With a data segment that does not start on a page boundary the guard accepts such a record although it
  crosses a page, and the second word is not the one that the client sees.
\<close>

lemma fault_frame_straddles:
  "frame_args 0 2 = None \<and> trap_quake_fault_frame_probe idle_board idle_guest 0x6000 0 0xFFC 0 2 0 0 () = Some (Inr (Some demo_frame), ()) \<and>
    ff_words demo_frame ! 1 = 0 \<and> guest_word demo_bytes 0 (0xFFC + 0 + 4 * 1) = Some 7"
  using guest_word_at [of "0x1000" demo_bytes 0] by (simp add: idle_trap frame_args_def demo_frame_def demo_mmu le4_def demo_bytes_def)


end
