(* ===== verification/Board_Traps.thy ===== *)
theory Board_Traps
  imports Board_Walk Elf_Flat
begin

text \<open>
  The traps of fpga/board-tools/ven_board_probe.py that watch a running core: the fixed comparator
  profiles, and the detectors that poll the newest retired instruction and freeze the rings themselves.
  Progress messages are left out.
\<close>

subsection \<open>The comparator profiles\<close>

definition TRAP_ZERO_CFG :: int where "TRAP_ZERO_CFG = 0x000F0000"
definition TRAP_ZERO_RANGE :: int where "TRAP_ZERO_RANGE = 0x00030000"
definition TRAP_CS0_HIGH_CFG :: int where "TRAP_CS0_HIGH_CFG = 0x000F0000"
definition TRAP_CS0_HIGH_RANGE :: int where "TRAP_CS0_HIGH_RANGE = 0xFFFF8000"
definition TRAP_BADCS_CFG :: int where "TRAP_BADCS_CFG = 0x000B3107"
definition TRAP_BADCS_RANGE :: int where "TRAP_BADCS_RANGE = 0"

definition arm_trap :: "'h board \<Rightarrow> int \<Rightarrow> int \<Rightarrow> ('h, unit) bio" where
  "arm_trap B cfg eip_range = bindIO (open_mmio B) (\<lambda>_. bindIO (poke B W_DBG_CMP_RANGE eip_range) (\<lambda>_.
     bindIO (poke B W_DBG_CMP_CFG cfg) (\<lambda>_. bindIO (rd32 B R_IDENT) (\<lambda>ident.
       if ident \<noteq> IDENT_MAGIC then failIO (WrongIdent ident) else retIO ()))))"

definition trap_zero_probe :: "'h board \<Rightarrow> ('h, unit) bio" where "trap_zero_probe B = arm_trap B TRAP_ZERO_CFG TRAP_ZERO_RANGE"
definition trap_badcs_probe :: "'h board \<Rightarrow> ('h, unit) bio" where "trap_badcs_probe B = arm_trap B TRAP_BADCS_CFG TRAP_BADCS_RANGE"
definition trap_cs0_high_probe :: "'h board \<Rightarrow> ('h, unit) bio" where "trap_cs0_high_probe B = arm_trap B TRAP_CS0_HIGH_CFG TRAP_CS0_HIGH_RANGE"

text \<open>What is printed: frozen, both instruction pointers, state, vector, count; the frozen flag is the exit status.\<close>

definition trap_status_probe :: "'h board \<Rightarrow> ('h, bool \<times> int \<times> int \<times> int \<times> int \<times> int) bio" where
  "trap_status_probe B = bindIO (open_mmio B) (\<lambda>_. bindIO (rd32 B R_DBG_FRZINFO) (\<lambda>info. bindIO (rd32 B R_DBG_FRZEIP) (\<lambda>frz.
     bindIO (rd32 B R_DBG_LASTEIP) (\<lambda>last.
       retIO (frozen_of info, frz, last, drop_bit 8 info AND 0x3F, drop_bit 16 info AND 0xFF, info AND 0x3F)))))"

subsection \<open>Polling\<close>

text \<open>What a round decides: fire, go round again at once, or wait.\<close>

datatype ('x, 's) verdict = Fired 'x | Again 's | Wait 's

definition overdue :: "'h board \<Rightarrow> int \<Rightarrow> int \<Rightarrow> ('h, bool) bio" where
  "overdue B timeout started = (if timeout \<noteq> 0 then bindIO (now B) (\<lambda>t. retIO (timeout \<le> t - started)) else retIO False)"

definition pause :: "'h board \<Rightarrow> int \<Rightarrow> ('h, unit) bio" where
  "pause B interval = (if interval \<noteq> 0 then sleep B interval else retIO ())"

partial_function (option) poll_loop :: "'h board \<Rightarrow> ('s \<Rightarrow> ('h, ('x, 's) verdict) bio) \<Rightarrow> int \<Rightarrow> int \<Rightarrow> int \<Rightarrow> 's \<Rightarrow> 'h \<Rightarrow>
    ((board_error + ('x + 's)) \<times> 'h) option" where
  "poll_loop B check timeout interval started s h = bindIO (check s) (\<lambda>r h. case r of
       Fired x \<Rightarrow> Some (Inr (Inl x), h)
     | Again s \<Rightarrow> poll_loop B check timeout interval started s h
     | Wait s \<Rightarrow> bindIO (overdue B timeout started) (\<lambda>late h. if late then Some (Inr (Inr s), h)
         else bindIO (pause B interval) (\<lambda>_. poll_loop B check timeout interval started s) h) h) h"

text \<open>The freeze, and what all detectors print after it: the frozen flag and the frozen instruction pointer.\<close>

definition fire :: "'h board \<Rightarrow> ('h, bool \<times> int) bio" where
  "fire B = bindIO (external_freeze B) (\<lambda>_. bindIO (rd32 B R_DBG_FRZINFO) (\<lambda>info. bindIO (rd32 B R_DBG_FRZEIP) (\<lambda>frz.
     retIO (frozen_of info, frz))))"

subsection \<open>The detectors\<close>

definition wide_round :: "'h board \<Rightarrow> int \<Rightarrow> unit \<Rightarrow> ('h, (int \<times> bool \<times> int \<times> int, unit) verdict) bio" where
  "wide_round B minimum s = bindIO (rd32 B R_DBG_LASTEIP) (\<lambda>eip.
     if minimum \<le> eip then bindIO (fire B) (\<lambda>(frozen, frz). bindIO (rd32 B R_DBG_LASTEIP) (\<lambda>last. retIO (Fired (eip, frozen, frz, last))))
     else retIO (Wait ()))"

definition trap_wide_eip_probe :: "'h board \<Rightarrow> int \<Rightarrow> int \<Rightarrow> int \<Rightarrow> ('h, (int \<times> bool \<times> int \<times> int) + unit) bio" where
  "trap_wide_eip_probe B minimum timeout interval = bindIO (open_mmio B) (\<lambda>_. bindIO (now B) (\<lambda>started.
     poll_loop B (wide_round B minimum) timeout interval started ()))"

definition selectors :: "string \<Rightarrow> int list option" where
  "selectors text = those (map (\<lambda>value. map_option (\<lambda>v. v AND 0xFFFF) (py_int0 value)) (split_at (CHR '','') text))"

definition newest :: "'h board \<Rightarrow> ('h, int \<times> int) bio" where
  "newest B = bindIO (rd32 B R_DBG_TRPC) (\<lambda>eip. bindIO (rd32 B R_DBG_TRAUX) (\<lambda>aux. retIO (eip, aux AND 0xFFFF)))"

definition unexpected_round :: "'h board \<Rightarrow> int list \<Rightarrow> unit \<Rightarrow> ('h, (int \<times> int \<times> bool \<times> int, unit) verdict) bio" where
  "unexpected_round B allowed s = bindIO (newest B) (\<lambda>(eip, cs).
     if cs \<notin> set allowed then bindIO (fire B) (\<lambda>(frozen, frz). retIO (Fired (cs, eip, frozen, frz))) else retIO (Wait ()))"

definition trap_unexpected_cs_probe :: "'h board \<Rightarrow> string \<Rightarrow> int \<Rightarrow> int \<Rightarrow> int \<Rightarrow> ('h, (int \<times> int \<times> bool \<times> int) + unit) bio" where
  "trap_unexpected_cs_probe B allow delay timeout interval = (case selectors allow of None \<Rightarrow> failIO BoardValue
     | Some allowed \<Rightarrow> bindIO (open_mmio B) (\<lambda>_. bindIO (now B) (\<lambda>started. bindIO (pause B delay) (\<lambda>_.
         poll_loop B (unexpected_round B allowed) timeout interval started ()))))"

text \<open>The detectors of an exit remember whether they are armed and how many exits they have seen.\<close>

record exit_args =
  xa_entries :: "int list"
  xa_allowed :: "int list"
  xa_eip_min :: int
  xa_require_pe :: bool
  xa_skip :: int

text \<open>A round decides on the selector, the instruction pointer and CR0: None for a freeze.\<close>

definition exit_step :: "exit_args \<Rightarrow> int \<times> int \<times> int \<Rightarrow> bool \<times> int \<Rightarrow> (unit, bool \<times> int) verdict" where
  "exit_step a sample s = (case sample of (cs, eip, cr0) \<Rightarrow> case s of (armed, exits) \<Rightarrow>
     if \<not> armed \<and> cs \<in> set (xa_entries a) \<and> xa_eip_min a \<le> eip \<and> (\<not> xa_require_pe a \<or> cr0 AND 1 \<noteq> 0) then Wait (True, exits)
     else if armed \<and> (cs \<notin> set (xa_allowed a) \<or> xa_require_pe a \<and> cr0 AND 1 = 0) then
       (if exits + 1 \<le> xa_skip a then Again (False, exits + 1) else Fired ())
     else Wait (armed, exits))"

definition exit_round :: "'h board \<Rightarrow> exit_args \<Rightarrow> bool \<times> int \<Rightarrow> ('h, (int \<times> int \<times> int \<times> bool \<times> int, bool \<times> int) verdict) bio" where
  "exit_round B a s = bindIO (newest B) (\<lambda>(eip, cs). bindIO (rd32 B R_DBG_CR0) (\<lambda>cr0.
     case exit_step a (cs, eip, cr0) s of
       Fired _ \<Rightarrow> bindIO (fire B) (\<lambda>(frozen, frz). retIO (Fired (cs, eip, cr0, frozen, frz)))
     | Again s \<Rightarrow> retIO (Again s) | Wait s \<Rightarrow> retIO (Wait s)))"

definition trap_protected_exit_probe ::
    "'h board \<Rightarrow> string \<Rightarrow> string \<Rightarrow> int \<Rightarrow> bool \<Rightarrow> int \<Rightarrow> int \<Rightarrow> int \<Rightarrow> int \<Rightarrow> ('h, (int \<times> int \<times> int \<times> bool \<times> int) + (bool \<times> int)) bio" where
  "trap_protected_exit_probe B enter allow eip_min require_pe skip delay timeout interval =
    (case (selectors enter, selectors allow) of
       (Some entries, Some allowed) \<Rightarrow>
         if entries = [] then failIO EmptyEntries
         else if \<not> set entries \<subseteq> set allowed then failIO EntryNotAllowed
         else bindIO (open_mmio B) (\<lambda>_. bindIO (now B) (\<lambda>started. bindIO (pause B delay) (\<lambda>_.
           poll_loop B (exit_round B \<lparr>xa_entries = entries, xa_allowed = allowed, xa_eip_min = eip_min, xa_require_pe = require_pe, xa_skip = skip\<rparr>)
             timeout interval started (False, 0))))
     | _ \<Rightarrow> failIO BoardValue)"

definition pe_exit_step :: "int option \<Rightarrow> int \<Rightarrow> int \<times> int \<Rightarrow> bool \<times> int \<Rightarrow> (unit, bool \<times> int) verdict" where
  "pe_exit_step arm_cs skip sample s = (case sample of (cs, cr0) \<Rightarrow> case s of (armed, exits) \<Rightarrow>
     if \<not> armed \<and> cr0 AND 1 \<noteq> 0 \<and> (arm_cs = None \<or> arm_cs = Some cs) then Wait (True, exits)
     else if armed \<and> cr0 AND 1 = 0 then (if exits + 1 \<le> skip then Again (False, exits + 1) else Fired ())
     else Wait (armed, exits))"

definition pe_exit_round :: "'h board \<Rightarrow> int option \<Rightarrow> int \<Rightarrow> bool \<times> int \<Rightarrow> ('h, (int \<times> int \<times> int \<times> bool \<times> int, bool \<times> int) verdict) bio" where
  "pe_exit_round B arm_cs skip s = bindIO (rd32 B R_DBG_CR0) (\<lambda>cr0. bindIO (newest B) (\<lambda>(eip, cs).
     case pe_exit_step arm_cs skip (cs, cr0) s of
       Fired _ \<Rightarrow> bindIO (fire B) (\<lambda>(frozen, frz). retIO (Fired (cs, eip, cr0, frozen, frz)))
     | Again s \<Rightarrow> retIO (Again s) | Wait s \<Rightarrow> retIO (Wait s)))"

definition trap_pe_exit_probe ::
    "'h board \<Rightarrow> int option \<Rightarrow> int \<Rightarrow> int \<Rightarrow> int \<Rightarrow> int \<Rightarrow> ('h, (int \<times> int \<times> int \<times> bool \<times> int) + (bool \<times> int)) bio" where
  "trap_pe_exit_probe B arm_cs skip delay timeout interval = bindIO (open_mmio B) (\<lambda>_. bindIO (now B) (\<lambda>started. bindIO (pause B delay) (\<lambda>_.
     poll_loop B (pe_exit_round B arm_cs skip) timeout interval started (False, 0))))"

text \<open>The detector of a run through data keeps the previous instruction and the length of the run.\<close>

definition linear_step :: "int \<Rightarrow> int \<Rightarrow> int \<times> int \<Rightarrow> (int \<times> int) option \<times> int \<Rightarrow> bool \<times> int" where
  "linear_step max_delta limit current s = (case s of (previous, streak) \<Rightarrow> case previous of
       None \<Rightarrow> (False, streak)
     | Some p \<Rightarrow> if current = p then (False, streak)
         else let delta = snd current - snd p;
                  streak = (if fst current = fst p \<and> 0 < delta \<and> delta \<le> max_delta \<and> delta AND 1 = 0 then streak + 1 else 0)
              in (limit \<le> streak, streak))"

definition linear_round :: "'h board \<Rightarrow> 'h guest \<Rightarrow> bool \<Rightarrow> int \<Rightarrow> int \<Rightarrow> (int \<times> int) option \<times> int \<Rightarrow>
    ('h, (int \<times> int \<times> int \<times> bool \<times> int, (int \<times> int) option \<times> int) verdict) bio" where
  "linear_round B L no_tick_gate max_delta limit s =
    bindIO (if no_tick_gate then retIO True else bindIO (gu32 L 0x100000 0x46C) (\<lambda>t. retIO (t \<noteq> 0))) (\<lambda>watch.
      if \<not> watch then retIO (Wait s)
      else bindIO (rd32 B R_DBG_LASTEIP) (\<lambda>eip. bindIO (rd32 B R_DBG_TRAUX) (\<lambda>aux.
        let current = (aux AND 0xFFFF, eip); (fires, streak) = linear_step max_delta limit current s
        in if fires then bindIO (fire B) (\<lambda>(frozen, frz). retIO (Fired (fst current, eip, streak, frozen, frz)))
           else retIO (Wait (Some current, streak)))))"

definition trap_linear_data_probe ::
    "'h board \<Rightarrow> 'h guest \<Rightarrow> bool \<Rightarrow> int \<Rightarrow> int \<Rightarrow> int \<Rightarrow> int \<Rightarrow>
      ('h, (int \<times> int \<times> int \<times> bool \<times> int) + ((int \<times> int) option \<times> int)) bio" where
  "trap_linear_data_probe B L no_tick_gate max_delta limit timeout interval = bindIO (open_mmio B) (\<lambda>_. bindIO (now B) (\<lambda>started.
     poll_loop B (linear_round B L no_tick_gate max_delta limit) timeout interval started (None, 0)))"

end
