(* ===== verification/Board_Watch.thy ===== *)
theory Board_Watch
  imports Board_Traps Board_Screen
begin

text \<open>
  What the traps of \<open>Board_Traps\<close> watch for: the detector of a protected exit against the sequence of
  samples it takes, and the fixed profiles against the comparator of rtl/ventium_top.sv.
\<close>

subsection \<open>A sequence of samples\<close>

text \<open>A machine as the detector sees it: in its k-th round it reads the k-th sample, a selector, an EIP and CR0.\<close>

record watched =
  wt_round :: nat
  wt_frozen :: bool

definition watch :: "(nat \<Rightarrow> int \<times> int \<times> int) \<Rightarrow> watched board" where
  "watch s = \<lparr>bd_state = (\<lambda>_. Some ''operating''),
     bd_read = (\<lambda>r w. case s (wt_round w) of (cs, eip, cr0) \<Rightarrow>
       if r = R_IDENT then (IDENT_MAGIC, w)
       else if r = R_DBG_FRZINFO then (if wt_frozen w then 2 ^ 31 else 0, w)
       else if r = R_DBG_TRAUX then (cs, w)
       else if r = R_DBG_CR0 then (cr0, w\<lparr>wt_round := Suc (wt_round w)\<rparr>)
       else (eip, w)),
     bd_write = (\<lambda>r v w. if r = W_DBG_CTL \<and> bit v 16 then w\<lparr>wt_frozen := True\<rparr> else w),
     bd_low16 = (\<lambda>_ w. (0, w)), bd_set_low16 = (\<lambda>_ _ w. w), bd_now = (\<lambda>w. (0, w)), bd_now_ns = (\<lambda>w. (0, w)), bd_sleep = (\<lambda>_ w. w)\<rparr>"

definition enters :: "exit_args \<Rightarrow> int \<times> int \<times> int \<Rightarrow> bool" where
  "enters a x \<longleftrightarrow> (case x of (cs, eip, cr0) \<Rightarrow> cs \<in> set (xa_entries a) \<and> xa_eip_min a \<le> eip \<and> (xa_require_pe a \<longrightarrow> odd cr0))"

definition leaves :: "exit_args \<Rightarrow> int \<times> int \<times> int \<Rightarrow> bool" where
  "leaves a x \<longleftrightarrow> (case x of (cs, eip, cr0) \<Rightarrow> cs \<notin> set (xa_allowed a) \<or> xa_require_pe a \<and> even cr0)"

text \<open>In an epoch: it was entered before and has not been left since. An exit is a sample that leaves one.\<close>

definition engaged :: "exit_args \<Rightarrow> (nat \<Rightarrow> int \<times> int \<times> int) \<Rightarrow> nat \<Rightarrow> bool" where
  "engaged a s k \<longleftrightarrow> (\<exists>j < k. enters a (s j) \<and> (\<forall>m. j < m \<and> m < k \<longrightarrow> \<not> leaves a (s m)))"

definition departs :: "exit_args \<Rightarrow> (nat \<Rightarrow> int \<times> int \<times> int) \<Rightarrow> nat \<Rightarrow> bool" where
  "departs a s k \<longleftrightarrow> engaged a s k \<and> leaves a (s k)"

definition departures :: "exit_args \<Rightarrow> (nat \<Rightarrow> int \<times> int \<times> int) \<Rightarrow> nat \<Rightarrow> int" where
  "departures a s k = int (card {j. j < k \<and> departs a s j})"

definition due :: "exit_args \<Rightarrow> (nat \<Rightarrow> int \<times> int \<times> int) \<Rightarrow> nat \<Rightarrow> bool" where
  "due a s k \<longleftrightarrow> departs a s k \<and> xa_skip a \<le> departures a s k"

lemma engaged_Suc:
  assumes "set (xa_entries a) \<subseteq> set (xa_allowed a)"
  shows "engaged a s (Suc k) \<longleftrightarrow> enters a (s k) \<or> engaged a s k \<and> \<not> leaves a (s k)"
proof -
  have "enters a x \<Longrightarrow> \<not> leaves a x" for x using assms by (auto simp: enters_def leaves_def)
  moreover have "engaged a s k \<and> \<not> leaves a (s k)" if e: "engaged a s (Suc k)" and n: "\<not> enters a (s k)"
  proof -
    obtain j where j: "j < Suc k" "enters a (s j)" "\<forall>m. j < m \<and> m < Suc k \<longrightarrow> \<not> leaves a (s m)" using e unfolding engaged_def by blast
    then have "j < k" using n by (cases "j = k") simp_all
    then show ?thesis using j unfolding engaged_def by auto
  qed
  moreover have "engaged a s (Suc k)" if "enters a (s k)" using that unfolding engaged_def by (intro exI [of _ k]) auto
  moreover have "engaged a s (Suc k)" if e: "engaged a s k" "\<not> leaves a (s k)"
  proof -
    obtain j where "j < k" "enters a (s j)" "\<forall>m. j < m \<and> m < k \<longrightarrow> \<not> leaves a (s m)" using e(1) unfolding engaged_def by blast
    then show ?thesis using e(2) unfolding engaged_def by (intro exI [of _ j]) (auto simp: less_Suc_eq)
  qed
  ultimately show ?thesis by blast
qed

lemma departures_Suc: "departures a s (Suc k) = departures a s k + (if departs a s k then 1 else 0)"
proof -
  have "{j. j < Suc k \<and> departs a s j} = {j. j < k \<and> departs a s j} \<union> (if departs a s k then {k} else {})" by (auto simp: less_Suc_eq)
  then show ?thesis by (simp add: departures_def card_insert_if)
qed

lemma exit_step_spec:
  assumes "set (xa_entries a) \<subseteq> set (xa_allowed a)"
  shows "exit_step a (s k) (engaged a s k, departures a s k) =
    (if due a s k then Fired () else if departs a s k then Again (engaged a s (Suc k), departures a s (Suc k))
     else Wait (engaged a s (Suc k), departures a s (Suc k)))"
proof -
  have x: "enters a x \<Longrightarrow> \<not> leaves a x" for x using assms by (auto simp: enters_def leaves_def)
  have "exit_step a (s k) (engaged a s k, departures a s k) =
     (if \<not> engaged a s k \<and> enters a (s k) then Wait (True, departures a s k)
      else if engaged a s k \<and> leaves a (s k) then (if departures a s k + 1 \<le> xa_skip a then Again (False, departures a s k + 1) else Fired ())
      else Wait (engaged a s k, departures a s k))"
    by (cases "s k") (simp add: exit_step_def enters_def leaves_def and_one_eq even_iff_mod_2_eq_zero odd_iff_mod_2_eq_one)
  then show ?thesis using x [of "s k"] by (auto simp: engaged_Suc [OF assms] departures_Suc due_def departs_def)
qed

subsection \<open>The detector on the sequence\<close>

lemma watch_ops:
  "rd32 (watch s) R_DBG_TRPC w = Some (Inr (fst (snd (s (wt_round w)))), w)"
  "rd32 (watch s) R_DBG_TRAUX w = Some (Inr (fst (s (wt_round w))), w)"
  "rd32 (watch s) R_DBG_CR0 w = Some (Inr (snd (snd (s (wt_round w)))), w\<lparr>wt_round := Suc (wt_round w)\<rparr>)"
  "rd32 (watch s) R_IDENT w = Some (Inr IDENT_MAGIC, w)"
  "rd32 (watch s) R_DBG_FRZINFO w = Some (Inr (if wt_frozen w then 2 ^ 31 else 0), w)"
  "rd32 (watch s) R_DBG_FRZEIP w = Some (Inr (fst (snd (s (wt_round w)))), w)"
  "poke (watch s) W_DBG_CTL (push_bit 16 1) w = Some (Inr (), w\<lparr>wt_frozen := True\<rparr>)"
  "open_mmio (watch s) w = Some (Inr (), w)" "now (watch s) w = Some (Inr 0, w)" "pause (watch s) t w = Some (Inr (), w)"
  "sleep (watch s) t w = Some (Inr (), w)"
  by (simp_all add: rd32_def watch_def dbg_registers R_DBG_CR0_def poke_def sleep_def now_def pause_def bit_push_bit_iff
    open_mmio_def require_fpga_operating_def strip_def lstrip_def is_ws_def split: prod.split)

lemma watch_fire: "fire (watch s) w = Some (Inr (True, fst (snd (s (wt_round w)))), w\<lparr>wt_frozen := True\<rparr>)"
  using watch_ops(7) [of s w] by (simp add: fire_def external_freeze_def watch_ops frozen_of_def)

lemma newest_watch: "0 \<le> fst (s (wt_round w)) \<Longrightarrow> fst (s (wt_round w)) < 2 ^ 16 \<Longrightarrow>
    newest (watch s) w = Some (Inr (fst (snd (s (wt_round w))), fst (s (wt_round w))), w)"
  using and_mask_mod [of "fst (s (wt_round w))" 16] by (simp add: newest_def watch_ops)

definition fired_at :: "(nat \<Rightarrow> int \<times> int \<times> int) \<Rightarrow> nat \<Rightarrow> int \<times> int \<times> int \<times> bool \<times> int" where
  "fired_at s k = (fst (s k), fst (snd (s k)), snd (snd (s k)), True, fst (snd (s (Suc k))))"

lemma exit_round_watch:
  assumes "set (xa_entries a) \<subseteq> set (xa_allowed a)" "\<And>k. 0 \<le> fst (s k) \<and> fst (s k) < 2 ^ 16"
  shows "exit_round (watch s) a (engaged a s k, departures a s k) \<lparr>wt_round = k, wt_frozen = False\<rparr> =
    (if due a s k then Some (Inr (Fired (fired_at s k)), \<lparr>wt_round = Suc k, wt_frozen = True\<rparr>)
     else Some (Inr ((if departs a s k then Again else Wait) (engaged a s (Suc k), departures a s (Suc k))), \<lparr>wt_round = Suc k, wt_frozen = False\<rparr>))"
  using assms(2) [of k] exit_step_spec [OF assms(1), of s k]
  by (simp add: exit_round_def newest_watch watch_ops watch_fire fired_at_def split: if_splits)

lemma exit_poll_step:
  assumes "set (xa_entries a) \<subseteq> set (xa_allowed a)" "\<And>k. 0 \<le> fst (s k) \<and> fst (s k) < 2 ^ 16"
  shows "poll_loop (watch s) (exit_round (watch s) a) 0 interval started (engaged a s k, departures a s k) \<lparr>wt_round = k, wt_frozen = False\<rparr> =
    (if due a s k then Some (Inr (Inl (fired_at s k)), \<lparr>wt_round = Suc k, wt_frozen = True\<rparr>)
     else poll_loop (watch s) (exit_round (watch s) a) 0 interval started (engaged a s (Suc k), departures a s (Suc k)) \<lparr>wt_round = Suc k, wt_frozen = False\<rparr>)"
  by (subst poll_loop.simps) (simp add: exit_round_watch [OF assms] overdue_def watch_ops)

lemma exit_poll_fires:
  assumes "set (xa_entries a) \<subseteq> set (xa_allowed a)" "\<And>k. 0 \<le> fst (s k) \<and> fst (s k) < 2 ^ 16"
    and "due a s n" "k \<le> n" "\<forall>j. k \<le> j \<and> j < n \<longrightarrow> \<not> due a s j"
  shows "poll_loop (watch s) (exit_round (watch s) a) 0 interval started (engaged a s k, departures a s k) \<lparr>wt_round = k, wt_frozen = False\<rparr> =
    Some (Inr (Inl (fired_at s n)), \<lparr>wt_round = Suc n, wt_frozen = True\<rparr>)"
  using assms(4,5)
proof (induction k rule: inc_induct)
  case base
  then show ?case using assms(3) by (subst exit_poll_step [OF assms(1,2)]) simp
next
  case (step k)
  then show ?case by (subst exit_poll_step [OF assms(1,2)]) simp
qed

lemma exit_poll_only:
  assumes "set (xa_entries a) \<subseteq> set (xa_allowed a)" "\<And>k. 0 \<le> fst (s k) \<and> fst (s k) < 2 ^ 16"
    and "poll_loop (watch s) (exit_round (watch s) a) 0 interval started (engaged a s k, departures a s k) \<lparr>wt_round = k, wt_frozen = False\<rparr> = Some y"
  shows "\<exists>n. due a s n"
proof -
  let ?Q = "\<lambda>(B' :: watched board) check (timeout :: int) (interval :: int) (started :: int) st h
      (y :: (board_error + ((int \<times> int \<times> int \<times> bool \<times> int) + (bool \<times> int))) \<times> watched).
    \<forall>k. B' = watch s \<and> check = exit_round (watch s) a \<and> timeout = 0 \<and> st = (engaged a s k, departures a s k) \<and>
      h = \<lparr>wt_round = k, wt_frozen = False\<rparr> \<longrightarrow> (\<exists>n. due a s n)"
  have "?Q (watch s) (exit_round (watch s) a) 0 interval started (engaged a s k, departures a s k) \<lparr>wt_round = k, wt_frozen = False\<rparr> y"
  proof (rule poll_loop.raw_induct [where P = ?Q, OF _ assms(3)], goal_cases)
    case (1 f B' check timeout interval started st h y)
    show ?case
    proof (intro allI impI, elim conjE)
      fix k assume e: "B' = watch s" "check = exit_round (watch s) a" "timeout = 0" "st = (engaged a s k, departures a s k)"
        "h = \<lparr>wt_round = k, wt_frozen = False\<rparr>"
      show "\<exists>n. due a s n"
      proof (cases "due a s k")
        case False
        then have "f (watch s) (exit_round (watch s) a) 0 interval started (engaged a s (Suc k), departures a s (Suc k)) \<lparr>wt_round = Suc k, wt_frozen = False\<rparr> = Some y"
          using 1(2) unfolding e by (simp add: exit_round_watch [OF assms(1,2)] overdue_def watch_ops split: if_splits)
        then show ?thesis using 1(1) by blast
      qed blast
    qed
  qed
  then show ?thesis by blast
qed

text \<open>
  C35. The trap on a protected exit fires at the right sample. Without a deadline, and whatever the machine
  executes, it fires exactly when a sample leaves the allowed selectors (or protected mode, where that is
  asked for) in an epoch that an entry selector began, after as many exits as it was told to let pass; it
  prints that sample, the rings are frozen, and as long as there is no such sample it keeps watching.
\<close>
theorem protected_exit_fires:
  assumes "selectors enter = Some entries" "selectors allow = Some allowed" "entries \<noteq> []" "set entries \<subseteq> set allowed"
    "\<And>k. 0 \<le> fst (s k) \<and> fst (s k) < 2 ^ 16"
    and a: "a = \<lparr>xa_entries = entries, xa_allowed = allowed, xa_eip_min = eip_min, xa_require_pe = require_pe, xa_skip = skip\<rparr>"
  shows "trap_protected_exit_probe (watch s) enter allow eip_min require_pe skip delay 0 interval \<lparr>wt_round = 0, wt_frozen = False\<rparr> =
    (if \<exists>n. due a s n then Some (Inr (Inl (fired_at s (LEAST n. due a s n))), \<lparr>wt_round = Suc (LEAST n. due a s n), wt_frozen = True\<rparr>) else None)"
proof -
  have sub: "set (xa_entries a) \<subseteq> set (xa_allowed a)" using assms(4) by (simp add: a)
  have start: "(False, 0) = (engaged a s 0, departures a s 0)" by (simp add: engaged_def departures_def)
  have probe: "trap_protected_exit_probe (watch s) enter allow eip_min require_pe skip delay 0 interval \<lparr>wt_round = 0, wt_frozen = False\<rparr> =
      poll_loop (watch s) (exit_round (watch s) a) 0 interval 0 (engaged a s 0, departures a s 0) \<lparr>wt_round = 0, wt_frozen = False\<rparr>"
    using assms(1-4) by (simp add: trap_protected_exit_probe_def watch_ops a [symmetric] start [symmetric])
  show ?thesis
  proof (cases "\<exists>n. due a s n")
    case True
    have least: "due a s (LEAST n. due a s n)" "\<forall>j. 0 \<le> j \<and> j < (LEAST n. due a s n) \<longrightarrow> \<not> due a s j"
      using LeastI_ex [OF True] not_less_Least by blast+
    show ?thesis unfolding probe if_P [OF True] by (rule exit_poll_fires [OF sub assms(5) least(1) le0 least(2)])
  next
    case False
    have "poll_loop (watch s) (exit_round (watch s) a) 0 interval 0 (engaged a s 0, departures a s 0) \<lparr>wt_round = 0, wt_frozen = False\<rparr> = None"
    proof (rule ccontr)
      assume "\<not> ?thesis"
      then obtain y where y: "poll_loop (watch s) (exit_round (watch s) a) 0 interval 0 (engaged a s 0, departures a s 0) \<lparr>wt_round = 0, wt_frozen = False\<rparr> = Some y"
        by blast
      show False using exit_poll_only [OF sub assms(5) y] False by blast
    qed
    then show ?thesis unfolding probe if_not_P [OF False] .
  qed
qed

text \<open>A run that enters at sample 1, calls the host at sample 2 and has left at sample 3.\<close>

definition demo_samples :: "nat \<Rightarrow> int \<times> int \<times> int" where
  "demo_samples k = (if k = 0 then (0xF000, 0xFFF0, 0) else if k = 1 then (0x26D9, 0x100, 1) else if k = 2 then (0x18, 0x20, 1) else (0x70, 9, 0))"

lemma protected_exit_fires_witness:
  "trap_protected_exit_probe (watch demo_samples) ''0x26d9'' ''0x0018,0x26d9'' 0 False 0 0 0 0 \<lparr>wt_round = 0, wt_frozen = False\<rparr> =
    Some (Inr (Inl (0x70, 9, 0, True, 9)), \<lparr>wt_round = 4, wt_frozen = True\<rparr>)"
proof -
  define a where "a = \<lparr>xa_entries = [0x26D9], xa_allowed = [0x18, 0x26D9], xa_eip_min = 0, xa_require_pe = False, xa_skip = 0\<rparr>"
  have sel: "selectors ''0x26d9'' = Some [0x26D9]" "selectors ''0x0018,0x26d9'' = Some [0x18, 0x26D9]" by code_simp+
  have sub: "set (xa_entries a) \<subseteq> set (xa_allowed a)" by (simp add: a_def)
  have e: "engaged a demo_samples 0 = False" by (simp add: engaged_def)
  have x: "\<not> enters a (demo_samples 0)" "enters a (demo_samples 1)" "\<not> leaves a (demo_samples 2)" "leaves a (demo_samples 3)"
    by (simp_all add: enters_def leaves_def a_def demo_samples_def)
  have g: "\<not> engaged a demo_samples 0" "\<not> engaged a demo_samples 1" "engaged a demo_samples 2" "engaged a demo_samples 3"
    using x e engaged_Suc [OF sub, of demo_samples 0] engaged_Suc [OF sub, of demo_samples 1] engaged_Suc [OF sub, of demo_samples 2]
    by (simp_all add: eval_nat_numeral)
  have at: "due a demo_samples 3 \<and> \<not> due a demo_samples 0 \<and> \<not> due a demo_samples 1 \<and> \<not> due a demo_samples 2"
    using g x by (simp add: due_def departs_def departures_def) (simp add: a_def)
  have "3 \<le> n" if "due a demo_samples n" for n
  proof (rule ccontr)
    assume "\<not> 3 \<le> n"
    then have "n = 0 \<or> n = 1 \<or> n = 2" by auto
    then show False using that at by auto
  qed
  then have "(LEAST n. due a demo_samples n) = 3" using at by (intro Least_equality) auto
  then show ?thesis
    using protected_exit_fires [OF sel _ _ _ a_def, of demo_samples 0 0] at
    by (auto simp: a_def fired_at_def demo_samples_def)
qed

end
