(* ===== verification/Board_Compare.thy ===== *)
theory Board_Compare
  imports Board_Traps
begin

text \<open>
  The fixed trap profiles against the retire comparator of rtl/ventium_top.sv, at the granularity of clocks:
  in every clock an instruction may retire, and every bus transaction of the probe takes one. The other
  causes of a freeze (configuration bits 20 and 22, clear in all profiles) are left out.
\<close>

subsection \<open>The comparator\<close>

record cmp =
  cp_cfg :: int
  cp_range :: int
  cp_frozen :: bool
  cp_seq :: int
  cp_time :: nat
  cp_pulses :: "nat list" \<comment> \<open>the clocks in which it has pulsed\<close>

definition cmp_hit :: "cmp \<Rightarrow> int \<times> int \<Rightarrow> bool" where
  "cmp_hit c e \<longleftrightarrow> (case e of (cs, eip) \<Rightarrow> bit (cp_cfg c) 16 \<and> (\<not> bit (cp_cfg c) 17 \<or> cs = cp_cfg c mod 2 ^ 16) \<and>
     (\<not> bit (cp_cfg c) 18 \<or> cp_range c mod 2 ^ 16 \<le> eip mod 2 ^ 16 \<and> eip mod 2 ^ 16 \<le> cp_range c div 2 ^ 16 mod 2 ^ 16))"

definition cmp_do_freeze :: "cmp \<Rightarrow> int \<times> int \<Rightarrow> bool" where
  "cmp_do_freeze c e \<longleftrightarrow> bit (cp_cfg c) 19 \<and> cmp_hit c e \<and> \<not> cp_frozen c \<and> cp_cfg c div 2 ^ 24 mod 2 ^ 8 \<le> cp_seq c"

definition cmp_clock :: "(nat \<Rightarrow> (int \<times> int) option) \<Rightarrow> cmp \<Rightarrow> cmp" where
  "cmp_clock ev c =
    (let c' = c\<lparr>cp_time := Suc (cp_time c)\<rparr>
     in if \<not> bit (cp_cfg c) 16 then c'\<lparr>cp_frozen := False, cp_seq := 0\<rparr>
        else case ev (cp_time c) of None \<Rightarrow> c'
          | Some e \<Rightarrow> if cmp_hit c e \<and> \<not> cp_frozen c then c'\<lparr>cp_seq := (cp_seq c + 1) mod 2 ^ 16,
                cp_frozen := cmp_do_freeze c e, cp_pulses := cp_pulses c @ (if cmp_do_freeze c e then [cp_time c] else [])\<rparr> else c')"

definition cmp_write :: "int \<Rightarrow> int \<Rightarrow> cmp \<Rightarrow> cmp" where
  "cmp_write r v c = (if r = W_DBG_CMP_CFG then c\<lparr>cp_cfg := v\<rparr> else if r = W_DBG_CMP_RANGE then c\<lparr>cp_range := v\<rparr> else c)"

definition cmp_board :: "(nat \<Rightarrow> (int \<times> int) option) \<Rightarrow> cmp board" where
  "cmp_board ev = \<lparr>bd_state = (\<lambda>_. Some ''operating''), bd_read = (\<lambda>r c. (if r = R_IDENT then IDENT_MAGIC else 0, cmp_clock ev c)),
     bd_write = (\<lambda>r v c. cmp_write r v (cmp_clock ev c)), bd_low16 = (\<lambda>_ c. (0, c)), bd_set_low16 = (\<lambda>_ _ c. c), bd_now = (\<lambda>c. (0, c)),
     bd_now_ns = (\<lambda>c. (0, c)), bd_sleep = (\<lambda>_ c. c)\<rparr>"

subsection \<open>An armed comparator\<close>

text \<open>A comparator with a profile that freezes at the first instruction that satisfies \<open>P\<close>.\<close>

definition profile :: "int \<Rightarrow> int \<Rightarrow> (int \<times> int \<Rightarrow> bool) \<Rightarrow> bool" where
  "profile cfg limits P \<longleftrightarrow> bit cfg 16 \<and> bit cfg 19 \<and> cfg div 2 ^ 24 mod 2 ^ 8 = 0 \<and>
     (\<forall>c e. cp_cfg c = cfg \<and> cp_range c = limits \<longrightarrow> cmp_hit c e = P e)"

definition first_match :: "(nat \<Rightarrow> (int \<times> int) option) \<Rightarrow> (int \<times> int \<Rightarrow> bool) \<Rightarrow> nat \<Rightarrow> nat \<Rightarrow> nat list" where
  "first_match ev P t n = take 1 (filter (\<lambda>k. case ev k of None \<Rightarrow> False | Some e \<Rightarrow> P e) [t..<t + n])"

lemma first_match_Suc: "first_match ev P t (Suc n) = (if first_match ev P t n = [] \<and> (case ev (t + n) of None \<Rightarrow> False | Some e \<Rightarrow> P e)
    then [t + n] else first_match ev P t n)"
  by (cases "filter (\<lambda>k. case ev k of None \<Rightarrow> False | Some e \<Rightarrow> P e) [t..<t + n]") (simp_all add: first_match_def)

definition armed_at :: "int \<Rightarrow> int \<Rightarrow> (nat \<Rightarrow> (int \<times> int) option) \<Rightarrow> (int \<times> int \<Rightarrow> bool) \<Rightarrow> nat \<Rightarrow> nat \<Rightarrow> cmp \<Rightarrow> bool" where
  "armed_at cfg limits ev P t n c \<longleftrightarrow> cp_cfg c = cfg \<and> cp_range c = limits \<and> cp_time c = t + n \<and> cp_pulses c = first_match ev P t n \<and>
     0 \<le> cp_seq c \<and> (cp_frozen c \<longleftrightarrow> first_match ev P t n \<noteq> [])"

lemma armed_clock:
  assumes "profile cfg limits P" "armed_at cfg limits ev P t n c"
  shows "armed_at cfg limits ev P t (Suc n) (cmp_clock ev c)"
proof -
  have hit: "cmp_hit c e = P e" for e using assms unfolding profile_def armed_at_def by blast
  show ?thesis
    using assms hit by (auto simp: armed_at_def cmp_clock_def cmp_do_freeze_def profile_def first_match_Suc Let_def split: option.splits)
qed

lemma armed_clocks: "profile cfg limits P \<Longrightarrow> armed_at cfg limits ev P t n c \<Longrightarrow> armed_at cfg limits ev P t (n + m) ((cmp_clock ev ^^ m) c)"
  by (induction m) (simp_all add: armed_clock)

lemma arm_trap_arms:
  assumes "profile cfg limits P" "\<not> bit (cp_cfg c) 16" "cp_pulses c = []"
  shows "\<exists>c'. arm_trap (cmp_board ev) cfg limits c = Some (Inr (), c') \<and>
    (\<forall>n. cp_pulses ((cmp_clock ev ^^ n) c') = first_match ev P (cp_time c + 3) (Suc n))"
proof -
  let ?c = "cmp_write W_DBG_CMP_CFG cfg (cmp_clock ev (cmp_write W_DBG_CMP_RANGE limits (cmp_clock ev (cmp_clock ev c))))"
  have "armed_at cfg limits ev P (cp_time c + 3) 0 ?c"
    using assms(2,3) by (simp add: armed_at_def cmp_write_def cmp_clock_def W_DBG_CMP_CFG_def W_DBG_CMP_RANGE_def first_match_def Let_def)
  from armed_clock [OF assms(1) this] have "armed_at cfg limits ev P (cp_time c + 3) (Suc 0) (cmp_clock ev ?c)" .
  then have "cp_pulses ((cmp_clock ev ^^ n) (cmp_clock ev ?c)) = first_match ev P (cp_time c + 3) (Suc n)" for n
    using armed_clocks [OF assms(1), of ev "cp_time c + 3" "Suc 0" "cmp_clock ev ?c" n] by (simp add: armed_at_def)
  moreover have "arm_trap (cmp_board ev) cfg limits c = Some (Inr (), cmp_clock ev ?c)"
    by (simp add: arm_trap_def open_mmio_def require_fpga_operating_def rd32_def poke_def strip_def lstrip_def is_ws_def bindIO_def cmp_board_def)
  ultimately show ?thesis by blast
qed

lemma profiles:
  "profile TRAP_ZERO_CFG TRAP_ZERO_RANGE (\<lambda>(cs, eip). cs = 0 \<and> eip mod 2 ^ 16 \<le> 3)"
  "profile TRAP_BADCS_CFG TRAP_BADCS_RANGE (\<lambda>(cs, eip). cs = 0x3107)"
  "profile TRAP_CS0_HIGH_CFG TRAP_CS0_HIGH_RANGE (\<lambda>(cs, eip). cs = 0 \<and> 0x8000 \<le> eip mod 2 ^ 16)"
  unfolding profile_def
  by (auto simp: cmp_hit_def bit_iff_odd TRAP_ZERO_CFG_def TRAP_ZERO_RANGE_def TRAP_BADCS_CFG_def TRAP_BADCS_RANGE_def
    TRAP_CS0_HIGH_CFG_def TRAP_CS0_HIGH_RANGE_def intro: order_trans [OF _ less_imp_le])



text \<open>
  A comparator that has pulsed and is still enabled stays frozen: the commands report that the trap is
  armed, and nothing that retires makes it pulse again.
\<close>

lemma frozen_clock:
  "cp_frozen c \<Longrightarrow> bit (cp_cfg c) 16 \<Longrightarrow> cp_frozen (cmp_clock ev c) \<and> cp_cfg (cmp_clock ev c) = cp_cfg c \<and> cp_pulses (cmp_clock ev c) = cp_pulses c"
  by (auto simp: cmp_clock_def Let_def split: option.splits)

lemma frozen_clocks: "cp_frozen c \<Longrightarrow> bit (cp_cfg c) 16 \<Longrightarrow>
    cp_frozen ((cmp_clock ev ^^ n) c) \<and> cp_cfg ((cmp_clock ev ^^ n) c) = cp_cfg c \<and> cp_pulses ((cmp_clock ev ^^ n) c) = cp_pulses c"
  by (induction n) (simp_all add: frozen_clock)

lemma rearmed_never_fires:
  assumes "cp_frozen c" "bit (cp_cfg c) 16" "bit cfg 16"
  shows "\<exists>c'. arm_trap (cmp_board ev) cfg limits c = Some (Inr (), c') \<and> (\<forall>n. cp_pulses ((cmp_clock ev ^^ n) c') = cp_pulses c)"
proof -
  let ?c2 = "cmp_write W_DBG_CMP_RANGE limits (cmp_clock ev (cmp_clock ev c))"
  let ?c3 = "cmp_write W_DBG_CMP_CFG cfg (cmp_clock ev ?c2)"
  have 2: "cp_frozen ?c2" "cp_cfg ?c2 = cp_cfg c" "cp_pulses ?c2 = cp_pulses c"
    using frozen_clocks [OF assms(1,2), where ev = ev and n = 2] by (simp_all add: cmp_write_def numeral_2_eq_2 W_DBG_CMP_CFG_def W_DBG_CMP_RANGE_def)
  have 3: "cp_frozen ?c3" "bit (cp_cfg ?c3) 16" "cp_pulses ?c3 = cp_pulses c"
    using frozen_clock [OF 2(1), where ev = ev] 2 assms by (simp_all add: cmp_write_def)
  have "arm_trap (cmp_board ev) cfg limits c = Some (Inr (), cmp_clock ev ?c3)"
    by (simp add: arm_trap_def open_mmio_def require_fpga_operating_def rd32_def poke_def strip_def lstrip_def is_ws_def bindIO_def cmp_board_def)
  moreover have "cp_pulses ((cmp_clock ev ^^ n) (cmp_clock ev ?c3)) = cp_pulses c" for n
    using frozen_clocks [OF 3(1,2), where ev = ev and n = "Suc n"] 3(3) by (simp add: funpow_swap1)
  ultimately show ?thesis by blast
qed

end
