(* ===== verification/Board_State.thy ===== *)
theory Board_State
  imports Board_Exec Board_Rings
begin

text \<open>
  The whole-state commands of fpga/board-tools/ven_board_probe.py: the snapshot of the debug registers, the
  admission of a held-reset image (prepare-cold), the dump of the architectural state, the check of a
  guest range, and the counter measurement. The dictionaries of the source are records here.
\<close>

subsection \<open>The snapshot\<close>

definition R_DBG_IO_CYC :: int where "R_DBG_IO_CYC = 0x140"
definition R_DBG_IRQ_ACK :: int where "R_DBG_IRQ_ACK = 0x150"
definition R_DBG_RD_BEATS :: int where "R_DBG_RD_BEATS = 0x170"
definition R_DBG_AR_HS :: int where "R_DBG_AR_HS = 0x180"
definition R_DBG_B_HS :: int where "R_DBG_B_HS = 0x190"
definition R_DBG_ST_SLOT_A :: int where "R_DBG_ST_SLOT_A = 0x1A0"
definition R_DBG_ST_SLOT_B :: int where "R_DBG_ST_SLOT_B = 0x1B0"
definition R_DBG_ST_TAGGED :: int where "R_DBG_ST_TAGGED = 0x1C0"
definition R_DBG_ST_OTHER :: int where "R_DBG_ST_OTHER = 0x1D0"
definition R_DBG_STALL :: int where "R_DBG_STALL = 0xF0"
definition R_DBG_SNAPSHOT_CAP :: int where "R_DBG_SNAPSHOT_CAP = 0x200"
definition R_DBG_SNAPSHOT_CS :: int where "R_DBG_SNAPSHOT_CS = 0x210"
definition R_DBG_SNAPSHOT_EIP :: int where "R_DBG_SNAPSHOT_EIP = 0x220"
definition R_DBG_SNAPSHOT_ESP :: int where "R_DBG_SNAPSHOT_ESP = 0x230"
definition R_DBG_SNAPSHOT_EFLAGS :: int where "R_DBG_SNAPSHOT_EFLAGS = 0x240"
definition R_DBG_SNAPSHOT_FAULT_PC :: int where "R_DBG_SNAPSHOT_FAULT_PC = 0x250"
definition R_DBG_SNAPSHOT_CR0 :: int where "R_DBG_SNAPSHOT_CR0 = 0x260"
definition R_DBG_SNAPSHOT_STATE_VEC :: int where "R_DBG_SNAPSHOT_STATE_VEC = 0x270"
definition DBG_SNAPSHOT_CAP :: int where "DBG_SNAPSHOT_CAP = 0x56440001"

text \<open>A list of registers, read in order.\<close>

fun rd32s :: "'h board \<Rightarrow> int list \<Rightarrow> ('h, int list) bio" where
  "rd32s B [] = retIO []"
| "rd32s B (r # rs) = bindIO (rd32 B r) (\<lambda>v. bindIO (rd32s B rs) (\<lambda>vs. retIO (v # vs)))"

text \<open>A block that an older image may lack: its contents, or what its capability register read.\<close>

record snapshot =
  sn_format :: int
  sn_words :: "string list" \<comment> \<open>cs, eip, esp, eflags, fault pc, cr0\<close>
  sn_core_state :: int
  sn_vector :: int

record execution_view =
  xv_format :: int
  xv_raw :: string
  xv_halt_requested :: bool
  xv_breakpoint_enabled :: bool
  xv_halted :: bool
  xv_breakpoint_eip :: string
  xv_arch_selector :: int

record freeze_view =
  fv_raw :: string
  fv_frozen :: bool
  fv_spare :: int
  fv_vector :: int
  fv_core_state :: int
  fv_count_low6 :: int
  fv_freeze_eip :: string
  fv_snapshot :: "string + snapshot"

record debug_view =
  dv_ident :: string
  dv_freeze :: freeze_view
  dv_execution :: "string + execution_view"
  dv_last_eip :: string
  dv_last_ar :: string
  dv_core_cr0 :: string
  dv_cycles :: int
  dv_retirements :: int
  dv_counters :: "int list" \<comment> \<open>I/O cycles to other state, in the order they are read\<close>

definition read_snapshot :: "'h board \<Rightarrow> ('h, string + snapshot) bio" where
  "read_snapshot B = bindIO (rd32 B R_DBG_SNAPSHOT_CAP) (\<lambda>cap.
     if cap = DBG_SNAPSHOT_CAP
     then bindIO (rd32 B R_DBG_SNAPSHOT_STATE_VEC) (\<lambda>vec. bindIO (rd32 B R_DBG_SNAPSHOT_CS) (\<lambda>cs.
       bindIO (rd32s B [R_DBG_SNAPSHOT_EIP, R_DBG_SNAPSHOT_ESP, R_DBG_SNAPSHOT_EFLAGS, R_DBG_SNAPSHOT_FAULT_PC, R_DBG_SNAPSHOT_CR0]) (\<lambda>ws.
         retIO (Inr \<lparr>sn_format = cap AND 0xFFFF, sn_words = hex_pad 4 (cs AND 0xFFFF) # map (hex_pad 8) ws,
           sn_core_state = drop_bit 10 vec AND 0x3F, sn_vector = vec AND 0xFF\<rparr>))))
     else retIO (Inl (hex_pad 8 cap)))"

definition read_freeze :: "'h board \<Rightarrow> ('h, freeze_view) bio" where
  "read_freeze B = bindIO (rd32 B R_DBG_FRZINFO) (\<lambda>info. bindIO (rd32 B R_DBG_FRZEIP) (\<lambda>eip. bindIO (read_snapshot B) (\<lambda>snap.
     retIO \<lparr>fv_raw = hex_pad 8 info, fv_frozen = frozen_of info, fv_spare = drop_bit 24 info AND 0x7F, fv_vector = drop_bit 16 info AND 0xFF,
       fv_core_state = drop_bit 8 info AND 0x3F, fv_count_low6 = info AND 0x3F, fv_freeze_eip = hex_pad 8 eip, fv_snapshot = snap\<rparr>)))"

definition read_execution :: "'h board \<Rightarrow> ('h, string + execution_view) bio" where
  "read_execution B = bindIO (rd32 B R_DBG_EXEC_CAP) (\<lambda>cap.
     if cap = DBG_EXEC_CAP
     then bindIO (rd32 B R_DBG_EXEC_CTRL) (\<lambda>ctrl. bindIO (rd32 B R_DBG_BP_ADDR) (\<lambda>bp. bindIO (rd32 B R_DBG_ARCH_SEL) (\<lambda>sel.
       retIO (Inr \<lparr>xv_format = cap AND 0xFFFF, xv_raw = hex_pad 8 ctrl, xv_halt_requested = (ctrl AND DBG_EXEC_HALT_REQ \<noteq> 0),
         xv_breakpoint_enabled = (ctrl AND DBG_EXEC_BP_EN \<noteq> 0), xv_halted = halted_bit ctrl, xv_breakpoint_eip = hex_pad 8 bp,
         xv_arch_selector = sel AND 0x7F\<rparr>))))
     else retIO (Inl (hex_pad 8 cap)))"

definition COUNTERS :: "int list" where
  "COUNTERS = [R_DBG_IO_CYC, R_DBG_IRQ_ACK, R_DBG_RD_BEATS, R_DBG_AR_HS, R_DBG_B_HS, R_DBG_ST_SLOT_A, R_DBG_ST_SLOT_B, R_DBG_ST_TAGGED, R_DBG_ST_OTHER]"

definition debug_state :: "'h board \<Rightarrow> ('h, debug_view) bio" where
  "debug_state B = bindIO (read_freeze B) (\<lambda>freeze. bindIO (read_execution B) (\<lambda>execution. bindIO (rd32 B R_IDENT) (\<lambda>ident.
     bindIO (rd32 B R_DBG_LASTEIP) (\<lambda>last. bindIO (rd32 B R_DBG2) (\<lambda>ar. bindIO (rd32 B R_DBG_CR0) (\<lambda>cr0.
     bindIO (stable_u64 B R_DBG_CYC_LO R_DBG_CYC_HI) (\<lambda>cycles. bindIO (stable_u64 B R_DBG_RET_LO R_DBG_RET_HI) (\<lambda>retired.
     bindIO (rd32s B COUNTERS) (\<lambda>counters.
       retIO \<lparr>dv_ident = hex_pad 8 ident, dv_freeze = freeze, dv_execution = execution, dv_last_eip = hex_pad 8 last,
         dv_last_ar = hex_pad 8 ar, dv_core_cr0 = hex_pad 8 cr0, dv_cycles = cycles, dv_retirements = retired, dv_counters = counters\<rparr>)))))))))"

definition dump_state_probe :: "'h board \<Rightarrow> bool \<Rightarrow> int \<Rightarrow> ('h, debug_view \<times> jdict) bio" where
  "dump_state_probe B halt timeout = bindIO (open_mmio B) (\<lambda>_. bindIO (require_exec_debug B) (\<lambda>_.
     bindIO (if halt then bindIO (poke B R_DBG_EXEC_CTRL DBG_EXEC_HALT_REQ) (\<lambda>_. bindIO (wait_execution_halted B True timeout) (\<lambda>_. retIO ()))
       else retIO ()) (\<lambda>_. bindIO (debug_state B) (\<lambda>state. bindIO (read_halted_arch_state B) (\<lambda>arch. retIO (state, arch))))))"

subsection \<open>Cold preparation\<close>

text \<open>Whether a snapshot is that of a machine in reset with the retained counter.\<close>

definition cold_view :: "int \<Rightarrow> debug_view \<Rightarrow> bool" where
  "cold_view expected s \<longleftrightarrow> dv_retirements s = expected \<and> \<not> fv_frozen (dv_freeze s) \<and> dv_core_cr0 s = ''60000010''"

definition cold_state :: "'h board \<Rightarrow> int \<Rightarrow> ('h, debug_view) bio" where
  "cold_state B expected = bindIO (debug_state B) (\<lambda>state. bindIO (rd32 B R_IDENT) (\<lambda>ident.
     if ident \<noteq> IDENT_MAGIC then failIO NotCold
     else bindIO (rd32 B 0x20) (\<lambda>reset. if reset \<noteq> 1 \<or> \<not> cold_view expected state then failIO NotCold else retIO state)))"

definition prepared :: "debug_view \<Rightarrow> board_error + bool" where
  "prepared s = (case dv_execution s of Inl _ \<Rightarrow> Inl BoardKey | Inr x \<Rightarrow> Inr (xv_halt_requested x \<and> \<not> xv_breakpoint_enabled x))"

definition cold_verdict :: "debug_view \<Rightarrow> debug_view \<Rightarrow> ('h, debug_view \<times> debug_view) bio" where
  "cold_verdict before after = (case prepared after of Inl e \<Rightarrow> failIO e | Inr False \<Rightarrow> failIO NotPrepared | Inr True \<Rightarrow> retIO (before, after))"

definition cold_writes :: "'h board \<Rightarrow> int \<Rightarrow> debug_view \<Rightarrow> ('h, debug_view \<times> debug_view) bio" where
  "cold_writes B expected before = bindIO (poke B R_DBG_EXEC_CTRL (DBG_EXEC_HALT_REQ OR DBG_EXEC_BP_CLR)) (\<lambda>_.
     bindIO (poke B W_DBG_CMP_CFG 0) (\<lambda>_. bindIO (poke B W_DBG_FREEZE_THRESH 0) (\<lambda>_.
       bindIO (cold_state B expected) (\<lambda>after. cold_verdict before after))))"

definition prepare_cold_probe :: "'h board \<Rightarrow> int \<Rightarrow> ('h, debug_view \<times> debug_view) bio" where
  "prepare_cold_probe B expected =
    (if \<not> (0 \<le> expected \<and> expected < 2 ^ 64) then failIO BoardValue
     else bindIO (open_mmio B) (\<lambda>_. bindIO (require_exec_debug B) (\<lambda>_. bindIO (cold_state B expected) (\<lambda>before.
       cold_writes B expected before))))"

subsection \<open>Ranges and counters\<close>

definition validate_guest_range :: "int \<Rightarrow> int \<Rightarrow> int \<Rightarrow> board_error + unit" where
  "validate_guest_range start extent ram_size =
    (if ram_size \<le> 0 \<or> 0x40000000 < ram_size then Inl BadRange
     else if start < 0 \<or> extent \<le> 0 \<or> ram_size < start + extent then Inl BadRange else Inr ())"

text \<open>The registers that are read at both ends of a measurement, after the two split counters.\<close>

definition PERF_COUNTERS :: "int list" where
  "PERF_COUNTERS = [R_DBG_IO_CYC, R_DBG_STALL, R_DBG_IRQ_ACK, R_DBG_RD_BEATS, R_DBG_AR_HS, R_DBG_B_HS, R_DBG_ST_SLOT_A, R_DBG_ST_SLOT_B, R_DBG_ST_OTHER]"

record perf_point =
  pp_cycles :: int
  pp_retired :: int
  pp_words :: "int list"

definition perf_point :: "'h board \<Rightarrow> ('h, perf_point) bio" where
  "perf_point B = bindIO (stable_u64 B R_DBG_CYC_LO R_DBG_CYC_HI) (\<lambda>cyc. bindIO (stable_u64 B R_DBG_RET_LO R_DBG_RET_HI) (\<lambda>ret.
     bindIO (rd32s B PERF_COUNTERS) (\<lambda>ws. retIO \<lparr>pp_cycles = cyc, pp_retired = ret, pp_words = ws\<rparr>)))"

text \<open>
  The report: the differences, the quotients that are printed (None for infinity), and for the profiler
  image the gap between beats, where the interval is consistent. Times are in milliseconds.
\<close>

record perf_report =
  pr_cycles :: int
  pr_retired :: int
  pr_deltas :: "int list" \<comment> \<open>in the order of the registers\<close>
  pr_mhz :: rat
  pr_ipc :: rat
  pr_cpi :: "rat option"
  pr_io_ratio :: rat
  pr_stall_ratio :: rat
  pr_interbeat :: "int option"

definition quotient :: "int \<Rightarrow> int \<Rightarrow> rat" where
  "quotient a b = (if b \<noteq> 0 then of_int a / of_int b else 0)"

definition perf_report :: "perf_point \<Rightarrow> perf_point \<Rightarrow> int \<Rightarrow> perf_report" where
  "perf_report p q elapsed =
    (let dcyc = pp_cycles q - pp_cycles p; dret = pp_retired q - pp_retired p;
         ds = map2 (\<lambda>a b. (b - a) AND 0xFFFFFFFF) (pp_words p) (pp_words q);
         drd = ds ! 3; dar = ds ! 4; dslot_a = ds ! 6; dslot_b = ds ! 7; interbeat = dslot_a - dslot_b - (drd - dar)
     in \<lparr>pr_cycles = dcyc, pr_retired = dret, pr_deltas = ds, pr_mhz = quotient dcyc (elapsed * 1000), pr_ipc = quotient dret dcyc,
          pr_cpi = (if dret \<noteq> 0 then Some (of_int dcyc / of_int dret) else None), pr_io_ratio = quotient (ds ! 0) dcyc,
          pr_stall_ratio = quotient (ds ! 1) dcyc, pr_interbeat = (if dar \<noteq> 0 \<and> 0 \<le> interbeat then Some interbeat else None)\<rparr>)"

text \<open>Printed beside the report: both points, and the tagged state and CR0 at the end.\<close>

definition perf_probe :: "'h board \<Rightarrow> int \<Rightarrow> ('h, perf_report \<times> perf_point \<times> perf_point \<times> int \<times> int) bio" where
  "perf_probe B duration =
    (if \<not> (0 < duration \<and> duration \<le> 3600000) then failIO BoardValue
     else bindIO (open_mmio B) (\<lambda>_. bindIO (perf_point B) (\<lambda>p. bindIO (now B) (\<lambda>t0. bindIO (sleep B duration) (\<lambda>_. bindIO (now B) (\<lambda>t1.
       bindIO (perf_point B) (\<lambda>q.
         if pp_cycles q < pp_cycles p \<or> pp_retired q < pp_retired p then failIO CounterReset
         else bindIO (rd32 B R_DBG_ST_TAGGED) (\<lambda>tagged. bindIO (rd32 B R_DBG_CR0) (\<lambda>cr0.
           retIO (perf_report p q (t1 - t0), p, q, tagged, cr0))))))))))"

text \<open>As long as a 32-bit counter advances by less than \<open>2 ^ 32\<close>, its difference survives a wrap-around.\<close>

lemma perf_deltas_exact:
  assumes "pp_words p = map (\<lambda>c. c mod 2 ^ 32) as" "pp_words q = map (\<lambda>c. c mod 2 ^ 32) bs"
    "list_all2 (\<lambda>a b. a \<le> b \<and> b - a < 2 ^ 32) as bs"
  shows "pr_deltas (perf_report p q elapsed) = map2 (\<lambda>a b. b - a) as bs"
proof -
  have delta: "((b mod 2 ^ 32 - a mod 2 ^ 32) AND 0xFFFFFFFF :: int) = b - a" if "a \<le> b" "b - a < 2 ^ 32" for a b :: int
  proof -
    have "((b mod 2 ^ 32 - a mod 2 ^ 32) AND 0xFFFFFFFF :: int) = (b mod 2 ^ 32 - a mod 2 ^ 32) mod 2 ^ 32"
      using and_mask_mod [of "b mod 2 ^ 32 - a mod 2 ^ 32" 32] by simp
    also have "\<dots> = (b - a) mod 2 ^ 32" by (rule mod_diff_eq)
    also have "\<dots> = b - a" using that by (intro mod_pos_pos_trivial) simp_all
    finally show ?thesis .
  qed
  have "map2 (\<lambda>a b. (b - a) AND 0xFFFFFFFF) (map (\<lambda>c. c mod 2 ^ 32) as) (map (\<lambda>c. c mod 2 ^ 32) bs) = map2 (\<lambda>a b. b - a) as bs"
    using assms(3)
  proof (induction as bs rule: list_all2_induct)
    case (Cons a as b bs)
    then show ?case using delta [of a b] by simp
  qed simp
  then show ?thesis by (simp only: perf_report_def Let_def assms(1,2) perf_report.simps)
qed

subsection \<open>What cold preparation writes\<close>

text \<open>A board that keeps the register writes it receives.\<close>

definition logged :: "'h board \<Rightarrow> ('h \<times> (int \<times> int) list) board" where
  "logged B = \<lparr>bd_state = (\<lambda>w. bd_state B (fst w)), bd_read = (\<lambda>r w. case bd_read B r (fst w) of (v, h) \<Rightarrow> (v, h, snd w)),
     bd_write = (\<lambda>r v w. (bd_write B r v (fst w), snd w @ [(r, v)])), bd_low16 = (\<lambda>r w. case bd_low16 B r (fst w) of (v, h) \<Rightarrow> (v, h, snd w)),
     bd_set_low16 = (\<lambda>r v w. (bd_set_low16 B r v (fst w), snd w)), bd_now = (\<lambda>w. case bd_now B (fst w) of (t, h) \<Rightarrow> (t, h, snd w)),
     bd_now_ns = (\<lambda>w. case bd_now_ns B (fst w) of (t, h) \<Rightarrow> (t, h, snd w)), bd_sleep = (\<lambda>t w. (bd_sleep B t (fst w), snd w))\<rparr>"

text \<open>A computation that only reads: it leaves the log alone.\<close>

definition silent :: "('h \<times> (int \<times> int) list, 'a) bio \<Rightarrow> bool" where
  "silent m \<longleftrightarrow> (\<forall>w r w'. m w = Some (r, w') \<longrightarrow> snd w' = snd w)"

named_theorems silences

lemma silent_bind [silences]: "silent m \<Longrightarrow> (\<And>x. silent (f x)) \<Longrightarrow> silent (bindIO m f)"
  unfolding silent_def by (metis bindIO_cases)

lemma silent_basic [silences]: "silent (retIO x)" "silent (failIO e)" "silent (rd32 (logged B) r)"
  by (auto simp: silent_def retIO_def failIO_def rd32_def logged_def split: prod.splits)

lemma silent_if [silences]: "(P \<Longrightarrow> silent m) \<Longrightarrow> (\<not> P \<Longrightarrow> silent n) \<Longrightarrow> silent (if P then m else n)"
  by simp

lemma silent_rd32s [silences]: "silent (rd32s (logged B) rs)"
  by (induction rs) (simp_all only: rd32s.simps, intro silences, intro silences)

lemma silent_stable [silences]: "silent (stable_u64 (logged B) lo hi)"
  unfolding silent_def
proof (intro allI impI)
  fix w r w' assume "stable_u64 (logged B) lo hi w = Some (r, w')"
  from stable_reads [OF this, of "\<lambda>a b. snd b = snd a"] show "snd w' = snd w" by (simp add: logged_def split: prod.splits)
qed

lemma silent_open [silences]: "silent (open_mmio (logged B))"
proof -
  have "silent (require_fpga_operating (logged B))" by (auto simp: silent_def require_fpga_operating_def split: option.splits if_splits)
  then show ?thesis unfolding open_mmio_def by (intro silences) auto
qed

lemma silent_debug [silences]: "silent (require_exec_debug (logged B))" "silent (debug_state (logged B))"
  unfolding require_exec_debug_def debug_state_def read_freeze_def read_snapshot_def read_execution_def by (intro silences)+

lemma silent_cold [silences]: "silent (cold_state (logged B) expected)"
  unfolding cold_state_def Let_def by (intro silences)

lemma cold_accepts:
  assumes "cold_state B expected h = Some (Inr s, h')"
  shows "cold_view expected s"
  using assms by (auto simp: cold_state_def retIO_def elim!: bindIO_cases split: if_splits)

definition COLD_WRITES :: "(int \<times> int) list" where
  "COLD_WRITES = [(R_DBG_EXEC_CTRL, DBG_EXEC_HALT_REQ OR DBG_EXEC_BP_CLR), (W_DBG_CMP_CFG, 0), (W_DBG_FREEZE_THRESH, 0)]"

lemma logged_poke: "poke (logged B) r v w = Some (Inr (), bd_write B r v (fst w), snd w @ [(r, v)])"
  by (simp add: poke_def logged_def)


text \<open>A machine in reset whose halt request reads back.\<close>

definition cold_reg :: "int \<Rightarrow> int" where
  "cold_reg r = (if r = R_IDENT then IDENT_MAGIC else if r = R_DBG_EXEC_CAP then DBG_EXEC_CAP else if r = R_DBG_EXEC_CTRL then 5
     else if r = 0x20 then 1 else if r = R_DBG_CR0 then 0x60000010 else 0)"

definition cold_board :: "unit board" where
  "cold_board = \<lparr>bd_state = (\<lambda>_. Some ''operating''), bd_read = (\<lambda>r h. (cold_reg r, h)), bd_write = (\<lambda>_ _ h. h), bd_low16 = (\<lambda>_ h. (0, h)),
     bd_set_low16 = (\<lambda>_ _ h. h), bd_now = (\<lambda>h. (0, h)), bd_now_ns = (\<lambda>h. (0, h)), bd_sleep = (\<lambda>_ h. h)\<rparr>"

lemma cold_ops: "rd32 (logged cold_board) r w = Some (Inr (cold_reg r), w)" "stable_u64 (logged cold_board) R_DBG_RET_LO R_DBG_RET_HI w = Some (Inr 0, w)"
    "rd32s (logged cold_board) rs w = Some (Inr (map cold_reg rs), w)" "stable_u64 (logged cold_board) R_DBG_CYC_LO R_DBG_CYC_HI w = Some (Inr 0, w)"
proof -
  show r: "rd32 (logged cold_board) r w = Some (Inr (cold_reg r), w)" for r w by (cases w) (simp add: rd32_def logged_def cold_board_def)
  show "rd32s (logged cold_board) rs w = Some (Inr (map cold_reg rs), w)" by (induction rs) (simp_all add: r)
  have "cold_reg R_DBG_RET_LO = 0" "cold_reg R_DBG_RET_HI = 0" "cold_reg R_DBG_CYC_LO = 0" "cold_reg R_DBG_CYC_HI = 0" by code_simp+
  then show "stable_u64 (logged cold_board) R_DBG_RET_LO R_DBG_RET_HI w = Some (Inr 0, w)"
    "stable_u64 (logged cold_board) R_DBG_CYC_LO R_DBG_CYC_HI w = Some (Inr 0, w)"
    by (simp_all add: stable_u64.simps [of "logged cold_board"] r)
qed

lemma cold_admits: "\<exists>s. cold_state (logged cold_board) 0 w = Some (Inr s, w) \<and> prepared s = Inr True"
proof -
  have c: "cold_reg R_IDENT = IDENT_MAGIC" "cold_reg 0x20 = 1" "cold_reg R_DBG_CR0 = 0x60000010" "cold_reg R_DBG_EXEC_CAP = DBG_EXEC_CAP"
    "cold_reg R_DBG_EXEC_CTRL = 5" "cold_reg R_DBG_FRZINFO = 0" "cold_reg R_DBG_SNAPSHOT_CAP = 0" "(0 :: int) \<noteq> DBG_SNAPSHOT_CAP"
    "hex_pad 8 0x60000010 = ''60000010''" "5 AND DBG_EXEC_HALT_REQ \<noteq> 0" "5 AND DBG_EXEC_BP_EN = 0" by code_simp+
  show ?thesis
    by (simp add: cold_state_def debug_state_def read_freeze_def read_snapshot_def read_execution_def cold_ops c cold_view_def prepared_def frozen_of_def)
qed


end
