(* ===== verification/Board_Bundle.thy ===== *)
theory Board_Bundle
  imports Board_State
begin

text \<open>
  The forensic bundle of fpga/board-tools/ven_board_probe.py: the checks before a capture, the files it
  writes into a new directory, and the marker it leaves when it fails. The destination is a map from file
  names to contents, or absent; which writes fail, the bytes of the guest memory and the hash are
  parameters. The fingerprints of the operator's inputs and the time stamp are left out.
\<close>

subsection \<open>The destination\<close>

record manifest =
  mf_coherent :: bool
  mf_state :: debug_view
  mf_pc_ring :: "pc_entry list"
  mf_core_ring :: "core_entry list"
  mf_ram_size :: int
  mf_ranges :: "(string \<times> int \<times> string \<times> string) list" \<comment> \<open>start, length, file, hash\<close>

datatype content = Ram "int list" | Manifest manifest | Incomplete | Torn

type_synonym 'h site = "'h \<times> (string \<rightharpoonup> content) option"

definition on_board :: "('h, 'a) bio \<Rightarrow> ('h site, 'a) bio" where
  "on_board m w = (case m (fst w) of None \<Rightarrow> None | Some (r, h) \<Rightarrow> Some (r, h, snd w))"

definition make_dir :: "('h site, unit) bio" where
  "make_dir w = (case snd w of None \<Rightarrow> Some (Inr (), fst w, Some (\<lambda>_. None)) | Some _ \<Rightarrow> Some (Inl (FileFailed []), w))"

text \<open>A write that fails leaves a torn file behind.\<close>

definition put_file :: "(string \<Rightarrow> bool) \<Rightarrow> string \<Rightarrow> content \<Rightarrow> ('h site, unit) bio" where
  "put_file fails name c w = (case snd w of None \<Rightarrow> Some (Inl (FileFailed name), w)
     | Some dir \<Rightarrow> if fails name then Some (Inl (FileFailed name), fst w, Some (dir(name \<mapsto> Torn))) else Some (Inr (), fst w, Some (dir(name \<mapsto> c))))"

subsection \<open>The capture\<close>

record capture_args =
  ca_ranges :: "(int \<times> int) list"
  ca_full_ram :: bool
  ca_ram_size :: int
  ca_depth :: int
  ca_allow_live :: bool

fun validate_ranges :: "(int \<times> int) list \<Rightarrow> int \<Rightarrow> board_error + unit" where
  "validate_ranges [] ram_size = Inr ()"
| "validate_ranges ((start, extent) # rest) ram_size = (case validate_guest_range start extent ram_size of Inl e \<Rightarrow> Inl e | Inr _ \<Rightarrow> validate_ranges rest ram_size)"

definition capture_ranges :: "capture_args \<Rightarrow> board_error + (int \<times> int) list" where
  "capture_ranges a = (if ca_full_ram a \<and> ca_ranges a \<noteq> [] then Inl RangeConflict
     else let ranges = (if ca_full_ram a then [(0, ca_ram_size a)] else ca_ranges a)
       in case validate_ranges ranges (ca_ram_size a) of Inl e \<Rightarrow> Inl e | Inr _ \<Rightarrow> Inr ranges)"

definition ram_file :: "nat \<Rightarrow> int \<Rightarrow> int \<Rightarrow> string" where
  "ram_file number start extent = ''ram_'' @ zfill 2 (dec (int number)) @ ''_'' @ hex_pad 8 start @ ''_'' @ hex_pad 8 extent @ ''.bin''"

fun ram_files :: "(int \<Rightarrow> int \<Rightarrow> ('h, int list) bio) \<Rightarrow> (int list \<Rightarrow> string) \<Rightarrow> (string \<Rightarrow> bool) \<Rightarrow> nat \<Rightarrow> (int \<times> int) list \<Rightarrow>
    ('h site, (string \<times> int \<times> string \<times> string) list) bio" where
  "ram_files M sha fails number [] = retIO []"
| "ram_files M sha fails number ((start, extent) # rest) = bindIO (on_board (M start extent)) (\<lambda>payload.
     bindIO (put_file fails (ram_file number start extent) (Ram payload)) (\<lambda>_. bindIO (ram_files M sha fails (number + 1) rest) (\<lambda>rows.
       retIO ((hex_pad 8 start, extent, ram_file number start extent, sha payload) # rows))))"

definition capture_last :: "(string \<Rightarrow> bool) \<Rightarrow> capture_args \<Rightarrow> bool \<Rightarrow> debug_view \<Rightarrow> pc_entry list \<Rightarrow> core_entry list \<Rightarrow>
    (string \<times> int \<times> string \<times> string) list \<Rightarrow> ('h site, manifest) bio" where
  "capture_last fails a frozen state ring core rows =
    (let m = \<lparr>mf_coherent = frozen, mf_state = state, mf_pc_ring = ring, mf_core_ring = core, mf_ram_size = ca_ram_size a, mf_ranges = rows\<rparr>
     in bindIO (put_file fails ''manifest.json'' (Manifest m)) (\<lambda>_. retIO m))"

definition capture_body :: "'h board \<Rightarrow> (int \<Rightarrow> int \<Rightarrow> ('h, int list) bio) \<Rightarrow> (int list \<Rightarrow> string) \<Rightarrow> (string \<Rightarrow> bool) \<Rightarrow> capture_args \<Rightarrow>
    (int \<times> int) list \<Rightarrow> ('h site, manifest) bio" where
  "capture_body B M sha fails a ranges = bindIO (on_board (debug_state B)) (\<lambda>state.
     let frozen = fv_frozen (dv_freeze state); depth = min (ca_depth a) 128
     in if \<not> frozen \<and> \<not> ca_allow_live a then failIO LiveCapture
        else if depth < 1 then failIO BadDepth
        else bindIO (on_board (read_pc_ring B depth)) (\<lambda>ring. bindIO (on_board (read_core_observe_ring B depth)) (\<lambda>core.
          bindIO make_dir (\<lambda>_. bindIO (ram_files M sha fails 0 ranges) (\<lambda>rows.
            capture_last fails a frozen state ring core rows)))))"

text \<open>\<open>except Exception\<close>: the marker, if there is a directory, and the exception again.\<close>

definition marking :: "(string \<Rightarrow> bool) \<Rightarrow> ('h site, 'a) bio \<Rightarrow> ('h site, 'a) bio" where
  "marking fails m w = (case m w of
     Some (Inl e, w') \<Rightarrow> (case snd w' of None \<Rightarrow> Some (Inl e, w') | Some _ \<Rightarrow> bindIO (put_file fails ''INCOMPLETE'' Incomplete) (\<lambda>_. failIO e) w')
   | r \<Rightarrow> r)"

definition capture_probe :: "'h board \<Rightarrow> (int \<Rightarrow> int \<Rightarrow> ('h, int list) bio) \<Rightarrow> (int list \<Rightarrow> string) \<Rightarrow> (string \<Rightarrow> bool) \<Rightarrow> bool \<Rightarrow> int \<Rightarrow>
    capture_args \<Rightarrow> ('h site, manifest) bio" where
  "capture_probe B M sha fails has_parent free_bytes a w =
    (case capture_ranges a of Inl e \<Rightarrow> failIO e w
     | Inr ranges \<Rightarrow>
         if snd w \<noteq> None then failIO CaptureExists w
         else if \<not> has_parent then failIO NoParent w
         else if free_bytes < sum_list (map snd ranges) + 1048576 then failIO DiskFull w
         else bindIO (on_board (open_mmio B)) (\<lambda>_. marking fails (capture_body B M sha fails a ranges)) w)"

subsection \<open>What a capture leaves behind\<close>

lemma on_board_site: "on_board m w = Some (r, w') \<Longrightarrow> snd w' = snd w"
  by (auto simp: on_board_def split: option.splits prod.splits)

lemma ram_file_name: "ram_file number start extent \<noteq> ''INCOMPLETE''" "ram_file number start extent \<noteq> ''manifest.json''"
  by (simp_all add: ram_file_def)

text \<open>While the files are written there is no marker and no manifest.\<close>

definition fresh :: "'h site \<Rightarrow> bool" where
  "fresh w \<longleftrightarrow> (\<exists>dir. snd w = Some dir \<and> dir ''INCOMPLETE'' = None \<and> dir ''manifest.json'' = None)"

lemma ram_files_site:
  assumes "ram_files M sha fails number ranges w = Some (r, w')" "fresh w"
  shows "fresh w' \<and> (\<forall>rows. r = Inr rows \<longrightarrow> map (\<lambda>(s, e, f, _). (s, e, f)) rows =
      map2 (\<lambda>i (start, extent). (hex_pad 8 start, extent, ram_file i start extent)) [number..<number + length ranges] ranges)"
  using assms
proof (induction ranges arbitrary: number w r w')
  case (Cons x ranges)
  obtain start extent where x: "x = (start, extent)" by (cases x)
  from Cons.prems(1) show ?case unfolding x ram_files.simps
  proof (elim bindIO_cases, goal_cases)
    case (1 e t)
    then show ?case using on_board_site [OF 1(1)] Cons.prems(2) by (simp add: fresh_def)
  next
    case (2 payload t e t')
    then show ?case using on_board_site [OF 2(1)] Cons.prems(2) ram_file_name [of number start extent]
      by (auto simp: fresh_def put_file_def split: if_splits)
  next
    case (3 payload t _ t' e t'')
    have "fresh t'" using 3(2) on_board_site [OF 3(1)] Cons.prems(2) ram_file_name [of number start extent]
      by (auto simp: fresh_def put_file_def split: if_splits)
    then show ?case using Cons.IH [OF 3(3)] 3 by simp
  next
    case (4 payload t _ t' rows t'')
    have "fresh t'" using 4(2) on_board_site [OF 4(1)] Cons.prems(2) ram_file_name [of number start extent]
      by (auto simp: fresh_def put_file_def split: if_splits)
    note IH = Cons.IH [OF 4(3) this]
    have "[number..<number + length (x # ranges)] = number # [number + 1..<number + 1 + length ranges]" by (simp add: upt_rec)
    then show ?case using IH 4(4) by (auto simp: retIO_def)
  qed
qed (simp add: retIO_def)

lemma capture_body_site:
  assumes "capture_body B M sha fails a ranges w = Some (r, w')" "snd w = None"
  shows "case r of Inr m \<Rightarrow> (\<exists>dir. snd w' = Some dir \<and> dir ''manifest.json'' = Some (Manifest m) \<and> dir ''INCOMPLETE'' = None) \<and>
      (mf_coherent m \<or> ca_allow_live a) \<and> mf_coherent m = fv_frozen (dv_freeze (mf_state m)) \<and>
      map (\<lambda>(s, e, f, _). (s, e, f)) (mf_ranges m) = map2 (\<lambda>i (start, extent). (hex_pad 8 start, extent, ram_file i start extent)) [0..<length ranges] ranges
    | Inl e \<Rightarrow> snd w' = None \<or> (\<exists>dir. snd w' = Some dir \<and> dir ''INCOMPLETE'' = None \<and> dir ''manifest.json'' \<in> {None, Some Torn})"
proof -
  let ?frozen = "\<lambda>state. fv_frozen (dv_freeze state)"
  define depth where "depth = min (ca_depth a) 128"
  obtain r1 w1 where 1: "on_board (debug_state B) w = Some (r1, w1)" using assms(1) by (auto simp: capture_body_def elim!: bindIO_cases)
  have s1: "snd w1 = None" using on_board_site [OF 1] assms(2) by simp
  show ?thesis
  proof (cases r1)
    case (Inl e)
    then show ?thesis using assms(1) 1 s1 by (auto simp: capture_body_def)
  next
    case (Inr state)
    show ?thesis
    proof (cases "\<not> ?frozen state \<and> \<not> ca_allow_live a \<or> depth < 1")
      case True
      then show ?thesis using assms(1) 1 s1 Inr by (auto simp: capture_body_def Let_def depth_def [symmetric] split: if_splits)
    next
      case False
      then have "bindIO (on_board (read_pc_ring B depth)) (\<lambda>ring. bindIO (on_board (read_core_observe_ring B depth)) (\<lambda>core.
          bindIO make_dir (\<lambda>_. bindIO (ram_files M sha fails 0 ranges) (\<lambda>rows.
            capture_last fails a (?frozen state) state ring core rows)))) w1 = Some (r, w')"
        using assms(1) 1 Inr by (auto simp: capture_body_def Let_def depth_def [symmetric])
      then show ?thesis
      proof (elim bindIO_cases, goal_cases)
        case (1 e t)
        then show ?case using on_board_site [OF 1(1)] s1 by simp
      next
        case (2 ring t e t')
        then show ?case using on_board_site [OF 2(1)] on_board_site [OF 2(2)] s1 by simp
      next
        case (3 ring t core t' e t'')
        then show ?case using on_board_site [OF 3(1)] on_board_site [OF 3(2)] s1 by (simp add: make_dir_def)
      next
        case (4 ring t core t' _ t'' e t3)
        have "fresh t''" using 4(3) on_board_site [OF 4(1)] on_board_site [OF 4(2)] s1 by (auto simp: make_dir_def fresh_def)
        then show ?case using ram_files_site [OF 4(4)] 4(5,6) by (auto simp: fresh_def)
      next
        case (5 ring t core t' _ t'' rows t3)
        have "fresh t''" using 5(3) on_board_site [OF 5(1)] on_board_site [OF 5(2)] s1 by (auto simp: make_dir_def fresh_def)
        then have f: "fresh t3" "map (\<lambda>(s, e, f, _). (s, e, f)) rows = map2 (\<lambda>i (start, extent). (hex_pad 8 start, extent, ram_file i start extent)) [0..<length ranges] ranges"
          using ram_files_site [OF 5(4)] by simp_all
        then show ?case using 5(5) False
          by (auto simp: capture_last_def Let_def fresh_def put_file_def bindIO_def retIO_def split: if_splits)
      qed
    qed
  qed
qed

text \<open>
  C39. A capture is marked for what it is. If the command succeeds, the directory holds the manifest and no
  marker, the manifest says whether the core was frozen (a live core only with permission), and it lists
  one file per requested range, in order. If it fails after the directory was made, whatever failed, the
  directory holds no readable manifest and does hold the marker (torn, if the marker itself cannot be written).
\<close>
theorem capture_marked:
  assumes "capture_probe B M sha fails has_parent free_bytes a w = Some (r, w')" "snd w = None"
  shows "case r of Inr m \<Rightarrow> (\<exists>dir ranges. snd w' = Some dir \<and> dir ''manifest.json'' = Some (Manifest m) \<and> dir ''INCOMPLETE'' = None \<and>
      capture_ranges a = Inr ranges \<and> (mf_coherent m \<or> ca_allow_live a) \<and> mf_coherent m = fv_frozen (dv_freeze (mf_state m)) \<and>
      map (\<lambda>(s, e, f, _). (s, e, f)) (mf_ranges m) = map2 (\<lambda>i (start, extent). (hex_pad 8 start, extent, ram_file i start extent)) [0..<length ranges] ranges)
    | Inl e \<Rightarrow> snd w' = None \<or> (\<exists>dir. snd w' = Some dir \<and> (\<forall>m. dir ''manifest.json'' \<noteq> Some (Manifest m)) \<and>
        dir ''INCOMPLETE'' = Some (if fails ''INCOMPLETE'' then Torn else Incomplete))"
proof (cases "capture_ranges a")
  case (Inl e)
  then show ?thesis using assms by (auto simp: capture_probe_def)
next
  case (Inr ranges)
  show ?thesis
  proof (cases "has_parent \<and> \<not> free_bytes < sum_list (map snd ranges) + 1048576")
    case False
    then show ?thesis using assms Inr by (auto simp: capture_probe_def split: if_splits)
  next
    case True
    then have "bindIO (on_board (open_mmio B)) (\<lambda>_. marking fails (capture_body B M sha fails a ranges)) w = Some (r, w')"
      using assms Inr by (simp add: capture_probe_def)
    then show ?thesis
    proof (elim bindIO_cases, goal_cases)
      case (1 e t)
      then show ?case using on_board_site [OF 1(1)] assms(2) by simp
    next
      case (2 _ t)
      have t: "snd t = None" using on_board_site [OF 2(1)] assms(2) by simp
      obtain r1 w1 where b: "capture_body B M sha fails a ranges t = Some (r1, w1)" using 2(2) by (auto simp: marking_def split: option.splits)
      note body = capture_body_site [OF b t]
      show ?case
      proof (cases r1)
        case (Inr m)
        then show ?thesis using 2(2) b body \<open>capture_ranges a = Inr ranges\<close> by (auto simp: marking_def)
      next
        case (Inl e)
        show ?thesis
        proof (cases "snd w1")
          case None
          then show ?thesis using 2(2) b Inl by (auto simp: marking_def)
        next
          case (Some dir)
          then have d: "\<forall>m. dir ''manifest.json'' \<noteq> Some (Manifest m)" using body Inl by auto
          have "marking fails (capture_body B M sha fails a ranges) t = Some (if fails ''INCOMPLETE''
              then (Inl (FileFailed ''INCOMPLETE''), fst w1, Some (dir(''INCOMPLETE'' \<mapsto> Torn)))
              else (Inl e, fst w1, Some (dir(''INCOMPLETE'' \<mapsto> Incomplete))))"
            using b Inl Some by (simp add: marking_def put_file_def bindIO_def failIO_def)
          then show ?thesis using 2(2) d by (auto split: if_splits)
        qed
      qed
    qed
  qed
qed

text \<open>A live capture of four bytes, with permission.\<close>

definition demo_capture :: capture_args where
  "demo_capture = \<lparr>ca_ranges = [(0, 4)], ca_full_ram = False, ca_ram_size = 16, ca_depth = 1, ca_allow_live = True\<rparr>"

lemma demo_rings:
  "\<exists>es w'. read_pc_ring (logged cold_board) 1 w = Some (Inr es, w')" "\<exists>es w'. read_core_observe_ring (logged cold_board) 1 w = Some (Inr es, w')"
proof -
  have one: "[0 .. 1 - 1] = [0 :: int]" by (simp add: upto.simps)
  show "\<exists>es w'. read_pc_ring (logged cold_board) 1 w = Some (Inr es, w')" "\<exists>es w'. read_core_observe_ring (logged cold_board) 1 w = Some (Inr es, w')"
    unfolding read_pc_ring_def read_core_observe_ring_def finallyIO_def one by (simp_all add: cold_ops logged_poke)
qed

lemma capture_marked_witness:
  "\<exists>m w'. capture_probe (logged cold_board) (\<lambda>_ _ h. Some (Inr [1, 2, 3, 4], h)) (\<lambda>_. []) (\<lambda>_. False) True (2 ^ 30) demo_capture (((), []), None) = Some (Inr m, w') \<and>
    (\<exists>dir. snd w' = Some dir \<and> dir ''manifest.json'' = Some (Manifest m) \<and> dir ''INCOMPLETE'' = None)"
proof -
  let ?M = "\<lambda>_ _ h. Some (Inr [1, 2, 3, 4], h)"
  let ?w = "(((), []), None)"
  have quiet: "b = []" if "debug_state (logged cold_board) ((), []) = Some (x, (), b)" for x b
    using silent_debug(2) [of cold_board] that unfolding silent_def by fastforce
  obtain s where s: "debug_state (logged cold_board) ((), []) = Some (Inr s, (), [])"
    using cold_admits [of "((), [])"] by (auto simp: cold_state_def elim!: bindIO_cases dest: quiet)
  obtain ring h1 where ring: "read_pc_ring (logged cold_board) 1 ((), []) = Some (Inr ring, h1)" using demo_rings(1) by blast
  obtain core h2 where core: "read_core_observe_ring (logged cold_board) 1 h1 = Some (Inr core, h2)" using demo_rings(2) by blast
  have ranges: "capture_ranges demo_capture = Inr [(0, 4)]" by (simp add: capture_ranges_def demo_capture_def validate_guest_range_def)
  have f: "ca_allow_live demo_capture" "ca_depth demo_capture = 1" by (simp_all add: demo_capture_def)
  have opened: "open_mmio (logged cold_board) ((), []) = Some (Inr (), (), [])"
  proof -
    have "require_fpga_operating (logged cold_board) w = Some (Inr (), w)" for w
      by (simp add: require_fpga_operating_def logged_def cold_board_def strip_def lstrip_def is_ws_def)
    moreover have "cold_reg R_IDENT = IDENT_MAGIC" by code_simp
    ultimately show ?thesis by (simp add: open_mmio_def cold_ops)
  qed
  have "\<exists>m w'. capture_probe (logged cold_board) ?M (\<lambda>_. []) (\<lambda>_. False) True (2 ^ 30) demo_capture ?w = Some (Inr m, w')"
    using s ring core by (simp add: capture_probe_def ranges marking_def capture_body_def capture_last_def on_board_def opened f make_dir_def
      put_file_def retIO_def bindIO_def Let_def) (cases h2, simp)
  then obtain m w' where r: "capture_probe (logged cold_board) ?M (\<lambda>_. []) (\<lambda>_. False) True (2 ^ 30) demo_capture ?w = Some (Inr m, w')" by blast
  from capture_marked [OF r] r show ?thesis by auto
qed

end
