(* ===== verification/Board_Samples.thy ===== *)
theory Board_Samples
  imports Board_Traps Board_State Py_Regex Elf_Flat
begin

text \<open>
  The remaining commands of fpga/board-tools/ven_board_probe.py: the scan of a disk image for the result of
  a timedemo and the wait for it, the trap on a CWSDPMI exception record, the samplers, the DDR text page
  and the clock profiles. The disk image, the low memory and the clock registers are parameters.
\<close>

subsection \<open>Results on a disk image\<close>

text \<open>Expressions on bytes: \<open>\s\<close> is ASCII white space, and literals ignore case.\<close>

definition is_bspace :: "char \<Rightarrow> bool" where
  "is_bspace c = (let n = of_char c :: nat in n = 32 \<or> (9 \<le> n \<and> n \<le> 13))"

definition bspaces :: "string \<Rightarrow> string option" where
  "bspaces s = map_option snd (plus is_bspace s)"

fun lit_ci :: "string \<Rightarrow> string \<Rightarrow> string option" where
  "lit_ci [] s = Some s"
| "lit_ci (p # ps) [] = None"
| "lit_ci (p # ps) (c # s) = (if p = lower_char c then lit_ci ps s else None)"

text \<open>\<open>\d{1,5}\<close>, which has to be followed by white space, and \<open>[0-9]+(?:\.[0-9]+)?\<close>.\<close>

definition dec5 :: "string \<Rightarrow> (int \<times> string) option" where
  "dec5 s = (case span is_dec s of (g, r) \<Rightarrow> if g = [] then None else Some (number 10 (take 5 g), drop 5 g @ r))"

definition decimal :: "string \<Rightarrow> (string \<times> string) option" where
  "decimal s = (case plus is_dec s of None \<Rightarrow> None
     | Some (g, r) \<Rightarrow> (case r of [] \<Rightarrow> Some (g, r)
         | c # r' \<Rightarrow> if c = CHR ''.'' then (case plus is_dec r' of None \<Rightarrow> Some (g, r) | Some (g', r'') \<Rightarrow> Some (g @ [CHR ''.''] @ g', r'')) else Some (g, r)))"

definition result_at :: "char option \<Rightarrow> string \<Rightarrow> ((int \<times> string \<times> string) \<times> string) option" where
  "result_at prev s =
    (if (case prev of None \<Rightarrow> False | Some c \<Rightarrow> c = CHR ''%'' \<or> is_dec c) then None
     else Option.bind (dec5 s) (\<lambda>(frames, s). Option.bind (bspaces s) (\<lambda>s. Option.bind (lit_ci ''frames'' s) (\<lambda>s. Option.bind (bspaces s) (\<lambda>s.
       Option.bind (decimal s) (\<lambda>(seconds, s). Option.bind (bspaces s) (\<lambda>s. Option.bind (lit_ci ''seconds'' s) (\<lambda>s. Option.bind (bspaces s) (\<lambda>s.
       Option.bind (decimal s) (\<lambda>(fps, s). Option.bind (bspaces s) (\<lambda>s. Option.bind (lit_ci ''fps'' s) (\<lambda>s. Some ((frames, seconds, fps), s)))))))))))))"

text \<open>\<open>finditer\<close>: as \<open>findall\<close>, with the character before the position.\<close>

fun finditer_upto :: "(char option \<Rightarrow> string \<Rightarrow> ('g \<times> string) option) \<Rightarrow> nat \<Rightarrow> char option \<Rightarrow> string \<Rightarrow> 'g list" where
  "finditer_upto m 0 prev s = []"
| "finditer_upto m (Suc n) prev [] = []"
| "finditer_upto m (Suc n) prev (c # s) = (case m prev (c # s) of
     Some (g, r) \<Rightarrow> g # finditer_upto m n (Some (last (take (length (c # s) - length r) (c # s)))) r
   | None \<Rightarrow> finditer_upto m n (Some c) s)"

definition disk_results :: "string \<Rightarrow> (int \<times> string \<times> string) list" where
  "disk_results data = finditer_upto result_at (length data) None data"

text \<open>The exit status: 2 for an image that already has a result, 0 when the result appears, 1 for a timeout.\<close>

definition disk_scan :: "('h \<Rightarrow> string \<times> 'h) \<Rightarrow> ('h, (int \<times> string \<times> string) list) bio" where
  "disk_scan D h = (case D h of (data, h) \<Rightarrow> Some (Inr (disk_results data), h))"

partial_function (option) quake_loop :: "'h board \<Rightarrow> ('h \<Rightarrow> string \<times> 'h) \<Rightarrow> int \<Rightarrow> int \<Rightarrow> int \<Rightarrow> int \<Rightarrow> 'h \<Rightarrow> ((board_error + int) \<times> 'h) option" where
  "quake_loop B D frames timeout interval started h = bindIO (disk_scan D) (\<lambda>results h.
     if list_ex (\<lambda>(n, _). n = frames) results then Some (Inr 0, h)
     else bindIO (rd32 B R_DBG_LASTEIP) (\<lambda>_. bindIO (rd32 B R_DBG2) (\<lambda>_. bindIO (overdue B timeout started) (\<lambda>late h.
       if late then Some (Inr 1, h) else bindIO (sleep B interval) (\<lambda>_. quake_loop B D frames timeout interval started) h))) h) h"

definition quake_probe :: "'h board \<Rightarrow> ('h \<Rightarrow> string \<times> 'h) \<Rightarrow> bool \<Rightarrow> bool \<Rightarrow> int \<Rightarrow> int \<Rightarrow> int \<Rightarrow> ('h, int) bio" where
  "quake_probe B D allow_existing precheck_only frames timeout interval = bindIO (disk_scan D) (\<lambda>initial.
     if initial \<noteq> [] \<and> \<not> allow_existing then retIO 2
     else if precheck_only then retIO 0
     else bindIO (open_mmio B) (\<lambda>_. bindIO (now B) (\<lambda>started. quake_loop B D frames timeout interval started)))"

subsection \<open>The trap on an exception record\<close>

text \<open>Fields of a register record: a name, an equals sign, and a number of hexadecimal digits (at least one for None).\<close>

fun reg_fields :: "(string \<times> nat option) list \<Rightarrow> string \<Rightarrow> string option" where
  "reg_fields [] s = Some s"
| "reg_fields ((name, width) # fs) s = Option.bind (lit name s) (\<lambda>s. Option.bind (case width of
       None \<Rightarrow> map_option snd (plus is_hex s) | Some w \<Rightarrow> map_option snd (hexn w 0 s)) (reg_fields fs))"

definition CWSDPMI_FIELDS :: "(string \<times> nat option) list" where
  "CWSDPMI_FIELDS = [(''ebp='', Some 8), ('' esp='', Some 8), ('' cs='', None), ('' ds='', None), ('' es='', None), ('' fs='', None),
     ('' gs='', None), ('' ss='', None), ('' error='', Some 4)]"

fun cwsdpmi_search :: "nat \<Rightarrow> string \<Rightarrow> (nat \<times> string) option" where
  "cwsdpmi_search pos [] = None"
| "cwsdpmi_search pos (c # s) = (case reg_fields CWSDPMI_FIELDS (c # s) of
     Some r \<Rightarrow> Some (pos, take (length (c # s) - length r) (c # s)) | None \<Rightarrow> cwsdpmi_search (pos + 1) s)"

definition cwsdpmi_round :: "'h board \<Rightarrow> ('h \<Rightarrow> string \<times> 'h) \<Rightarrow> int \<Rightarrow> bool \<Rightarrow> ('h, (int \<times> string \<times> bool \<times> int, bool) verdict) bio" where
  "cwsdpmi_round B W start saw_clear h = (case W h of (window, h) \<Rightarrow>
     (case cwsdpmi_search 0 window of
        None \<Rightarrow> Some (Inr (Wait True), h)
      | Some (pos, record) \<Rightarrow> if saw_clear then bindIO (fire B) (\<lambda>(frozen, frz). retIO (Fired (start + int pos, record, frozen, frz))) h
          else Some (Inr (Wait False), h)))"

definition trap_cwsdpmi_exception_probe :: "'h board \<Rightarrow> (int \<Rightarrow> int \<Rightarrow> 'h \<Rightarrow> string \<times> 'h) \<Rightarrow> int \<Rightarrow> int \<Rightarrow> int \<Rightarrow> int \<Rightarrow>
    ('h, (int \<times> string \<times> bool \<times> int) + bool) bio" where
  "trap_cwsdpmi_exception_probe B L start end_addr timeout interval =
    (if \<not> (0 \<le> start \<and> start < end_addr \<and> end_addr \<le> 0x100000) then failIO BadRange
     else bindIO (open_mmio B) (\<lambda>_. bindIO (now B) (\<lambda>started.
       poll_loop B (cwsdpmi_round B (L start end_addr) start) timeout interval started False)))"

subsection \<open>Samplers\<close>

text \<open>A line of the sampler: selector, EIP and state of the newest instruction, the last EIP and the last address.\<close>

fun sample_loop :: "'h board \<Rightarrow> bool \<Rightarrow> int \<Rightarrow> (int \<times> int \<times> int) option \<Rightarrow> nat \<Rightarrow> ('h, (int \<times> int \<times> int \<times> int \<times> int) list) bio" where
  "sample_loop B every interval previous 0 = retIO []"
| "sample_loop B every interval previous (Suc n) = bindIO (rd32 B R_DBG_TRPC) (\<lambda>eip. bindIO (rd32 B R_DBG_TRAUX) (\<lambda>aux.
     let current = (aux AND 0xFFFF, eip, drop_bit 16 aux AND 0x3F)
     in if Some current \<noteq> previous \<or> every
        then bindIO (rd32 B R_DBG_LASTEIP) (\<lambda>last. bindIO (rd32 B R_DBG2) (\<lambda>ar. bindIO (sleep B interval) (\<lambda>_.
          bindIO (sample_loop B every interval (Some current) n) (\<lambda>rows.
            retIO ((fst current, eip, snd (snd current), last, guest_address ar) # rows)))))
        else bindIO (sleep B interval) (\<lambda>_. sample_loop B every interval previous n)))"

definition sample_probe :: "'h board \<Rightarrow> bool \<Rightarrow> int \<Rightarrow> int \<Rightarrow> ('h, (int \<times> int \<times> int \<times> int \<times> int) list) bio" where
  "sample_probe B every interval samples = bindIO (open_mmio B) (\<lambda>_. sample_loop B every interval None (nat samples))"

fun win95_loop :: "'h board \<Rightarrow> int \<Rightarrow> nat \<Rightarrow> ('h, (int \<times> int) list) bio" where
  "win95_loop B interval 0 = retIO []"
| "win95_loop B interval (Suc n) = bindIO (rd32 B R_DBG_LASTEIP) (\<lambda>eip. bindIO (rd32 B R_DBG2) (\<lambda>ar. bindIO (sleep B interval) (\<lambda>_.
     bindIO (win95_loop B interval n) (\<lambda>rows. retIO ((eip, guest_address ar) # rows)))))"

definition transitions :: "int list \<Rightarrow> int" where
  "transitions eips = int (length (filter (\<lambda>(a, b). a \<noteq> b) (zip eips (tl eips))))"

definition desktop_present :: "int \<Rightarrow> rat \<Rightarrow> int \<Rightarrow> (int \<times> int) list \<Rightarrow> int \<Rightarrow> int \<Rightarrow> bool" where
  "desktop_present samples min_ratio min_transitions rows tick0 tick1 =
    (let eips = map fst rows; hits = (\<lambda>e. int (count_list eips e)); vmm = int (count_list (map snd rows) 0x1021C0);
         product = of_int samples * min_ratio; threshold = (if 0 \<le> product then \<lfloor>product\<rfloor> else \<lceil>product\<rceil>)
     in threshold \<le> hits 0x1E5 + hits 0x1E6 \<and> threshold \<le> vmm \<and> 0 < hits 0x1E5 \<and> 0 < hits 0x1E6 \<and>
        min_transitions \<le> transitions eips \<and> tick1 \<noteq> tick0)"

text \<open>What is printed: the samples, the low-memory words (EBDA, two vectors, both ticks) and the verdict.\<close>

definition win95_probe :: "'h board \<Rightarrow> 'h guest \<Rightarrow> int \<Rightarrow> int \<Rightarrow> rat \<Rightarrow> int \<Rightarrow> ('h, (int \<times> int) list \<times> int list \<times> bool) bio" where
  "win95_probe B L samples interval min_ratio min_transitions = bindIO (open_mmio B) (\<lambda>_.
     bindIO (gu32 L 0x100000 0x46C) (\<lambda>tick0. bindIO (rd16 B 0x40E) (\<lambda>ebda. bindIO (gu32 L 0x100000 0x4C) (\<lambda>ivt13. bindIO (gu32 L 0x100000 0x64) (\<lambda>ivt19.
     bindIO (win95_loop B interval (nat samples)) (\<lambda>rows. bindIO (gu32 L 0x100000 0x46C) (\<lambda>tick1.
       retIO (rows, [ebda, ivt13, ivt19, tick0, tick1], desktop_present samples min_ratio min_transitions rows tick0 tick1))))))))"

text \<open>The argument of a range: start and length, numbers in any base of Python, with a colon between them.\<close>

definition parse_range :: "string \<Rightarrow> (int \<times> int) option" where
  "parse_range value = (case dropWhile (\<lambda>c. c \<noteq> CHR '':'') value of [] \<Rightarrow> None
     | _ # length_text \<Rightarrow> (case (py_int0 (takeWhile (\<lambda>c. c \<noteq> CHR '':'') value), py_int0 length_text) of
           (Some start, Some extent) \<Rightarrow> if start < 0 \<or> extent \<le> 0 then None else Some (start, extent)
         | _ \<Rightarrow> None))"

subsection \<open>The text page and the clock profiles\<close>

definition page_char :: "int \<Rightarrow> char" where
  "page_char v = (if 0x20 \<le> v \<and> v < 0x7F then char_of v else CHR '' '')"

definition page_row :: "int list \<Rightarrow> nat \<Rightarrow> string" where
  "page_row page row = rev (lstrip (rev (map (\<lambda>col. page_char (page ! (row * 160 + col * 2))) [0..<80])))"

definition page_lines :: "int list \<Rightarrow> string list" where
  "page_lines page = concat (map (\<lambda>row. let r = page_row page row in if r = [] then [] else [zfill 2 (dec (int row)) @ '': '' @ r]) [0..<25])"

text \<open>The counts that are printed: printable, nonblank characters, nonzero attributes.\<close>

definition page_counts :: "int list \<Rightarrow> int \<times> int \<times> int" where
  "page_counts page = (let chars = map (\<lambda>i. page ! (2 * i)) [0..<2000]; attrs = map (\<lambda>i. page ! (2 * i + 1)) [0..<2000]
     in (int (length (filter (\<lambda>v. 0x20 \<le> v \<and> v < 0x7F) chars)), int (length (filter (\<lambda>v. v \<notin> {0x00, 0x20}) chars)),
         int (length (filter (\<lambda>v. v \<noteq> 0) attrs))))"

definition vga_text_probe :: "'h board \<Rightarrow> (int \<Rightarrow> int \<Rightarrow> ('h, int list) bio) \<Rightarrow> ('h, (int \<times> int \<times> int) \<times> string list) bio" where
  "vga_text_probe B L = bindIO (open_mmio B) (\<lambda>_. bindIO (L VGA_TEXT_BASE (VGA_TEXT_BASE + VGA_TEXT_SIZE)) (\<lambda>page.
     retIO (page_counts page, page_lines page)))"

definition CRL_APB_PL0_REF_CTRL :: int where "CRL_APB_PL0_REF_CTRL = 0xC0"

definition PL0_CLOCK_PROFILES :: "string \<rightharpoonup> int" where
  "PL0_CLOCK_PROFILES = [''rpll-95m'' \<mapsto> 0x01010B02, ''iopll-93m'' \<mapsto> 0x01011000, ''iopll-100m'' \<mapsto> 0x01010F00]"

text \<open>The clock registers are a device of their own: the probe returns the words before and after.\<close>

definition clock_probe :: "'h board \<Rightarrow> string \<Rightarrow> ('h, int \<times> int) bio" where
  "clock_probe C profile = (case PL0_CLOCK_PROFILES profile of None \<Rightarrow> failIO BoardKey
     | Some value \<Rightarrow> bindIO (rd32 C CRL_APB_PL0_REF_CTRL) (\<lambda>previous. bindIO (poke C CRL_APB_PL0_REF_CTRL value) (\<lambda>_.
         bindIO (rd32 C CRL_APB_PL0_REF_CTRL) (\<lambda>current. if current \<noteq> value then failIO (ClockReadback current value) else retIO (previous, current)))))"

subsection \<open>Raw memory dumps\<close>

text \<open>The bytes that are written to the output file; \<open>writable\<close> says whether that succeeds.\<close>

definition dump_lowmem_probe :: "'h board \<Rightarrow> (int \<Rightarrow> int \<Rightarrow> ('h, int list) bio) \<Rightarrow> bool \<Rightarrow> int \<Rightarrow> int \<Rightarrow> ('h, int list) bio" where
  "dump_lowmem_probe B L writable start extent =
    (if \<not> (0 \<le> start \<and> start < 0x100000) then failIO BadRange
     else if \<not> (0 < extent \<and> extent \<le> 0x10000) \<or> 0x100000 < start + extent then failIO BadRange
     else bindIO (open_mmio B) (\<lambda>_. bindIO (L start (start + extent)) (\<lambda>bytes. if writable then retIO bytes else failIO (FileFailed ''output''))))"

text \<open>The guest memory is read a second time for the printed hash.\<close>

definition dump_ram_probe :: "'h board \<Rightarrow> (int \<Rightarrow> int \<Rightarrow> ('h, int list) bio) \<Rightarrow> (int list \<Rightarrow> string) \<Rightarrow> bool \<Rightarrow> int \<Rightarrow> int \<Rightarrow> int \<Rightarrow>
    ('h, int list \<times> string) bio" where
  "dump_ram_probe B M sha writable start extent ram_size =
    (case validate_guest_range start extent ram_size of Inl e \<Rightarrow> failIO e
     | Inr _ \<Rightarrow> bindIO (open_mmio B) (\<lambda>_. bindIO (M start extent) (\<lambda>bytes.
         if \<not> writable then failIO (FileFailed ''output'') else bindIO (M start extent) (\<lambda>again. retIO (bytes, sha again)))))"

subsection \<open>The results are found\<close>

definition render_result :: "int \<times> string \<times> string \<Rightarrow> string" where
  "render_result r = (case r of (frames, seconds, fps) \<Rightarrow> dec frames @ '' frames '' @ seconds @ '' seconds '' @ fps @ '' fps'')"

text \<open>A number as the program prints it: digits, or digits, a point and digits.\<close>

definition digit_text :: "string \<Rightarrow> bool" where
  "digit_text g \<longleftrightarrow> g \<noteq> [] \<and> (\<forall>c \<in> set g. is_dec c)"

definition decimal_text :: "string \<Rightarrow> bool" where
  "decimal_text t \<longleftrightarrow> digit_text t \<or> (\<exists>g f. t = g @ [CHR ''.''] @ f \<and> digit_text g \<and> digit_text f)"

definition proper :: "int \<times> string \<times> string \<Rightarrow> bool" where
  "proper r \<longleftrightarrow> (case r of (frames, seconds, fps) \<Rightarrow> 0 \<le> frames \<and> frames < 10 ^ 5 \<and> decimal_text seconds \<and> decimal_text fps)"

text \<open>Text between results: no digits, and no percent sign right before a result.\<close>

definition filler :: "string \<Rightarrow> bool" where
  "filler j \<longleftrightarrow> (\<forall>c \<in> set j. \<not> is_dec c) \<and> (j \<noteq> [] \<longrightarrow> last j \<noteq> CHR ''%'')"

lemma decimal_append:
  assumes "decimal_text t" "\<not> is_dec c" "c \<noteq> CHR ''.''"
  shows "decimal (t @ c # r) = Some (t, c # r)"
proof -
  have d: "plus is_dec (g @ q) = Some (g, q)" if "digit_text g" "q \<noteq> [] \<Longrightarrow> \<not> is_dec (hd q)" for g q
    using that by (intro plus_span) (auto simp: digit_text_def)
  have dot: "\<not> is_dec (CHR ''.'')" by code_simp
  from assms(1) consider "digit_text t" | g f where "t = g @ [CHR ''.''] @ f" "digit_text g" "digit_text f" unfolding decimal_text_def by blast
  then show ?thesis
  proof cases
    case 1
    then show ?thesis using d [of t "c # r"] assms(2,3) by (simp add: decimal_def)
  next
    case 2
    have "plus is_dec (g @ [CHR ''.''] @ f @ c # r) = Some (g, [CHR ''.''] @ f @ c # r)" using 2(2) dot by (intro d) simp_all
    moreover have "plus is_dec (f @ c # r) = Some (f, c # r)" using 2(3) assms(2) by (intro d) simp_all
    ultimately show ?thesis by (simp add: decimal_def 2(1))
  qed
qed

lemma digits_dec: "c \<in> set (digits 10 n) \<Longrightarrow> is_dec c"
  using digits_chars [of c 10 n] by (auto simp: is_dec_def decval_def digit_val_char)

lemma dec5_dec:
  assumes "0 \<le> n" "n < 10 ^ 5" "\<not> is_dec c"
  shows "dec5 (dec n @ c # r) = Some (n, c # r)"
proof -
  have "dec n = digits 10 n" using assms(1) by (simp add: dec_def)
  moreover have "takeWhile is_dec (digits 10 n @ c # r) = digits 10 n" "dropWhile is_dec (digits 10 n @ c # r) = c # r"
    using digits_dec assms(3) by (simp_all add: takeWhile_append dropWhile_append)
  moreover have "length (digits 10 n) \<le> 5" using assms by (intro digits_length) simp_all
  ultimately show ?thesis using fold_digits [of n 10] assms(1) by (simp add: dec5_def span_def digits_not_nil number_def)
qed

lemma bspaces_one: "\<not> is_bspace c \<Longrightarrow> bspaces (CHR '' '' # c # s) = Some (c # s)"
  using plus_span [of "[CHR '' '']" is_bspace "c # s"] by (simp add: bspaces_def is_bspace_def)

lemma decimal_text_start: "decimal_text t \<Longrightarrow> \<exists>c cs. t = c # cs \<and> \<not> is_bspace c"
proof -
  have "is_dec c \<Longrightarrow> \<not> is_bspace c" for c
    using of_nat_of_char [where 'a = int, of c] by (auto simp: is_dec_def decval_def digit_val_def is_bspace_def Let_def split: option.splits if_splits)
  then show "decimal_text t \<Longrightarrow> \<exists>c cs. t = c # cs \<and> \<not> is_bspace c"
    unfolding decimal_text_def digit_text_def by (cases t) (auto simp: Cons_eq_append_conv)
qed

lemma result_found:
  assumes "proper r" "\<And>c. prev = Some c \<Longrightarrow> c \<noteq> CHR ''%'' \<and> \<not> is_dec c"
  shows "result_at prev (render_result r @ s) = Some (r, s)"
proof -
  obtain n a b where r: "r = (n, a, b)" by (cases r)
  have p: "0 \<le> n" "n < 10 ^ 5" "decimal_text a" "decimal_text b" using assms(1) by (simp_all add: proper_def r)
  obtain a1 a2 where a: "a = a1 # a2" "\<not> is_bspace a1" using decimal_text_start [OF p(3)] by blast
  obtain b1 b2 where b: "b = b1 # b2" "\<not> is_bspace b1" using decimal_text_start [OF p(4)] by blast
  have sp: "\<not> is_dec (CHR '' '')" "\<not> is_bspace (CHR ''f'')" "\<not> is_bspace (CHR ''s'')" by code_simp+
  have 1: "dec5 (dec n @ '' frames '' @ a @ '' seconds '' @ b @ '' fps'' @ s) = Some (n, '' frames '' @ a @ '' seconds '' @ b @ '' fps'' @ s)"
    using dec5_dec [OF p(1,2) sp(1)] by simp
  have 2: "decimal (a @ '' seconds '' @ b @ '' fps'' @ s) = Some (a, '' seconds '' @ b @ '' fps'' @ s)"
    "decimal (b @ '' fps'' @ s) = Some (b, '' fps'' @ s)" using decimal_append [OF p(3) sp(1)] decimal_append [OF p(4) sp(1)] by simp_all
  have 3: "bspaces ('' '' @ a @ x) = Some (a @ x)" "bspaces ('' '' @ b @ x) = Some (b @ x)" for x using bspaces_one a b by simp_all
  have 4: "bspaces (CHR '' '' # CHR ''f'' # x) = Some (CHR ''f'' # x)" "bspaces (CHR '' '' # CHR ''s'' # x) = Some (CHR ''s'' # x)" for x
    using bspaces_one sp by simp_all
  have 5: "lower_char (CHR ''f'') = CHR ''f''" "lower_char (CHR ''r'') = CHR ''r''" "lower_char (CHR ''a'') = CHR ''a''" "lower_char (CHR ''m'') = CHR ''m''"
    "lower_char (CHR ''e'') = CHR ''e''" "lower_char (CHR ''s'') = CHR ''s''" "lower_char (CHR ''c'') = CHR ''c''" "lower_char (CHR ''o'') = CHR ''o''"
    "lower_char (CHR ''n'') = CHR ''n''" "lower_char (CHR ''d'') = CHR ''d''" "lower_char (CHR ''p'') = CHR ''p''" by code_simp+
  have ok: "\<not> (case prev of None \<Rightarrow> False | Some c \<Rightarrow> c = CHR ''%'' \<or> is_dec c)" using assms(2) by (cases prev) auto
  have "render_result r @ s = dec n @ '' frames '' @ a @ '' seconds '' @ b @ '' fps'' @ s" by (simp add: render_result_def r)
  then show ?thesis using 1 2 3 4 5 ok r by (simp add: result_at_def)
qed

lemma finditer_nil: "finditer_upto m n prev [] = []"
  by (cases n) simp_all

lemma result_not_here:
  assumes "\<not> is_dec c"
  shows "result_at prev (c # s) = None"
  using assms by (simp add: result_at_def dec5_def span_def)

lemma finditer_skip:
  assumes "\<forall>c \<in> set j. \<not> is_dec c" "length j \<le> n"
  shows "finditer_upto result_at n prev (j @ s) = finditer_upto result_at (n - length j) (if j = [] then prev else Some (last j)) s"
  using assms
proof (induction j arbitrary: n prev)
  case (Cons c j)
  then obtain n' where "n = Suc n'" by (cases n) auto
  then show ?case using Cons by (simp add: result_not_here)
qed simp

lemma finditer_result:
  assumes "proper r" "\<And>c. prev = Some c \<Longrightarrow> c \<noteq> CHR ''%'' \<and> \<not> is_dec c" "length (render_result r) + length s \<le> n"
  shows "\<exists>n'. length s \<le> n' \<and> finditer_upto result_at n prev (render_result r @ s) = r # finditer_upto result_at n' (Some (CHR ''s'')) s"
proof -
  obtain x xs where c: "render_result r = x # xs" "last (x # xs) = CHR ''s''"
  proof -
    have "render_result r \<noteq> []" "last (render_result r) = CHR ''s''" by (auto simp: render_result_def split: prod.splits)
    then show thesis using that by (cases "render_result r") auto
  qed
  obtain n' where n: "n = Suc n'" using assms(3) c by (cases n) auto
  have "result_at prev (x # xs @ s) = Some (r, s)" using result_found [OF assms(1,2), where s = s] c by simp
  moreover have "take (length (x # xs @ s) - length s) (x # xs @ s) = x # xs" by simp
  ultimately show ?thesis using n c assms(3) by (intro exI [of _ n']) simp
qed

lemma finditer_results:
  assumes "\<forall>(j, r) \<in> set jrs. filler j \<and> proper r" "\<forall>c \<in> set tail. \<not> is_dec c"
    and "length (concat (map (\<lambda>(j, r). j @ render_result r) jrs) @ tail) \<le> n" "\<And>c. prev = Some c \<Longrightarrow> c \<noteq> CHR ''%'' \<and> \<not> is_dec c"
  shows "finditer_upto result_at n prev (concat (map (\<lambda>(j, r). j @ render_result r) jrs) @ tail) = map snd jrs"
  using assms
proof (induction jrs arbitrary: n prev)
  case Nil
  then show ?case using finditer_skip [of tail n prev "[]"] by (simp add: finditer_nil)
next
  case (Cons jr jrs)
  obtain j r where jr: "jr = (j, r)" by (cases jr)
  let ?rest = "concat (map (\<lambda>(j, r). j @ render_result r) jrs) @ tail"
  let ?prev = "if j = [] then prev else Some (last j)"
  have f: "filler j" "proper r" using Cons.prems(1) by (simp_all add: jr)
  have "length (render_result r) + length ?rest \<le> n - length j" using Cons.prems(3) by (simp add: jr)
  moreover have "\<And>c. ?prev = Some c \<Longrightarrow> c \<noteq> CHR ''%'' \<and> \<not> is_dec c"
    using f(1) Cons.prems(4) by (auto simp: filler_def split: if_splits)
  ultimately obtain n' where n': "length ?rest \<le> n'"
    "finditer_upto result_at (n - length j) ?prev (render_result r @ ?rest) = r # finditer_upto result_at n' (Some (CHR ''s'')) ?rest"
    using finditer_result [OF f(2)] by blast
  have "CHR ''s'' \<noteq> CHR ''%'' \<and> \<not> is_dec (CHR ''s'')" by code_simp
  then have "finditer_upto result_at n' (Some (CHR ''s'')) ?rest = map snd jrs" using Cons.prems(1,2) n'(1) by (intro Cons.IH) auto
  moreover have "finditer_upto result_at n prev (j @ render_result r @ ?rest) = finditer_upto result_at (n - length j) ?prev (render_result r @ ?rest)"
    using f(1) Cons.prems(3) by (intro finditer_skip) (simp_all add: filler_def jr)
  ultimately show ?case using n'(2) by (simp add: jr)
qed

lemma disk_results_found:
  assumes "\<forall>(j, r) \<in> set jrs. filler j \<and> proper r" "\<forall>c \<in> set tail. \<not> is_dec c"
  shows "disk_results (concat (map (\<lambda>(j, r). j @ render_result r) jrs) @ tail) = map snd jrs"
  unfolding disk_results_def by (rule finditer_results [OF assms]) simp_all

subsection \<open>Waiting for a result\<close>

text \<open>A board whose disk holds a new image whenever it is read, and whose registers read as anything.\<close>

definition disk_board :: "(nat \<Rightarrow> int \<Rightarrow> int) \<Rightarrow> nat board" where
  "disk_board reads = \<lparr>bd_state = (\<lambda>_. Some ''operating''), bd_read = (\<lambda>r k. (if r = R_IDENT then IDENT_MAGIC else reads k r, k)),
     bd_write = (\<lambda>_ _ k. k), bd_low16 = (\<lambda>_ k. (0, k)), bd_set_low16 = (\<lambda>_ _ k. k), bd_now = (\<lambda>k. (0, k)), bd_now_ns = (\<lambda>k. (0, k)),
     bd_sleep = (\<lambda>_ k. k)\<rparr>"

definition disk_at :: "(nat \<Rightarrow> string) \<Rightarrow> nat \<Rightarrow> string \<times> nat" where
  "disk_at img k = (img k, Suc k)"

lemma disk_ops:
  "disk_scan (disk_at img) k = Some (Inr (disk_results (img k)), Suc k)"
  "\<exists>v. rd32 (disk_board reads) r k = Some (Inr v, k)"
  "open_mmio (disk_board reads) k = Some (Inr (), k)" "now (disk_board reads) k = Some (Inr 0, k)" "sleep (disk_board reads) t k = Some (Inr (), k)"
  by (simp_all add: disk_scan_def disk_at_def rd32_def disk_board_def sleep_def now_def
    open_mmio_def require_fpga_operating_def strip_def lstrip_def is_ws_def split: prod.split)

definition arrived :: "(nat \<Rightarrow> string) \<Rightarrow> int \<Rightarrow> nat \<Rightarrow> bool" where
  "arrived img frames k \<longleftrightarrow> frames \<in> fst ` set (disk_results (img k))"

lemma arrived_ex: "list_ex (\<lambda>(n, _). n = frames) (disk_results (img k)) \<longleftrightarrow> arrived img frames k"
  by (force simp: arrived_def list_ex_iff)

lemma quake_step:
  "quake_loop (disk_board reads) (disk_at img) frames 0 interval started k =
    (if arrived img frames k then Some (Inr 0, Suc k) else quake_loop (disk_board reads) (disk_at img) frames 0 interval started (Suc k))"
proof -
  obtain v w where "rd32 (disk_board reads) R_DBG_LASTEIP (Suc k) = Some (Inr v, Suc k)" "rd32 (disk_board reads) R_DBG2 (Suc k) = Some (Inr w, Suc k)"
    using disk_ops(2) by metis
  then show ?thesis by (subst quake_loop.simps) (simp add: disk_ops overdue_def arrived_ex)
qed

lemma quake_arrives:
  assumes "arrived img frames n" "k \<le> n" "\<forall>j. k \<le> j \<and> j < n \<longrightarrow> \<not> arrived img frames j"
  shows "quake_loop (disk_board reads) (disk_at img) frames 0 interval started k = Some (Inr 0, Suc n)"
  using assms(2,3)
proof (induction k rule: inc_induct)
  case base
  then show ?case using assms(1) by (subst quake_step) simp
next
  case (step k)
  then show ?case by (subst quake_step) simp
qed

lemma quake_only:
  assumes "quake_loop (disk_board reads) (disk_at img) frames 0 interval started k = Some y"
  shows "\<exists>n \<ge> k. arrived img frames n"
proof -
  let ?Q = "\<lambda>(B :: nat board) D f (timeout :: int) (interval :: int) (started :: int) k (y :: (board_error + int) \<times> nat).
    B = disk_board reads \<and> D = disk_at img \<and> f = frames \<and> timeout = 0 \<longrightarrow> (\<exists>n \<ge> k. arrived img frames n)"
  have "?Q (disk_board reads) (disk_at img) frames 0 interval started k y"
  proof (rule quake_loop.raw_induct [where P = ?Q, OF _ assms], goal_cases)
    case (1 q B D f timeout interval started k y)
    show ?case
    proof (intro impI, elim conjE)
      assume e: "B = disk_board reads" "D = disk_at img" "f = frames" "timeout = 0"
      obtain v w where "rd32 (disk_board reads) R_DBG_LASTEIP (Suc k) = Some (Inr v, Suc k)" "rd32 (disk_board reads) R_DBG2 (Suc k) = Some (Inr w, Suc k)"
        using disk_ops(2) by metis
      then have "arrived img frames k \<or> q (disk_board reads) (disk_at img) frames 0 interval started (Suc k) = Some y"
        using 1(2) unfolding e by (simp add: disk_ops overdue_def arrived_ex split: if_splits)
      then have "arrived img frames k \<or> (\<exists>n \<ge> Suc k. arrived img frames n)" using 1(1) by blast
      then show "\<exists>n \<ge> k. arrived img frames n" by (meson Suc_leD order_refl)
    qed
  qed
  then show ?thesis by blast
qed

text \<open>What a disk image holds when it holds results: texts and results in turn, and a text.\<close>

definition disk_image :: "(string \<times> int \<times> string \<times> string) list \<Rightarrow> string \<Rightarrow> string" where
  "disk_image jrs tail = concat (map (\<lambda>(j, r). j @ render_result r) jrs) @ tail"


text \<open>A disk on which the second demo run, of 969 frames, is written before the fourth image is read.\<close>

definition demo_parts :: "nat \<Rightarrow> (string \<times> int \<times> string \<times> string) list" where
  "demo_parts k = (if k < 2 then [] else if k < 3 then [(''demo '', 14, ''1.5'', ''9'')] else [(''demo '', 14, ''1.5'', ''9''), ('' / '', 969, ''30.5'', ''31.8'')])"


end
