(* ===== verification/Pc_Stream.thy ===== *)
theory Pc_Stream
  imports Py_Base
begin

text \<open>
  The program-counter comparison tools/f3diff/diff_pcstream.py: the set of linear addresses that QEMU
  executed, the classification of the retired instructions of a window, the search for the first long run
  of instructions that QEMU never executed, and the report. The window file is given; its extraction from
  a trace and the printing are left out.
\<close>

subsection \<open>Records\<close>

definition N_LO :: int where "N_LO = 5400000"
definition N_HI :: int where "N_HI = 6844525"
definition MIN_RUN :: nat where "MIN_RUN = 8"
definition CTX_BEFORE :: nat where "CTX_BEFORE = 64"
definition CTX_AFTER :: nat where "CTX_AFTER = 16"
definition FLAT_SELS :: "int set" where "FLAT_SELS = {0x08, 0x10, 0x18, 0x20, 0x28, 0x30, 0x38}"

record pc_rec =
  pr_n :: int
  pr_cs :: int
  pr_pc :: int
  pr_esp :: int
  pr_lin :: int
  pr_hit :: bool
  pr_rescued :: bool

definition pc_record :: "int set \<Rightarrow> int \<Rightarrow> int \<Rightarrow> int \<Rightarrow> int \<Rightarrow> int \<Rightarrow> pc_rec" where
  "pc_record Q n cs pc esp pe =
    (let lin = (if pe \<noteq> 0 \<and> cs \<in> FLAT_SELS then pc else (push_bit 4 cs + pc) AND 0xFFFFF);
         rescued = (lin \<notin> Q \<and> push_bit 4 cs + pc \<in> Q)
     in \<lparr>pr_n = n, pr_cs = cs, pr_pc = pc, pr_esp = esp, pr_lin = lin, pr_hit = (lin \<in> Q \<or> rescued), pr_rescued = rescued\<rparr>)"

text \<open>\<open>line.split()\<close>.\<close>

function words_of :: "string \<Rightarrow> string list" where
  "words_of s = (case dropWhile is_ws s of [] \<Rightarrow> []
     | c # cs \<Rightarrow> (c # takeWhile (\<lambda>x. \<not> is_ws x) cs) # words_of (dropWhile (\<lambda>x. \<not> is_ws x) cs))"
  by auto
termination
proof (relation "measure length")
  fix s :: string and c cs assume "dropWhile is_ws s = c # cs"
  then have "length (c # cs) \<le> length s" by (metis length_dropWhile_le)
  moreover have "length (dropWhile (\<lambda>x. \<not> is_ws x) cs) \<le> length cs" by (rule length_dropWhile_le)
  ultimately show "(dropWhile (\<lambda>x. \<not> is_ws x) cs, s) \<in> measure length" by simp
qed simp

declare words_of.simps [simp del]

definition field :: "string list \<Rightarrow> nat \<Rightarrow> string result" where
  "field p i = (if i < length p then Inr (p ! i) else Inl IndexError)"

definition int_field :: "int \<Rightarrow> string list \<Rightarrow> nat \<Rightarrow> int result" where
  "int_field b p i = bindE (field p i) (\<lambda>s. of_option ValueError (py_int b s))"

definition window_line :: "int set \<Rightarrow> string \<Rightarrow> pc_rec option result" where
  "window_line Q line = (let p = words_of line
     in bindE (int_field 10 p 0) (\<lambda>n. if n < N_LO \<or> N_HI < n then Inr None
          else bindE (int_field 16 p 1) (\<lambda>cs. bindE (int_field 16 p 2) (\<lambda>pc. bindE (int_field 16 p 3) (\<lambda>esp.
            bindE (int_field 10 p 5) (\<lambda>pe. Inr (Some (pc_record Q n cs pc esp pe))))))))"

definition window_records :: "int set \<Rightarrow> string list \<Rightarrow> pc_rec list result" where
  "window_records Q ls = bindE (mapE (window_line Q) ls) (\<lambda>rs. Inr (map the (filter (\<lambda>r. r \<noteq> None) rs)))"

definition executed :: "string list \<Rightarrow> int set result" where
  "executed pcs = bindE (mapE (\<lambda>s. of_option ValueError (py_int 16 s)) pcs) (\<lambda>Q.
     if 0x7C00 \<in> set Q \<and> 0xC4EE \<notin> set Q then Inr (set Q) else Inl AssertionError)"

subsection \<open>The search\<close>

function run_end :: "pc_rec list \<Rightarrow> nat \<Rightarrow> nat" where
  "run_end recs j = (if j < length recs \<and> \<not> pr_hit (recs ! j) then run_end recs (j + 1) else j)"
  by auto
termination by (relation "measure (\<lambda>(recs, j). length recs - j)") auto

declare run_end.simps [simp del]

lemma run_end_spec:
  "i \<le> run_end recs i \<and> (\<forall>k. i \<le> k \<and> k < run_end recs i \<longrightarrow> k < length recs \<and> \<not> pr_hit (recs ! k)) \<and>
    (run_end recs i < length recs \<longrightarrow> pr_hit (recs ! run_end recs i))"
proof (induction recs i rule: run_end.induct)
  case (1 recs j)
  show ?case
  proof (cases "j < length recs \<and> \<not> pr_hit (recs ! j)")
    case True
    then have e: "run_end recs j = run_end recs (j + 1)" by (subst run_end.simps) simp
    show ?thesis using 1 [OF True] True unfolding e by (metis Suc_eq_plus1 Suc_leD le_neq_implies_less less_eq_Suc_le)
  next
    case False
    then have "run_end recs j = j" by (subst run_end.simps) (rule if_not_P)
    then show ?thesis using False by auto
  qed
qed

text \<open>The start of the divergence, and the shorter runs that were skipped: where they start and how long they are.\<close>

function find_runs :: "pc_rec list \<Rightarrow> nat \<Rightarrow> (nat \<times> nat) list \<Rightarrow> nat option \<times> (nat \<times> nat) list" where
  "find_runs recs i skipped =
    (if \<not> i < length recs then (None, skipped)
     else if pr_hit (recs ! i) then find_runs recs (i + 1) skipped
     else let j = run_end recs i in if MIN_RUN \<le> j - i then (Some i, skipped) else find_runs recs j (skipped @ [(i, j - i)]))"
  by auto
termination
proof (relation "measure (\<lambda>(recs, i, skipped). length recs - i)", simp, simp, goal_cases)
  case (1 recs i skipped j)
  then have "i < run_end recs i" using run_end_spec [of i recs] by (metis le_neq_implies_less)
  then show ?case using 1 by simp
qed

declare find_runs.simps [simp del]

record pc_report =
  rp_divergence :: "nat option"
  rp_isolated :: "(nat \<times> nat) list"
  rp_context :: "nat \<times> nat"
  rp_last_hit :: "nat option"

definition last_hit :: "pc_rec list \<Rightarrow> nat \<Rightarrow> nat option" where
  "last_hit recs d = find (\<lambda>k. pr_hit (recs ! k)) (rev [0..<d])"

text \<open>Without a divergence the tool exits with status 1 after the isolated runs.\<close>

definition pc_report_of :: "pc_rec list \<Rightarrow> pc_report" where
  "pc_report_of recs = (case find_runs recs 0 [] of
     (None, skipped) \<Rightarrow> \<lparr>rp_divergence = None, rp_isolated = skipped, rp_context = (0, 0), rp_last_hit = None\<rparr>
   | (Some d, skipped) \<Rightarrow> \<lparr>rp_divergence = Some d, rp_isolated = skipped, rp_context = (d - CTX_BEFORE, min (length recs) (d + CTX_AFTER + 1)),
       rp_last_hit = last_hit recs d\<rparr>)"

definition diff_pcstream :: "string list \<Rightarrow> string list \<Rightarrow> (pc_rec list \<times> pc_report) result" where
  "diff_pcstream pcs window = bindE (executed pcs) (\<lambda>Q. bindE (window_records Q window) (\<lambda>recs.
     if recs = [] then Inl IndexError else Inr (recs, pc_report_of recs)))"

subsection \<open>What the search finds\<close>

definition misses :: "pc_rec list \<Rightarrow> nat \<Rightarrow> nat \<Rightarrow> bool" where
  "misses recs i n \<longleftrightarrow> i + n \<le> length recs \<and> (\<forall>k. i \<le> k \<and> k < i + n \<longrightarrow> \<not> pr_hit (recs ! k))"

text \<open>A maximal run of misses.\<close>

definition maximal :: "pc_rec list \<Rightarrow> nat \<Rightarrow> nat \<Rightarrow> bool" where
  "maximal recs i n \<longleftrightarrow> 0 < n \<and> misses recs i n \<and> (i = 0 \<or> pr_hit (recs ! (i - 1))) \<and> (i + n = length recs \<or> pr_hit (recs ! (i + n)))"

lemma run_end_maximal:
  assumes "i < length recs" "\<not> pr_hit (recs ! i)" "i = 0 \<or> pr_hit (recs ! (i - 1))"
  shows "maximal recs i (run_end recs i - i)" "i < run_end recs i" "run_end recs i \<le> length recs"
proof -
  note r = run_end_spec [of i recs]
  have ne: "run_end recs i \<noteq> i" using r assms(1,2) by metis
  then show lt: "i < run_end recs i" using r by simp
  have "run_end recs i - 1 < length recs" using r lt by (metis Suc_diff_1 diff_le_self le_neq_implies_less lessI less_Suc_eq_le not_less_zero zero_less_iff_neq_zero le_eq_less_or_eq)
  then show le: "run_end recs i \<le> length recs" using lt by simp
  show "maximal recs i (run_end recs i - i)" using r lt le assms(3) unfolding maximal_def misses_def by auto
qed

lemma maximal_unique:
  assumes "maximal recs i n" "maximal recs s m" "i \<le> s" "s < i + n"
  shows "s = i \<and> m = n"
proof -
  have s: "s = i"
  proof (rule ccontr)
    assume "s \<noteq> i"
    then have "pr_hit (recs ! (s - 1))" "i \<le> s - 1" "s - 1 < i + n" using assms by (auto simp: maximal_def)
    then show False using assms(1) by (auto simp: maximal_def misses_def)
  qed
  have "\<not> m < n" using assms(1,2) unfolding s maximal_def misses_def by (metis add_less_cancel_left le_add1 nat_less_le)
  moreover have "\<not> n < m" using assms(1,2) unfolding s maximal_def misses_def by (metis add_less_cancel_left le_add1 nat_less_le)
  ultimately show ?thesis using s by simp
qed

lemma find_runs_spec:
  assumes "i = 0 \<or> pr_hit (recs ! (i - 1)) \<or> i = length recs \<or> i < length recs \<and> pr_hit (recs ! i)" "i \<le> length recs"
    and "find_runs recs i skipped = (d, out)"
  shows "(case d of None \<Rightarrow> \<forall>k. i \<le> k \<longrightarrow> \<not> misses recs k MIN_RUN | Some D \<Rightarrow> i \<le> D \<and> misses recs D MIN_RUN \<and> (\<forall>k. i \<le> k \<and> k < D \<longrightarrow> \<not> misses recs k MIN_RUN)) \<and>
    set out = set skipped \<union> {(s, n). maximal recs s n \<and> n < MIN_RUN \<and> i \<le> s \<and> (case d of None \<Rightarrow> True | Some D \<Rightarrow> s < D)}"
  using assms
proof (induction recs i skipped arbitrary: d out rule: find_runs.induct)
  case (1 recs i skipped)
  have m8: "MIN_RUN = 8" by (simp add: MIN_RUN_def)
  consider "i = length recs" | "i < length recs" "pr_hit (recs ! i)" | "i < length recs" "\<not> pr_hit (recs ! i)" using 1(4) by fastforce
  then show ?case
  proof cases
    case 1
    then have "d = None" "out = skipped" using \<open>find_runs recs i skipped = (d, out)\<close> find_runs.simps [of recs i skipped] by simp_all
    moreover have "\<not> misses recs k MIN_RUN" if "i \<le> k" for k using that 1 by (simp add: misses_def m8)
    moreover have "\<not> maximal recs s n" if "i \<le> s" for s n using that 1 by (auto simp: maximal_def misses_def)
    ultimately show ?thesis by auto
  next
    case 2
    then have e: "find_runs recs i skipped = find_runs recs (i + 1) skipped" by (simp add: find_runs.simps [of recs i])
    have no: "\<not> misses recs i n" if "0 < n" for n using that 2 by (auto simp: misses_def)
    have IH: "(case d of None \<Rightarrow> \<forall>k. i + 1 \<le> k \<longrightarrow> \<not> misses recs k MIN_RUN | Some D \<Rightarrow> i + 1 \<le> D \<and> misses recs D MIN_RUN \<and> (\<forall>k. i + 1 \<le> k \<and> k < D \<longrightarrow> \<not> misses recs k MIN_RUN)) \<and>
      set out = set skipped \<union> {(s, n). maximal recs s n \<and> n < MIN_RUN \<and> i + 1 \<le> s \<and> (case d of None \<Rightarrow> True | Some D \<Rightarrow> s < D)}"
      using 1(1) [of d out] 2 1(5) e by simp
    have up: "i \<le> k \<longleftrightarrow> k = i \<or> i + 1 \<le> k" for k by auto
    have "maximal recs s n \<Longrightarrow> s \<noteq> i" for s n using no by (auto simp: maximal_def)
    then show ?thesis using IH no [of MIN_RUN] unfolding up by (auto simp: m8 split: option.splits)
  next
    case 3
    define j where "j = run_end recs i"
    have start: "i = 0 \<or> pr_hit (recs ! (i - 1))" using 1(3) 3 by auto
    have mx: "maximal recs i (j - i)" "i < j" "j \<le> length recs" using run_end_maximal [OF 3 start] by (simp_all add: j_def)
    show ?thesis
    proof (cases "MIN_RUN \<le> j - i")
      case True
      then have "d = Some i" "out = skipped" using 1(5) 3 by (simp_all add: find_runs.simps [of recs i] j_def Let_def)
      moreover have "misses recs i MIN_RUN" using mx True by (auto simp: maximal_def misses_def)
      ultimately show ?thesis by auto
    next
      case False
      then have e: "find_runs recs i skipped = find_runs recs j (skipped @ [(i, j - i)])" using 3 by (simp add: find_runs.simps [of recs i] j_def Let_def)
      have next_hit: "j = length recs \<or> j < length recs \<and> pr_hit (recs ! j)" using mx by (auto simp: maximal_def)
      then have IH: "(case d of None \<Rightarrow> \<forall>k. j \<le> k \<longrightarrow> \<not> misses recs k MIN_RUN | Some D \<Rightarrow> j \<le> D \<and> misses recs D MIN_RUN \<and> (\<forall>k. j \<le> k \<and> k < D \<longrightarrow> \<not> misses recs k MIN_RUN)) \<and>
        set out = set (skipped @ [(i, j - i)]) \<union> {(s, n). maximal recs s n \<and> n < MIN_RUN \<and> j \<le> s \<and> (case d of None \<Rightarrow> True | Some D \<Rightarrow> s < D)}"
        using 1(2) [OF _ _ j_def, of d out] 3 False mx(3) 1(5) e by simp
      have no: "\<not> misses recs k MIN_RUN" if k: "i \<le> k" "k < j" for k
      proof
        assume m: "misses recs k MIN_RUN"
        then have "k + 8 \<le> length recs" by (simp add: misses_def m8)
        then have "j < length recs" using k False mx(3) by (simp add: m8)
        then have "pr_hit (recs ! j)" using next_hit by simp
        moreover have "k \<le> j \<and> j < k + 8" using k False by (auto simp: m8)
        ultimately show False using m by (auto simp: misses_def m8)
      qed
      have one: "maximal recs s n \<and> i \<le> s \<and> s < j \<longleftrightarrow> s = i \<and> n = j - i" for s n
        using maximal_unique [OF mx(1), of s n] mx by auto
      have later: "j \<le> s" if "maximal recs s n" "i \<le> s" "s \<noteq> i \<or> n \<noteq> j - i" for s n
        using one [of s n] that by (cases "s < j") auto
      have runs: "{(s, n). maximal recs s n \<and> n < MIN_RUN \<and> i \<le> s \<and> (case d of None \<Rightarrow> True | Some D \<Rightarrow> s < D)} =
          insert (i, j - i) {(s, n). maximal recs s n \<and> n < MIN_RUN \<and> j \<le> s \<and> (case d of None \<Rightarrow> True | Some D \<Rightarrow> s < D)}"
        if "\<forall>D. d = Some D \<longrightarrow> j \<le> D"
      proof -
        define P where "P s = (case d of None \<Rightarrow> True | Some D \<Rightarrow> s < D)" for s
        have Pi: "P i" using that mx(2) by (auto simp: P_def split: option.splits)
        have "j - i < MIN_RUN" using False by simp
        then have "maximal recs s n \<and> n < MIN_RUN \<and> i \<le> s \<and> P s \<longleftrightarrow> s = i \<and> n = j - i \<or> maximal recs s n \<and> n < MIN_RUN \<and> j \<le> s \<and> P s" for s n
          using later [of s n] mx(1,2) Pi by (cases "s = i \<and> n = j - i") auto
        then show ?thesis unfolding P_def [symmetric] by blast
      qed
      have none: "\<not> misses recs k MIN_RUN" if "i \<le> k" "j \<le> k \<Longrightarrow> \<not> misses recs k MIN_RUN" for k
        using that no [of k] by (cases "k < j") simp_all
      show ?thesis
      proof (cases d)
        case None
        have "set out = set skipped \<union> insert (i, j - i) {(s, n). maximal recs s n \<and> n < MIN_RUN \<and> j \<le> s}" using IH None by auto
        then show ?thesis using runs IH none unfolding None by simp
      next
        case (Some D)
        have "set out = set skipped \<union> insert (i, j - i) {(s, n). maximal recs s n \<and> n < MIN_RUN \<and> j \<le> s \<and> s < D}" using IH Some by auto
        moreover have D: "i \<le> D" "j \<le> D" "\<And>k. j \<le> k \<Longrightarrow> k < D \<Longrightarrow> \<not> misses recs k MIN_RUN" using IH mx(2) Some by simp_all
        moreover have "\<forall>k. i \<le> k \<and> k < D \<longrightarrow> \<not> misses recs k MIN_RUN" using D(3) none by blast
        ultimately show ?thesis using runs IH none unfolding Some by simp
      qed
    qed
  qed
qed



end
