(* ===== verification/Spec2Isabelle.thy ===== *)
theory Spec2Isabelle
  imports Srt_Remainder Srt_Root Trace_Stream Gen_System Gen_Replay Elf_Flat Pll_Clock Board_Step Board_Cold Board_Keys Vga_Roundtrip Vga_Avi Board_Linear Board_Watch Board_Compare Board_Bundle Board_Samples Pc_Stream
begin

text \<open>
  Ventium is a Pentium-class processor in SystemVerilog with a Python toolchain around it. This
  development models the Python that decides whether the processor is right: the reference arithmetic,
  the trace producers and comparators of the differential tests, the image builder, and the tools that
  drive the FPGA board.

  \<^bold>\<open>How the parts interact.\<close> A test program is linked to an ELF file and flattened into an image
  (\<open>verif/tests/elf2flat.py\<close>). QEMU runs it under its gdb stub while \<open>verif/qemu-trace/gen_trace.py\<close>
  single-steps it over the remote protocol and writes one JSON record per instruction; a replayed run
  logs to a file that \<open>replaylog.py\<close> cuts into records. The processor's simulation writes the same
  format (\<open>verif/diff/tracefmt.py\<close>), and \<open>compare.py\<close> and \<open>compare_stream.py\<close> compare the two. The
  divider, square-root and remainder units are checked against \<open>tools/srt\<close>. On the board,
  \<open>fpga/board-tools/ven_board_probe.py\<close> drives the debug registers of \<open>fpga/rk/src/ven_mgmt_axil.v\<close>,
  \<open>ven_cold_clock.py\<close> measures the clock through them, and \<open>ven_pll_clock.py\<close> changes it.

  \<^bold>\<open>Theories and code.\<close>

  \<^item> \<open>Vent_Prelude\<close>: bit-level facts on unbounded integers and the collections of simplification rules.
  \<open>Py_Base\<close>, \<open>Py_Json\<close>, \<open>Py_Regex\<close>: Python's text and number rendering, dictionaries in insertion order,
  JSON values with their printer and parser, and pieces of regular expressions. \<open>Py_IO\<close>: computations
  over a state that may raise an exception or never return.

  \<^item> \<open>Srt_Pla\<close> (\<open>_lookup_raw\<close>, \<open>pla\<close> of \<open>srt_model.py\<close>), \<open>Srt_Datapath\<close> (the carry-save registers),
  \<open>Srt_Divide\<close> (\<open>srt_core\<close>, \<open>fdiv_fx80\<close>) and \<open>Srt_Remainder\<close> (\<open>rem_model.py\<close>). The locale
  \<open>digit_select\<close> is what the recurrence needs of a digit table; the complete table interprets it. The
  lemmas show the invariant of the partial remainder, from it the correctly rounded quotient and the
  exact remainder, and that a wrong quotient needs one of the five columns of the incomplete table.
  \<open>Srt_Root\<close> (\<open>sqrt_model.py\<close>): the digit recurrence of the square root, its invariant, the nearest
  floatx80 number as its result, and its agreement with the reference by an integer square root.

  \<^item> \<open>Trace_Format\<close>, \<open>Trace_Compare\<close>, \<open>Trace_Stream\<close>: records, their writer and reader, the two comparators
  and their exit codes; the verdicts are characterised exactly and shown to agree. \<open>Replay_Log\<close>: the
  generator of \<open>replaylog.py\<close>; a rendered log is cut into exactly the records that were logged.
  \<open>Pc_Stream\<close> (\<open>tools/f3diff/diff_pcstream.py\<close>): the first long run of instructions QEMU never executed.

  \<^item> \<open>Gdb_Regs\<close> (register image), \<open>Gdb_Client\<close> (\<open>RSPClient\<close>), \<open>Gdb_Stub\<close> (the contract of the peer as the
  locale \<open>gdb_session\<close>, interpreted on the model of the client against a stub over an abstract machine),
  and the four producers \<open>Gen_Trace\<close>, \<open>Gen_System\<close>, \<open>Gen_Syscall\<close>, \<open>Gen_Replay\<close> of \<open>gen_trace.py\<close>. The
  lemmas follow the session step by step: the trace written is the run of the machine.

  \<^item> \<open>Elf_Flat\<close>: the flat image is the memory that loading the segments produces.

  \<^item> \<open>Pll_Clock\<close>: the request protocol over claimed GPIO lines, shown to be free of stray requests against
  any device, and to reach the ordered divider against a reference controller.

  \<^item> \<open>Board_Mmio\<close> (register map and accesses; the locales \<open>split_counter\<close> and \<open>slow_counter\<close> are what the
  reader of a 64-bit counter needs of its two halves), \<open>Board_Exec\<close> (the halt, run, step and breakpoint
  commands and the dump of the architectural state), \<open>Board_Core\<close> (the register block that provides them,
  from the RTL, at the granularity of bus transactions), \<open>Board_Step\<close> (the interpretation of
  \<open>slow_counter\<close> on it and the correctness of stepping and of breakpoints), \<open>Board_Cold\<close> (the clock
  measurement, with the locale \<open>clocked\<close>), \<open>Board_Keys\<close> (the BIOS ring and the PS/2 device).

  \<^item> \<open>Board_Rings\<close> (the forensic rings and their probes, \<open>_sparse_vga_ring_lines\<close>), \<open>Board_Trace\<close> (the block of
  \<open>fpga/rk/src/ven_soc_dbg.sv\<close> behind them as an inductive set of reachable states; the locales
  \<open>indexed_port\<close>, \<open>pc_port\<close> and \<open>core_port\<close> are what a reader of a ring needs, and the frozen block
  interprets them for both rings), \<open>Board_Screen\<close> (the text screen is what the newest accesses show).

  \<^item> \<open>Board_Walk\<close> (the page walks and the probes on them), \<open>Board_Linear\<close> (the walk is the translation of the
  processor, byte by byte), \<open>Board_Traps\<close> (the comparator profiles and the polling detectors),
  \<open>Board_Watch\<close> (the detector of a protected exit on any sequence of samples), \<open>Board_Compare\<close> (the profiles on
  the comparator of \<open>rtl/ventium_top.sv\<close>), \<open>Board_State\<close> (\<open>debug_state\<close>, cold preparation, the counter
  measurement), \<open>Board_Bundle\<close> (the forensic bundle and its marker), \<open>Board_Samples\<close> (the results on a disk
  image and the wait for one, the trap on a CWSDPMI record, the samplers, dumps and clock profiles).

  \<^item> \<open>Vga_Stream\<close> (headers, CRC-32, colours), \<open>Board_Capture\<close> (the capture command), \<open>Board_Recorder\<close> (the
  recorder of \<open>fpga/ven_video_capture.sv\<close> and that a capture is fresh), \<open>Vga_Video\<close> (the decoder and the AVI
  writer of \<open>ven_vga_stream_to_video.py\<close>), \<open>Vga_Roundtrip\<close> and \<open>Vga_Avi\<close> (what is captured is decoded, and
  what is written to a movie is found again through its index).

  \<^bold>\<open>Effects, bounds and fuel.\<close> Exceptions are values of a sum. Loops that wait for a device are
  \<open>partial_function (option)\<close>, so not returning is \<open>None\<close>; the properties say that they return wherever
  the code promises it. The SRT recurrences run for a fixed number of steps taken from the code; their
  conversion loops are bounded by fuel that is shown to be enough. Python's integers are \<open>int\<close>; a width
  is written out where the code masks. Floats occur only in percentages and frequencies and are exact
  rationals. Times are integers, in milliseconds unless a theory says otherwise.

  \<^bold>\<open>Parameters.\<close> The gdb peer, the replay, the GPIO device, the mapped registers, the clock, the file
  system and the disassembler are arguments of the definitions that use them. Properties that assume
  something of them say so in a hypothesis and have an instance that satisfies it.

  \<^bold>\<open>Not modelled.\<close> \<open>emit_sv_pla\<close> of \<open>tools/srt\<close>, which prints the digit table; launching processes and
  command lines; of \<open>ven_board_probe.py\<close> the parser of its arguments and the fingerprints of the input files;
  the graphical pipeline viewer (\<open>tools/pipeviz\<close>, a Qt front end), the generators of test programs under
  \<open>verif/cov/opgen\<close> and \<open>verif/fpu87\<close> (tables of assembly text), the opcode map, the renderer of device
  views, the coverage reports and metrics, and the RTL itself beyond the debug registers, the rings, the
  comparator and the recorder.
\<close>

end
